theory Spec2Isabelle
  imports Complex_Main
begin

section \<open>Strings and slugs (src/lib/dynamo.ts)\<close>

text \<open>
  JavaScript strings are modelled as Isabelle strings: lists of 8-bit code units, read as
  Latin-1. \<open>trim\<close> removes the white space and line terminators of that range from both
  ends, \<open>toLowerCase\<close> maps the upper-case letters of that range, the replacement of
  \<open>/[^a-z0-9]+/g\<close> turns every maximal run of other characters into one dash, and the
  replacement of \<open>/^-+|-+$/g\<close> removes the dashes at both ends.
\<close>

definition isWhiteSpace :: "char \<Rightarrow> bool" where
  "isWhiteSpace c \<longleftrightarrow> (of_char c :: nat) \<in> {9, 10, 11, 12, 13, 32, 160}"

definition trim :: "string \<Rightarrow> string" where
  "trim s = rev (dropWhile isWhiteSpace (rev (dropWhile isWhiteSpace s)))"

definition toLowerCaseChar :: "char \<Rightarrow> char" where
  "toLowerCaseChar c =
     (let n = (of_char c :: nat)
      in if (65 \<le> n \<and> n \<le> 90) \<or> (192 \<le> n \<and> n \<le> 222 \<and> n \<noteq> 215)
         then char_of (n + 32) else c)"

definition toLowerCase :: "string \<Rightarrow> string" where
  "toLowerCase s = map toLowerCaseChar s"

definition isLowerAlnum :: "char \<Rightarrow> bool" where
  "isLowerAlnum c \<longleftrightarrow> c \<in> set ''abcdefghijklmnopqrstuvwxyz0123456789''"

function replaceNonAlnumRuns :: "string \<Rightarrow> string" where
  "replaceNonAlnumRuns [] = []"
| "replaceNonAlnumRuns (c # cs) =
     (if isLowerAlnum c then c # replaceNonAlnumRuns cs
      else CHR ''-'' # replaceNonAlnumRuns (dropWhile (\<lambda>d. \<not> isLowerAlnum d) cs))"
  by pat_completeness auto
termination
  by (relation "measure length") (auto simp: length_dropWhile_le less_Suc_eq_le)

definition isDash :: "char \<Rightarrow> bool" where
  "isDash c \<longleftrightarrow> c = CHR ''-''"

definition stripDashes :: "string \<Rightarrow> string" where
  "stripDashes s = rev (dropWhile isDash (rev (dropWhile isDash s)))"

definition normalizeLogoName :: "string \<Rightarrow> string" where
  "normalizeLogoName name = stripDashes (replaceNonAlnumRuns (toLowerCase (trim name)))"


text \<open>
  \<open>resolvePublicUrl\<close> and the ingestion scripts drop one trailing slash from the public
  base URL (\<open>/\/$/\<close>); \<open>split("#")[0]\<close> is the part of a string before its first hash.
\<close>

definition dropTrailingSlash :: "string \<Rightarrow> string" where
  "dropTrailingSlash s = (if s \<noteq> [] \<and> last s = CHR ''/'' then butlast s else s)"

definition beforeFirstHash :: "string \<Rightarrow> string" where
  "beforeFirstHash s = takeWhile (\<lambda>c. c \<noteq> CHR ''#'') s"

definition startsWith :: "string \<Rightarrow> string \<Rightarrow> bool" where
  "startsWith s p \<longleftrightarrow> take (length p) s = p"

definition endsWith :: "string \<Rightarrow> string \<Rightarrow> bool" where
  "endsWith s p \<longleftrightarrow> length p \<le> length s \<and> drop (length s - length p) s = p"

section \<open>JavaScript values and the host\<close>

text \<open>
  A JavaScript number is a finite value or one of the three special values. Finite
  doubles are modelled as rationals: the code only compares them and passes them on.
\<close>

datatype jsnum = Fin rat | PosInf | NegInf | NaN

fun isFinite :: "jsnum \<Rightarrow> bool" where
  "isFinite (Fin r) = True"
| "isFinite PosInf = False"
| "isFinite NegInf = False"
| "isFinite NaN = False"

text \<open>The comparison \<open>a > b\<close> of two numbers; it is false when either is NaN.\<close>

fun js_gt :: "jsnum \<Rightarrow> jsnum \<Rightarrow> bool" where
  "js_gt (Fin a) (Fin b) = (b < a)"
| "js_gt (Fin a) NegInf = True"
| "js_gt PosInf (Fin b) = True"
| "js_gt PosInf NegInf = True"
| "js_gt a b = False"

text \<open>
  The values an item of the document client can hold. An item (\<open>RawItem\<close>, a
  \<open>Record<string, unknown>\<close>) is an object: a list of properties.
\<close>

datatype jsval =
    JUndefined
  | JNull
  | JBool bool
  | JNum jsnum
  | JBigInt int
  | JStr string
  | JArr "jsval list"
  | JObj "(string \<times> jsval) list"

type_synonym RawItem = "(string \<times> jsval) list"

datatype error =
    Error string
  | TypeError string
  | ServiceError string

text \<open>
  Reading a property of an item that is an object gives the value or \<open>undefined\<close>.
  Reading a property of an arbitrary value throws a \<open>TypeError\<close> on \<open>null\<close> and
  \<open>undefined\<close>; arrays and strings answer to indices only.
\<close>

definition getField :: "RawItem \<Rightarrow> string \<Rightarrow> jsval" where
  "getField item k = (case map_of item k of None \<Rightarrow> JUndefined | Some v \<Rightarrow> v)"

fun getProp :: "jsval \<Rightarrow> string \<Rightarrow> error + jsval" where
  "getProp JUndefined k = Inl (TypeError ''Cannot read properties of undefined'')"
| "getProp JNull k = Inl (TypeError ''Cannot read properties of null'')"
| "getProp (JObj kvs) k = Inr (getField kvs k)"
| "getProp v k = Inr JUndefined"

fun getIndex :: "jsval \<Rightarrow> nat \<Rightarrow> string \<Rightarrow> error + jsval" where
  "getIndex JUndefined i k = Inl (TypeError ''Cannot read properties of undefined'')"
| "getIndex JNull i k = Inl (TypeError ''Cannot read properties of null'')"
| "getIndex (JObj kvs) i k = Inr (getField kvs k)"
| "getIndex (JArr vs) i k = Inr (if i < length vs then vs ! i else JUndefined)"
| "getIndex (JStr s) i k = Inr (if i < length s then JStr [s ! i] else JUndefined)"
| "getIndex v i k = Inr JUndefined"

text \<open>The operator \<open>a ?? b\<close>: \<open>b\<close> when \<open>a\<close> is \<open>null\<close> or \<open>undefined\<close>.\<close>

definition nullish :: "jsval \<Rightarrow> jsval \<Rightarrow> jsval" where
  "nullish a b = (if a = JUndefined \<or> a = JNull then b else a)"

text \<open>
  What the code takes from its host: the process environment, the conversions
  \<open>Number(v)\<close> (for a value that is not a number already) and \<open>toString\<close> on numbers,
  \<open>new Date(s).getTime()\<close> (\<open>None\<close> is NaN, the time of an invalid date) and
  \<open>localeCompare\<close>. The theorems hold for every host.
\<close>

record host =
  getenv :: "string \<Rightarrow> string option"
  toNumber :: "jsval \<Rightarrow> jsnum"
  numberToString :: "jsnum \<Rightarrow> string"
  bigintToString :: "int \<Rightarrow> string"
  dateGetTime :: "string \<Rightarrow> int option"
  localeCompare :: "string \<Rightarrow> string \<Rightarrow> int"

text \<open>A string that may be \<open>undefined\<close> is truthy when it is present and not empty.\<close>

definition truthy :: "string option \<Rightarrow> bool" where
  "truthy s = (case s of None \<Rightarrow> False | Some t \<Rightarrow> t \<noteq> [])"

definition asString :: "host \<Rightarrow> jsval \<Rightarrow> string option" where
  "asString h v =
     (case v of
        JStr s \<Rightarrow> Some s
      | JNum n \<Rightarrow> Some (numberToString h n)
      | JBigInt i \<Rightarrow> Some (bigintToString h i)
      | _ \<Rightarrow> None)"

definition asNumber :: "host \<Rightarrow> jsval \<Rightarrow> jsnum option" where
  "asNumber h v =
     (let num = (case v of JNum n \<Rightarrow> n | _ \<Rightarrow> toNumber h v)
      in if isFinite num then Some num else None)"

definition numberOr0 :: "jsnum option \<Rightarrow> jsnum" where
  "numberOr0 n = (case n of None \<Rightarrow> Fin 0 | Some m \<Rightarrow> m)"

definition resolvePublicUrl :: "host \<Rightarrow> string option \<Rightarrow> string option \<Rightarrow> string option" where
  "resolvePublicUrl h publicUrl key =
     (if truthy publicUrl then publicUrl
      else if \<not> truthy key then None
      else let base = getenv h ''S3_PUBLIC_BASE_URL''
           in if \<not> truthy base then None
              else Some (dropTrailingSlash (the base) @ ''/'' @ the key))"

definition getTableName :: "host \<Rightarrow> string \<Rightarrow> error + string" where
  "getTableName h tableType =
     (let envKey = (if tableType = ''photos'' then ''DYNAMO_TABLE_PHOTOS''
                    else if tableType = ''logos'' then ''DYNAMO_TABLE_LOGOS''
                    else ''DYNAMO_TABLE_PHOTO_LOGOS'');
          table = getenv h envKey
      in if \<not> truthy table then Inl (Error (envKey @ '' env var is required.''))
         else Inr (the table))"

section \<open>The document client\<close>

text \<open>
  The commands of the document client that the code constructs, and \<open>DeleteCommand\<close>,
  which the client offers as well. A query carries its key condition
  \<open>attribute = :value\<close> as the attribute and the value. A write request of a batch is,
  as the source declares \<open>MappingRequest\<close>, a put request.
\<close>

datatype MappingRequest = PutRequest RawItem

datatype command =
    ScanCommand string
  | QueryCommand string string jsval
  | BatchGetCommand string "RawItem list"
  | PutCommand string RawItem
  | BatchWriteCommand string "MappingRequest list"
  | UpdateCommand string RawItem string "(string \<times> jsval) list" "(string \<times> string) list"
  | DeleteCommand string RawItem

record response =
  Items :: "RawItem list option"
  Responses :: "(string \<times> RawItem list) list option"
  UnprocessedItems :: "(string \<times> MappingRequest list) list option"

definition emptyResponse :: response where
  "emptyResponse = \<lparr>Items = None, Responses = None, UnprocessedItems = None\<rparr>"

datatype level = Info | Warn | Err | Log

datatype fragment = T string | N nat | E error

text \<open>
  The services the code calls: the database answers the \<open>n\<close>-th command it is sent
  (any answer, or a rejection); object storage and the vision API answer per key. The
  world records what was sent and what was written to the console.
\<close>

datatype body =
    Buffer "nat list"
  | Uint8Array "nat list"
  | Transformable "error + nat list"
  | Readable "nat list list" "error option"

record annotation =
  description :: "string option"
  score :: "jsnum option"
  vertices :: "(jsnum option \<times> jsnum option) option list option"

record services =
  dynamo :: "nat \<Rightarrow> command \<Rightarrow> error + response"
  s3GetObject :: "string \<Rightarrow> error + body option"
  logoDetection :: "nat list \<Rightarrow> error + annotation list option"
  isoNow :: "nat \<Rightarrow> string"

record world =
  sent :: "command list"
  fetched :: "string list"
  console :: "(level \<times> fragment list) list"

definition send :: "services \<Rightarrow> command \<Rightarrow> world \<Rightarrow> (error + response) \<times> world" where
  "send svc cmd w = (dynamo svc (length (sent w)) cmd, w\<lparr>sent := sent w @ [cmd]\<rparr>)"

definition writeConsole :: "level \<Rightarrow> fragment list \<Rightarrow> world \<Rightarrow> world" where
  "writeConsole l m w = w\<lparr>console := console w @ [(l, m)]\<rparr>"

section \<open>The repositories (logo-index-decoupled.ts and logo-index.ts)\<close>

text \<open>
  Both repository modules declare the same record types. A bounding point \<open>{x, y}\<close> is
  a \<open>Vertex\<close>; the field \<open>id\<close> of a photo record is \<open>photoId\<close> here.
\<close>

record Vertex =
  vx :: jsnum
  vy :: jsnum

record LogoDetection =
  name :: string
  slug :: string
  confidence :: jsnum
  boundingPoly :: "Vertex list option"
  detectionIndex :: "jsnum option"

record PhotoRecord =
  photoId :: string
  imageUrl :: "string option"
  s3Key :: "string option"
  logos :: "LogoDetection list"
  createdAt :: "string option"
  matchConfidence :: "jsnum option"

text \<open>Running a function that may throw over a list stops at the first throw.\<close>

fun mapM :: "('a \<Rightarrow> error + 'b) \<Rightarrow> 'a list \<Rightarrow> error + 'b list" where
  "mapM f [] = Inr []"
| "mapM f (a # as) =
     (case f a of
        Inl e \<Rightarrow> Inl e
      | Inr b \<Rightarrow> (case mapM f as of Inl e \<Rightarrow> Inl e | Inr bs \<Rightarrow> Inr (b # bs)))"

subsection \<open>Mapping items to records, decoupled tables\<close>

definition mapPhotoItem_decoupled :: "host \<Rightarrow> RawItem \<Rightarrow> PhotoRecord" where
  "mapPhotoItem_decoupled h item =
     (let pid = (case asString h (getField item ''photoId'') of None \<Rightarrow> [] | Some s \<Rightarrow> s);
          key = asString h (getField item ''s3Key'');
          publicUrl = asString h (getField item ''publicUrl'')
      in \<lparr>photoId = pid,
          imageUrl = resolvePublicUrl h publicUrl key,
          s3Key = key,
          logos = [],
          createdAt = asString h (getField item ''createdAt''),
          matchConfidence = None\<rparr>)"

definition mapPoint_decoupled :: "host \<Rightarrow> jsval \<Rightarrow> error + Vertex" where
  "mapPoint_decoupled h point =
     (case getProp point ''x'' of
        Inl e \<Rightarrow> Inl e
      | Inr px \<Rightarrow>
          (case getProp point ''y'' of
             Inl e \<Rightarrow> Inl e
           | Inr py \<Rightarrow> Inr \<lparr>vx = numberOr0 (asNumber h px), vy = numberOr0 (asNumber h py)\<rparr>))"

definition mapLogoMapping :: "host \<Rightarrow> RawItem \<Rightarrow> error + LogoDetection" where
  "mapLogoMapping h item =
     (let nm = (case asString h (getField item ''logoName'') of None \<Rightarrow> [] | Some s \<Rightarrow> s);
          sl = (case asString h (getField item ''logoSlug'') of
                  None \<Rightarrow> normalizeLogoName nm | Some s \<Rightarrow> s);
          detection = \<lparr>name = nm, slug = sl,
                       confidence = numberOr0 (asNumber h (getField item ''confidence'')),
                       boundingPoly = None,
                       detectionIndex = asNumber h (getField item ''detectionIndex'')\<rparr>
      in case getField item ''boundingPoly'' of
           JArr points \<Rightarrow>
             (case mapM (mapPoint_decoupled h) points of
                Inl e \<Rightarrow> Inl e
              | Inr vs \<Rightarrow> Inr (detection\<lparr>boundingPoly := Some vs\<rparr>))
         | _ \<Rightarrow> Inr detection)"

subsection \<open>Sorting photos\<close>

text \<open>
  \<open>Array.prototype.sort\<close> is stable and treats a comparator result of NaN as equal. It
  is modelled as the stable insertion sort. When the comparator orders the elements
  consistently, every stable sort returns the same list, and the model returns what any
  engine returns. When it does not (as \<open>comparePhotos\<close> on photos of which only some have
  a \<open>createdAt\<close>), the language leaves the order to the implementation, and an engine
  may return another order than the model: nothing is stated below about the order of
  such a list, except for lists in which every element already precedes its successor
  by the comparator, which insertion and the detection of runs both leave as they are.
  The comparator's result is an integer or NaN (\<open>None\<close>).
\<close>

definition positive :: "int option \<Rightarrow> bool" where
  "positive v = (case v of None \<Rightarrow> False | Some d \<Rightarrow> 0 < d)"

fun insert_js :: "('a \<Rightarrow> 'a \<Rightarrow> int option) \<Rightarrow> 'a \<Rightarrow> 'a list \<Rightarrow> 'a list" where
  "insert_js cmp a [] = [a]"
| "insert_js cmp a (b # bs) =
     (if positive (cmp a b) then b # insert_js cmp a bs else a # b # bs)"

definition sort_js :: "('a \<Rightarrow> 'a \<Rightarrow> int option) \<Rightarrow> 'a list \<Rightarrow> 'a list" where
  "sort_js cmp xs = foldr (insert_js cmp) xs []"

definition comparePhotos :: "host \<Rightarrow> PhotoRecord \<Rightarrow> PhotoRecord \<Rightarrow> int option" where
  "comparePhotos h a b =
     (if truthy (createdAt a) \<and> truthy (createdAt b)
      then (case (dateGetTime h (the (createdAt b)), dateGetTime h (the (createdAt a))) of
              (Some tb, Some ta) \<Rightarrow> Some (tb - ta)
            | _ \<Rightarrow> None)
      else Some (localeCompare h (photoId a) (photoId b)))"

subsection \<open>fetchAllPhotos, decoupled tables\<close>

text \<open>
  The map from id to photo holds the photo objects of the array themselves: it is
  modelled as the index of the last photo with that id, and pushing a detection updates
  the photo at that index.
\<close>

definition photoIndex :: "PhotoRecord list \<Rightarrow> string \<Rightarrow> nat option" where
  "photoIndex photos pid =
     (case filter (\<lambda>i. photoId (photos ! i) = pid) (rev [0..<length photos]) of
        [] \<Rightarrow> None
      | i # _ \<Rightarrow> Some i)"

fun groupLogos :: "host \<Rightarrow> RawItem list \<Rightarrow> PhotoRecord list \<Rightarrow> error + PhotoRecord list" where
  "groupLogos h [] photos = Inr photos"
| "groupLogos h (item # items) photos =
     (let pid = asString h (getField item ''photoId'')
      in if \<not> truthy pid then groupLogos h items photos
         else (case photoIndex photos (the pid) of
                 None \<Rightarrow> groupLogos h items photos
               | Some i \<Rightarrow>
                   (case mapLogoMapping h item of
                      Inl e \<Rightarrow> Inl e
                    | Inr detection \<Rightarrow>
                        groupLogos h items
                          (photos[i := (photos ! i)\<lparr>logos := logos (photos ! i) @ [detection]\<rparr>]))))"

definition itemsOrEmpty :: "RawItem list option \<Rightarrow> RawItem list" where
  "itemsOrEmpty r = (case r of None \<Rightarrow> [] | Some xs \<Rightarrow> xs)"

definition fetchAllPhotos_decoupled ::
  "host \<Rightarrow> services \<Rightarrow> world \<Rightarrow> (error + PhotoRecord list) \<times> world" where
  "fetchAllPhotos_decoupled h svc w =
     (if \<not> truthy (getenv h ''DYNAMO_PHOTOS_TABLE'')
      then (Inl (Error ''DYNAMO_PHOTOS_TABLE not configured''), w)
      else if \<not> truthy (getenv h ''DYNAMO_PHOTO_LOGOS_TABLE'')
      then (Inl (Error ''DYNAMO_PHOTO_LOGOS_TABLE not configured''), w)
      else
        (case send svc (ScanCommand (the (getenv h ''DYNAMO_PHOTOS_TABLE''))) w of
           (Inl e, w1) \<Rightarrow> (Inl e, w1)
         | (Inr r1, w1) \<Rightarrow>
             if length (itemsOrEmpty (Items r1)) = 0 then (Inr [], w1)
             else
               let photos = map (mapPhotoItem_decoupled h) (itemsOrEmpty (Items r1))
               in (case send svc (ScanCommand (the (getenv h ''DYNAMO_PHOTO_LOGOS_TABLE''))) w1 of
                     (Inl e, w2) \<Rightarrow> (Inl e, w2)
                   | (Inr r2, w2) \<Rightarrow>
                       (case groupLogos h (itemsOrEmpty (Items r2)) photos of
                          Inl e \<Rightarrow> (Inl e, w2)
                        | Inr grouped \<Rightarrow> (Inr (sort_js (comparePhotos h) grouped), w2)))))"

subsection \<open>fetchPhotosByLogo, decoupled tables\<close>

text \<open>
  The loop over the mapping items collects the photo ids in the order of their first
  occurrence and, per photo id, the greatest confidence seen.
\<close>

definition keepMax :: "(string \<rightharpoonup> jsnum) \<Rightarrow> string \<Rightarrow> jsnum option \<Rightarrow> (string \<rightharpoonup> jsnum)" where
  "keepMax conf pid c =
     (case c of
        None \<Rightarrow> conf
      | Some v \<Rightarrow>
          (case conf pid of
             None \<Rightarrow> conf(pid \<mapsto> v)
           | Some existing \<Rightarrow> if js_gt v existing then conf(pid \<mapsto> v) else conf))"

fun collectIds_decoupled ::
  "host \<Rightarrow> RawItem list \<Rightarrow> string list \<times> (string \<rightharpoonup> jsnum) \<Rightarrow> string list \<times> (string \<rightharpoonup> jsnum)" where
  "collectIds_decoupled h [] acc = acc"
| "collectIds_decoupled h (item # items) (uniquePhotoIds, photoIdConfidences) =
     (let pid = asString h (getField item ''photoId'')
      in if \<not> truthy pid then collectIds_decoupled h items (uniquePhotoIds, photoIdConfidences)
         else collectIds_decoupled h items
                (if the pid \<in> set uniquePhotoIds then uniquePhotoIds else uniquePhotoIds @ [the pid],
                 keepMax photoIdConfidences (the pid) (asNumber h (getField item ''confidence''))))"

text \<open>A \<open>Map\<close> built from a list of entries keeps, for a key, the last entry's value.\<close>

definition mapOfEntries :: "(string \<times> 'v) list \<Rightarrow> (string \<rightharpoonup> 'v)" where
  "mapOfEntries entries = map_of (rev entries)"

definition photoEntries_decoupled :: "host \<Rightarrow> RawItem list \<Rightarrow> (string \<times> PhotoRecord) list" where
  "photoEntries_decoupled h photoItems =
     concat (map (\<lambda>item. let pid = asString h (getField item ''photoId'')
                          in if \<not> truthy pid then [] else [(the pid, mapPhotoItem_decoupled h item)])
                 photoItems)"

definition logosForPhoto :: "host \<Rightarrow> RawItem list \<Rightarrow> string \<Rightarrow> error + LogoDetection list" where
  "logosForPhoto h mappingItems pid =
     mapM (mapLogoMapping h)
       (filter (\<lambda>item. asString h (getField item ''photoId'') = Some pid) mappingItems)"

definition withMatchConfidence :: "PhotoRecord \<Rightarrow> jsnum option \<Rightarrow> PhotoRecord" where
  "withMatchConfidence photo c =
     (case c of None \<Rightarrow> photo | Some v \<Rightarrow> photo\<lparr>matchConfidence := Some v\<rparr>)"

definition buildRecords_decoupled ::
  "string list \<Rightarrow> (string \<rightharpoonup> PhotoRecord) \<Rightarrow> (string \<times> LogoDetection list) list \<Rightarrow>
   (string \<rightharpoonup> jsnum) \<Rightarrow> PhotoRecord list" where
  "buildRecords_decoupled uniquePhotoIds photoMap photoLogos photoIdConfidences =
     concat (map (\<lambda>pid. case photoMap pid of
                          None \<Rightarrow> []
                        | Some photo \<Rightarrow>
                            [withMatchConfidence
                               (photo\<lparr>logos := (case mapOfEntries photoLogos pid of
                                                   None \<Rightarrow> [] | Some ls \<Rightarrow> ls)\<rparr>)
                               (photoIdConfidences pid)])
                 uniquePhotoIds)"

definition responsesFor :: "response \<Rightarrow> string \<Rightarrow> RawItem list" where
  "responsesFor r table =
     (case Responses r of
        None \<Rightarrow> []
      | Some m \<Rightarrow> (case map_of m table of None \<Rightarrow> [] | Some xs \<Rightarrow> xs))"

definition fetchPhotosByLogo_decoupled ::
  "host \<Rightarrow> services \<Rightarrow> string \<Rightarrow> world \<Rightarrow> (error + PhotoRecord list) \<times> world" where
  "fetchPhotosByLogo_decoupled h svc logoNameOrSlug w =
     (if \<not> truthy (getenv h ''DYNAMO_PHOTOS_TABLE'')
      then (Inl (Error ''DYNAMO_PHOTOS_TABLE not configured''), w)
      else if \<not> truthy (getenv h ''DYNAMO_PHOTO_LOGOS_TABLE'')
      then (Inl (Error ''DYNAMO_PHOTO_LOGOS_TABLE not configured''), w)
      else
        let photosTable = the (getenv h ''DYNAMO_PHOTOS_TABLE'');
            sl = normalizeLogoName logoNameOrSlug
        in (case send svc (QueryCommand (the (getenv h ''DYNAMO_PHOTO_LOGOS_TABLE''))
                             ''logoSlug'' (JStr sl)) w of
              (Inl e, w1) \<Rightarrow> (Inl e, w1)
            | (Inr r1, w1) \<Rightarrow>
                let mappingItems = itemsOrEmpty (Items r1)
                in if length mappingItems = 0 then (Inr [], w1)
                   else
                     let (uniquePhotoIds, photoIdConfidences) =
                           collectIds_decoupled h mappingItems ([], Map.empty)
                     in if length uniquePhotoIds = 0 then (Inr [], w1)
                        else
                          (case send svc (BatchGetCommand photosTable
                                  (map (\<lambda>pid. [(''photoId'', JStr pid)]) uniquePhotoIds)) w1 of
                             (Inl e, w2) \<Rightarrow> (Inl e, w2)
                           | (Inr r2, w2) \<Rightarrow>
                               let photoMap = mapOfEntries
                                     (photoEntries_decoupled h (responsesFor r2 photosTable))
                               in (case mapM (\<lambda>pid. case logosForPhoto h mappingItems pid of
                                                       Inl e \<Rightarrow> Inl e
                                                     | Inr ls \<Rightarrow> Inr (pid, ls))
                                          uniquePhotoIds of
                                     Inl e \<Rightarrow> (Inl e, w2)
                                   | Inr photoLogos \<Rightarrow>
                                       (Inr (buildRecords_decoupled uniquePhotoIds photoMap
                                               photoLogos photoIdConfidences), w2)))))"

subsection \<open>Mapping items to records, single table\<close>

definition orElse :: "'a option \<Rightarrow> 'a option \<Rightarrow> 'a option" where
  "orElse a b = (case a of None \<Rightarrow> b | Some v \<Rightarrow> Some v)"

definition mapPoint_single :: "host \<Rightarrow> jsval \<Rightarrow> error + Vertex" where
  "mapPoint_single h point =
     (case getProp point ''x'' of
        Inl e \<Rightarrow> Inl e
      | Inr px \<Rightarrow>
          (case getIndex point 0 ''0'' of
             Inl e \<Rightarrow> Inl e
           | Inr p0 \<Rightarrow>
               (case getProp point ''y'' of
                  Inl e \<Rightarrow> Inl e
                | Inr py \<Rightarrow>
                    (case getIndex point 1 ''1'' of
                       Inl e \<Rightarrow> Inl e
                     | Inr p1 \<Rightarrow>
                         Inr \<lparr>vx = numberOr0 (asNumber h (nullish px p0)),
                              vy = numberOr0 (asNumber h (nullish py p1))\<rparr>))))"

text \<open>
  One element of \<open>item.detections\<close>: \<open>None\<close> is the \<open>null\<close> the source returns for a
  detection without a name, which the following \<open>filter(Boolean)\<close> removes.
\<close>

definition mapDetection_single :: "host \<Rightarrow> jsval \<Rightarrow> error + LogoDetection option" where
  "mapDetection_single h logo =
     (case getProp logo ''name'' of
        Inl e \<Rightarrow> Inl e
      | Inr rawName \<Rightarrow>
          let nm = (case orElse (asString h rawName)
                           (asString h (case getProp logo ''displayName'' of Inr v \<Rightarrow> v | Inl e \<Rightarrow> JUndefined)) of
                      None \<Rightarrow> [] | Some s \<Rightarrow> s)
          in if nm = [] then Inr None
             else
               let get = (\<lambda>k. case getProp logo k of Inr v \<Rightarrow> v | Inl e \<Rightarrow> JUndefined);
                   detection = \<lparr>name = nm, slug = normalizeLogoName nm,
                                confidence = numberOr0 (asNumber h (nullish (get ''confidence'') (get ''score''))),
                                boundingPoly = None,
                                detectionIndex = asNumber h (get ''detectionIndex'')\<rparr>
               in (case get ''boundingPoly'' of
                     JArr points \<Rightarrow>
                       (case mapM (mapPoint_single h) points of
                          Inl e \<Rightarrow> Inl e
                        | Inr vs \<Rightarrow> Inr (Some (detection\<lparr>boundingPoly := Some vs\<rparr>)))
                   | _ \<Rightarrow> Inr (Some detection)))"

definition mapPhotoItem_single :: "host \<Rightarrow> RawItem \<Rightarrow> error + PhotoRecord" where
  "mapPhotoItem_single h item =
     (case (case getField item ''detections'' of
              JArr ds \<Rightarrow> mapM (mapDetection_single h) ds
            | _ \<Rightarrow> Inr []) of
        Inl e \<Rightarrow> Inl e
      | Inr detected \<Rightarrow>
          let key = asString h (getField item ''s3Key'');
              publicUrl = asString h (getField item ''publicUrl'')
          in Inr \<lparr>photoId = (case orElse (asString h (getField item ''SK''))
                                       (asString h (getField item ''photoId'')) of
                                None \<Rightarrow> [] | Some s \<Rightarrow> s),
                  imageUrl = resolvePublicUrl h publicUrl key,
                  s3Key = key,
                  logos = concat (map (\<lambda>d. case d of None \<Rightarrow> [] | Some l \<Rightarrow> [l]) detected),
                  createdAt = asString h (getField item ''createdAt''),
                  matchConfidence = None\<rparr>)"

subsection \<open>fetchAllPhotos and fetchPhotosByLogo, single table\<close>

definition fetchAllPhotos_single ::
  "host \<Rightarrow> services \<Rightarrow> world \<Rightarrow> (error + PhotoRecord list) \<times> world" where
  "fetchAllPhotos_single h svc w =
     (case getTableName h ''photos'' of
        Inl e \<Rightarrow> (Inl e, w)
      | Inr tableName \<Rightarrow>
          (case send svc (ScanCommand tableName) w of
             (Inl e, w1) \<Rightarrow> (Inl e, w1)
           | (Inr r, w1) \<Rightarrow>
               (case mapM (mapPhotoItem_single h) (itemsOrEmpty (Items r)) of
                  Inl e \<Rightarrow> (Inl e, w1)
                | Inr photos \<Rightarrow> (Inr (sort_js (comparePhotos h) photos), w1))))"

definition mappingPhotoId_single :: "host \<Rightarrow> RawItem \<Rightarrow> string option" where
  "mappingPhotoId_single h item =
     (let sortKey = asString h (getField item ''SK'')
      in orElse (asString h (getField item ''photoId''))
           (if truthy sortKey then Some (beforeFirstHash (the sortKey)) else None))"

fun collectIds_single ::
  "host \<Rightarrow> RawItem list \<Rightarrow> string list \<times> (string \<rightharpoonup> jsnum) \<Rightarrow> string list \<times> (string \<rightharpoonup> jsnum)" where
  "collectIds_single h [] acc = acc"
| "collectIds_single h (item # items) (uniquePhotoIds, photoIdConfidences) =
     (let pid = mappingPhotoId_single h item
      in if \<not> truthy pid then collectIds_single h items (uniquePhotoIds, photoIdConfidences)
         else collectIds_single h items
                (if the pid \<in> set uniquePhotoIds then uniquePhotoIds else uniquePhotoIds @ [the pid],
                 keepMax photoIdConfidences (the pid) (asNumber h (getField item ''confidence''))))"

fun photoEntries_single :: "host \<Rightarrow> RawItem list \<Rightarrow> error + (string \<times> PhotoRecord) list" where
  "photoEntries_single h [] = Inr []"
| "photoEntries_single h (item # items) =
     (let sortKey = asString h (getField item ''SK'')
      in case (if \<not> truthy sortKey then Inr []
               else (case mapPhotoItem_single h item of
                       Inl e \<Rightarrow> Inl e
                     | Inr photo \<Rightarrow> Inr [(the sortKey, photo)])) of
           Inl e \<Rightarrow> Inl e
         | Inr entry \<Rightarrow>
             (case photoEntries_single h items of
                Inl e \<Rightarrow> Inl e
              | Inr entries \<Rightarrow> Inr (entry @ entries)))"

definition buildRecords_single ::
  "string list \<Rightarrow> (string \<rightharpoonup> PhotoRecord) \<Rightarrow> (string \<rightharpoonup> jsnum) \<Rightarrow> PhotoRecord list" where
  "buildRecords_single uniquePhotoIds photoMap photoIdConfidences =
     concat (map (\<lambda>pid. case photoMap pid of
                          None \<Rightarrow> []
                        | Some photo \<Rightarrow> [withMatchConfidence photo (photoIdConfidences pid)])
                 uniquePhotoIds)"

definition fetchPhotosByLogo_single ::
  "host \<Rightarrow> services \<Rightarrow> string \<Rightarrow> world \<Rightarrow> (error + PhotoRecord list) \<times> world" where
  "fetchPhotosByLogo_single h svc logoNameOrSlug w =
     (case getTableName h ''photo-logos'' of
        Inl e \<Rightarrow> (Inl e, w)
      | Inr mappingTableName \<Rightarrow>
          let sl = normalizeLogoName logoNameOrSlug;
              partitionKey = ''LOGO#'' @ sl
          in (case send svc (QueryCommand mappingTableName ''PK'' (JStr partitionKey)) w of
                (Inl e, w1) \<Rightarrow> (Inl e, w1)
              | (Inr r1, w1) \<Rightarrow>
                  let mappings = itemsOrEmpty (Items r1)
                  in if length mappings = 0 then (Inr [], w1)
                     else
                       let (uniquePhotoIds, photoIdConfidences) =
                             collectIds_single h mappings ([], Map.empty)
                       in if length uniquePhotoIds = 0 then (Inr [], w1)
                          else
                            (case getTableName h ''photos'' of
                               Inl e \<Rightarrow> (Inl e, w1)
                             | Inr photoTableName \<Rightarrow>
                                 (case send svc (BatchGetCommand photoTableName
                                         (map (\<lambda>pid. [(''PK'', JStr ''PHOTO''), (''SK'', JStr pid)])
                                              uniquePhotoIds)) w1 of
                                    (Inl e, w2) \<Rightarrow> (Inl e, w2)
                                  | (Inr r2, w2) \<Rightarrow>
                                      (case photoEntries_single h (responsesFor r2 photoTableName) of
                                         Inl e \<Rightarrow> (Inl e, w2)
                                       | Inr entries \<Rightarrow>
                                           (Inr (buildRecords_single uniquePhotoIds
                                                   (mapOfEntries entries) photoIdConfidences), w2))))))"

subsection \<open>fetchAllLogos\<close>

record LogoSummary =
  summarySlug :: string
  summaryName :: string
  totalPhotos :: jsnum
  topConfidence :: "jsnum option"

record LogoSummary_single = LogoSummary +
  firstPhotoId :: "string option"
  firstPhotoUrl :: "string option"
  firstDetectionBounds :: "Vertex list option"

definition Number_js :: "host \<Rightarrow> jsval \<Rightarrow> jsnum" where
  "Number_js h v = (case v of JNum n \<Rightarrow> n | _ \<Rightarrow> toNumber h v)"

text \<open>
  The sign of the difference \<open>a - b\<close> of two numbers, \<open>None\<close> when it is NaN. The sort
  and the operator \<open>||\<close> only look at the sign of a difference.
\<close>

fun subSign :: "jsnum \<Rightarrow> jsnum \<Rightarrow> int option" where
  "subSign (Fin a) (Fin b) = Some (if a < b then - 1 else if a = b then 0 else 1)"
| "subSign NaN b = None"
| "subSign a NaN = None"
| "subSign PosInf PosInf = None"
| "subSign NegInf NegInf = None"
| "subSign PosInf b = Some 1"
| "subSign NegInf b = Some (- 1)"
| "subSign a PosInf = Some (- 1)"
| "subSign a NegInf = Some 1"

definition compareLogos ::
  "host \<Rightarrow> ('a LogoSummary_scheme) \<Rightarrow> ('a LogoSummary_scheme) \<Rightarrow> int option" where
  "compareLogos h a b =
     (case subSign (totalPhotos b) (totalPhotos a) of
        None \<Rightarrow> Some (localeCompare h (summaryName a) (summaryName b))
      | Some d \<Rightarrow> if d = 0 then Some (localeCompare h (summaryName a) (summaryName b)) else Some d)"

definition mapLogoSummary_decoupled :: "host \<Rightarrow> RawItem \<Rightarrow> LogoSummary" where
  "mapLogoSummary_decoupled h item =
     (let sl = (case asString h (getField item ''logoSlug'') of None \<Rightarrow> [] | Some s \<Rightarrow> s);
          nm = (case asString h (getField item ''displayName'') of None \<Rightarrow> sl | Some s \<Rightarrow> s)
      in \<lparr>summarySlug = sl,
          summaryName = nm,
          totalPhotos = Number_js h (nullish (getField item ''totalPhotos'') (JNum (Fin 0))),
          topConfidence = asNumber h (getField item ''topConfidence'')\<rparr>)"

definition fetchAllLogos_decoupled ::
  "host \<Rightarrow> services \<Rightarrow> world \<Rightarrow> (error + LogoSummary list) \<times> world" where
  "fetchAllLogos_decoupled h svc w =
     (if \<not> truthy (getenv h ''DYNAMO_LOGO_SUMMARIES_TABLE'')
      then (Inl (Error ''DYNAMO_LOGO_SUMMARIES_TABLE not configured''), w)
      else
        (case send svc (ScanCommand (the (getenv h ''DYNAMO_LOGO_SUMMARIES_TABLE''))) w of
           (Inl e, w1) \<Rightarrow> (Inl e, w1)
         | (Inr r, w1) \<Rightarrow>
             (Inr (sort_js (compareLogos h)
                     (map (mapLogoSummary_decoupled h) (itemsOrEmpty (Items r)))), w1)))"

definition mapLogoSummary_single :: "host \<Rightarrow> RawItem \<Rightarrow> error + LogoSummary_single" where
  "mapLogoSummary_single h item =
     (let fallbackName = (case asString h (getField item ''SK'') of None \<Rightarrow> [] | Some s \<Rightarrow> s);
          nm = (case asString h (getField item ''displayName'') of None \<Rightarrow> fallbackName | Some s \<Rightarrow> s);
          sl = normalizeLogoName (case asString h (getField item ''SK'') of None \<Rightarrow> nm | Some s \<Rightarrow> s)
      in case (case getField item ''firstDetectionBounds'' of
                 JArr points \<Rightarrow>
                   (case mapM (mapPoint_decoupled h) points of
                      Inl e \<Rightarrow> Inl e
                    | Inr vs \<Rightarrow> Inr (Some vs))
               | _ \<Rightarrow> Inr None) of
           Inl e \<Rightarrow> Inl e
         | Inr bounds \<Rightarrow>
             Inr \<lparr>summarySlug = sl,
                  summaryName = nm,
                  totalPhotos = Number_js h
                    (nullish (nullish (getField item ''totalPhotos'') (getField item ''count''))
                       (JNum (Fin 0))),
                  topConfidence = asNumber h (getField item ''topConfidence''),
                  firstPhotoId = asString h (getField item ''firstPhotoId''),
                  firstPhotoUrl = asString h (getField item ''firstPhotoUrl''),
                  firstDetectionBounds = bounds\<rparr>)"

definition fetchAllLogos_single ::
  "host \<Rightarrow> services \<Rightarrow> world \<Rightarrow> (error + LogoSummary_single list) \<times> world" where
  "fetchAllLogos_single h svc w =
     (case getTableName h ''logos'' of
        Inl e \<Rightarrow> (Inl e, w)
      | Inr tableName \<Rightarrow>
          (case send svc (ScanCommand tableName) w of
             (Inl e, w1) \<Rightarrow> (Inl e, w1)
           | (Inr r, w1) \<Rightarrow>
               (case mapM (mapLogoSummary_single h) (itemsOrEmpty (Items r)) of
                  Inl e \<Rightarrow> (Inl e, w1)
                | Inr ls \<Rightarrow> (Inr (sort_js (compareLogos h) ls), w1))))"

section \<open>The ingestion scripts (ingest-logos-decoupled.ts and ingest-logos.ts)\<close>

text \<open>
  The two scripts share \<open>chunk\<close>, \<open>keyToPhotoId\<close>, \<open>buildPublicUrl\<close>, the listing
  filter, \<open>detectLogosForKey\<close>, \<open>asBuffer\<close> and the retry loop of
  \<open>writeMappingBatch\<close>. \<open>chunk\<close> is only called with size 25.
\<close>

function chunk :: "'a list \<Rightarrow> nat \<Rightarrow> 'a list list" where
  "chunk items n =
     (if items = [] \<or> n = 0 then []
      else take n items # chunk (drop n items) n)"
  by pat_completeness auto
termination
  by (relation "measure (\<lambda>(items, n). length items)") auto

declare chunk.simps [simp del]

definition S3_PREFIX :: "host \<Rightarrow> string" where
  "S3_PREFIX h = (case getenv h ''S3_PREFIX'' of None \<Rightarrow> ''photos/'' | Some p \<Rightarrow> p)"

text \<open>
  \<open>/\.[^/.]+$/\<close> matches a final extension: the last dot of the string, when at least
  one character follows it and no slash does.
\<close>

definition removeExtension :: "string \<Rightarrow> string" where
  "removeExtension s =
     (let ext = takeWhile (\<lambda>c. c \<noteq> CHR ''.'' \<and> c \<noteq> CHR ''/'') (rev s);
          rest = drop (length ext) (rev s)
      in if ext \<noteq> [] \<and> rest \<noteq> [] \<and> hd rest = CHR ''.'' then rev (tl rest) else s)"

definition isIdChar :: "char \<Rightarrow> bool" where
  "isIdChar c \<longleftrightarrow>
     c \<in> set ''abcdefghijklmnopqrstuvwxyzABCDEFGHIJKLMNOPQRSTUVWXYZ0123456789_-''"

definition keyToPhotoId :: "host \<Rightarrow> string \<Rightarrow> string" where
  "keyToPhotoId h key =
     (let trimmed = (if startsWith key (S3_PREFIX h) then drop (length (S3_PREFIX h)) key else key);
          withoutExt = removeExtension trimmed
      in map (\<lambda>c. if isIdChar c then c else CHR ''-'') withoutExt)"

definition buildPublicUrl :: "host \<Rightarrow> string \<Rightarrow> string option" where
  "buildPublicUrl h key =
     (case getenv h ''S3_PUBLIC_BASE_URL'' of
        None \<Rightarrow> None
      | Some base \<Rightarrow>
          if dropTrailingSlash base = [] then None
          else Some (dropTrailingSlash base @ ''/'' @ key))"

text \<open>The filter of \<open>listPhotos\<close> on the keys of a listing: present, and not a folder.\<close>

definition listingFilter :: "string option \<Rightarrow> bool" where
  "listingFilter key \<longleftrightarrow> truthy key \<and> \<not> endsWith (the key) ''/''"

record IngestLogoDetection =
  dName :: string
  dSlug :: string
  dConfidence :: jsnum
  dBoundingPoly :: "Vertex list option"
  dDetectionIndex :: nat

definition asBuffer :: "body \<Rightarrow> error + nat list" where
  "asBuffer stream =
     (case stream of
        Buffer bytes \<Rightarrow> Inr bytes
      | Uint8Array bytes \<Rightarrow> Inr bytes
      | Transformable r \<Rightarrow> r
      | Readable chunks failure \<Rightarrow>
          (case failure of None \<Rightarrow> Inr (concat chunks) | Some e \<Rightarrow> Inl e))"

definition toDetection :: "annotation \<Rightarrow> nat \<Rightarrow> IngestLogoDetection" where
  "toDetection a i =
     (let nm = (case description a of None \<Rightarrow> [] | Some d \<Rightarrow> d)
      in \<lparr>dName = nm,
          dSlug = normalizeLogoName nm,
          dConfidence = (case score a of None \<Rightarrow> Fin 0 | Some s \<Rightarrow> s),
          dBoundingPoly =
            (case vertices a of
               None \<Rightarrow> None
             | Some vs \<Rightarrow>
                 Some (map (\<lambda>v. case v of
                                   None \<Rightarrow> \<lparr>vx = Fin 0, vy = Fin 0\<rparr>
                                 | Some (px, py) \<Rightarrow>
                                     \<lparr>vx = (case px of None \<Rightarrow> Fin 0 | Some n \<Rightarrow> n),
                                      vy = (case py of None \<Rightarrow> Fin 0 | Some n \<Rightarrow> n)\<rparr>) vs)),
          dDetectionIndex = i\<rparr>)"

definition detectLogosForKey ::
  "services \<Rightarrow> string \<Rightarrow> world \<Rightarrow> (error + IngestLogoDetection list) \<times> world" where
  "detectLogosForKey svc key w =
     (let w1 = w\<lparr>fetched := fetched w @ [key]\<rparr>
      in case s3GetObject svc key of
           Inl e \<Rightarrow> (Inl e, w1)
         | Inr None \<Rightarrow> (Inl (Error (''S3 object body missing for '' @ key)), w1)
         | Inr (Some stream) \<Rightarrow>
             (case asBuffer stream of
                Inl e \<Rightarrow> (Inl e, w1)
              | Inr bytes \<Rightarrow>
                  (case logoDetection svc bytes of
                     Inl e \<Rightarrow> (Inl e, w1)
                   | Inr result \<Rightarrow>
                       let annotations = (case result of None \<Rightarrow> [] | Some as \<Rightarrow> as);
                           w2 = writeConsole Log [T ''Detected '', N (length annotations),
                                                  T '' logos for '', T key]
                                  (writeConsole Log [T ''table''] w1);
                           kept = filter (\<lambda>a. truthy (description a)) annotations;
                           found = map (\<lambda>(a, i). toDetection a i) (zip kept [0..<length kept]);
                           w3 = foldl (\<lambda>v d. writeConsole Log
                                          [N (dDetectionIndex d), T '' detected logo: '', T (dName d)] v)
                                  w2 found
                       in (Inr found, w3))))"

subsection \<open>The retry loop of writeMappingBatch\<close>

text \<open>
  The \<open>do ... while\<close> loop may run forever, when every answer reports unprocessed items.
  The model runs it for at most \<open>fuel\<close> rounds: the result \<open>None\<close> says that the loop
  was still running when the fuel ran out, \<open>Some (Inl e)\<close> that a send threw, and
  \<open>Some (Inr ())\<close> that the function returned.
\<close>

definition unprocessedFor :: "response \<Rightarrow> string \<Rightarrow> MappingRequest list" where
  "unprocessedFor r tableName =
     (case UnprocessedItems r of
        None \<Rightarrow> []
      | Some m \<Rightarrow> (case map_of m tableName of None \<Rightarrow> [] | Some us \<Rightarrow> us))"

fun retryLoop ::
  "nat \<Rightarrow> services \<Rightarrow> string \<Rightarrow> MappingRequest list \<Rightarrow> world \<Rightarrow> (error + unit) option \<times> world" where
  "retryLoop 0 svc tableName requestItems w = (None, w)"
| "retryLoop (Suc fuel) svc tableName requestItems w =
     (case send svc (BatchWriteCommand tableName requestItems) w of
        (Inl e, w1) \<Rightarrow> (Some (Inl e), w1)
      | (Inr r, w1) \<Rightarrow>
          let unprocessed = unprocessedFor r tableName
          in if length unprocessed = 0 then (Some (Inr ()), w1)
             else
               let w2 = writeConsole Warn [T ''Retrying '', N (length unprocessed),
                                           T '' unprocessed mapping writes...''] w1
               in if length unprocessed > 0 then retryLoop fuel svc tableName unprocessed w2
                  else (Some (Inr ()), w2))"

definition writeMappingBatch ::
  "nat \<Rightarrow> services \<Rightarrow> MappingRequest list \<Rightarrow> string \<Rightarrow> world \<Rightarrow> (error + unit) option \<times> world" where
  "writeMappingBatch fuel svc batch tableName w =
     (if length batch = 0 then (Some (Inr ()), w)
      else retryLoop fuel svc tableName batch w)"

fun writeBatches ::
  "nat \<Rightarrow> services \<Rightarrow> MappingRequest list list \<Rightarrow> string \<Rightarrow> world \<Rightarrow> (error + unit) option \<times> world" where
  "writeBatches fuel svc [] tableName w = (Some (Inr ()), w)"
| "writeBatches fuel svc (batch # batches) tableName w =
     (case writeMappingBatch fuel svc batch tableName w of
        (Some (Inr u), w1) \<Rightarrow> writeBatches fuel svc batches tableName w1
      | (r, w1) \<Rightarrow> (r, w1))"

subsection \<open>Saving a photo\<close>

definition digitChar :: "nat \<Rightarrow> char" where
  "digitChar d = ''0123456789'' ! d"

fun showNat :: "nat \<Rightarrow> string" where
  "showNat n = (if n < 10 then [digitChar n] else showNat (n div 10) @ [digitChar (n mod 10)])"

declare showNat.simps [simp del]

definition padStart4 :: "string \<Rightarrow> string" where
  "padStart4 s = replicate (4 - length s) CHR ''0'' @ s"

definition jsOptStr :: "string option \<Rightarrow> jsval" where
  "jsOptStr s = (case s of None \<Rightarrow> JUndefined | Some t \<Rightarrow> JStr t)"

definition jsVertices :: "Vertex list \<Rightarrow> jsval" where
  "jsVertices vs = JArr (map (\<lambda>v. JObj [(''x'', JNum (vx v)), (''y'', JNum (vy v))]) vs)"

definition jsNat :: "nat \<Rightarrow> jsval" where
  "jsNat n = JNum (Fin (of_nat n))"

text \<open>
  The summaries per slug are kept in a \<open>Map\<close>, which iterates in insertion order:
  setting a key that is present keeps its place.
\<close>

fun mapSet :: "string \<Rightarrow> 'v \<Rightarrow> (string \<times> 'v) list \<Rightarrow> (string \<times> 'v) list" where
  "mapSet k v [] = [(k, v)]"
| "mapSet k v (p # ps) = (if fst p = k then (k, v) # ps else p # mapSet k v ps)"

fun summarise ::
  "IngestLogoDetection list \<Rightarrow> (string \<times> jsnum \<times> string) list \<Rightarrow> (string \<times> jsnum \<times> string) list" where
  "summarise [] slugSummaries = slugSummaries"
| "summarise (logo # rest) slugSummaries =
     summarise rest
       (case map_of slugSummaries (dSlug logo) of
          None \<Rightarrow> mapSet (dSlug logo) (dConfidence logo, dName logo) slugSummaries
        | Some (maxConfidence, nm) \<Rightarrow>
            if js_gt (dConfidence logo) maxConfidence
            then mapSet (dSlug logo) (dConfidence logo, dName logo) slugSummaries
            else slugSummaries)"

fun sendAll :: "services \<Rightarrow> command list \<Rightarrow> world \<Rightarrow> (error + unit) \<times> world" where
  "sendAll svc [] w = (Inr (), w)"
| "sendAll svc (cmd # cmds) w =
     (case send svc cmd w of
        (Inl e, w1) \<Rightarrow> (Inl e, w1)
      | (Inr r, w1) \<Rightarrow> sendAll svc cmds w1)"

definition mappingWrite_decoupled :: "string \<Rightarrow> string \<Rightarrow> IngestLogoDetection \<Rightarrow> MappingRequest" where
  "mappingWrite_decoupled pid now logo =
     (let sortKey = pid @ ''#'' @ padStart4 (showNat (dDetectionIndex logo));
          item = [(''logoSlug'', JStr (dSlug logo)),
                  (''sortKey'', JStr sortKey),
                  (''photoId'', JStr pid),
                  (''logoName'', JStr (dName logo)),
                  (''confidence'', JNum (dConfidence logo)),
                  (''detectionIndex'', jsNat (dDetectionIndex logo)),
                  (''createdAt'', JStr now)]
      in PutRequest (case dBoundingPoly logo of
                       None \<Rightarrow> item
                     | Some vs \<Rightarrow> item @ [(''boundingPoly'', jsVertices vs)]))"

definition summaryUpdate_decoupled :: "string \<Rightarrow> string \<Rightarrow> (string \<times> jsnum \<times> string) \<Rightarrow> command" where
  "summaryUpdate_decoupled tableName now entry =
     (case entry of
        (sl, maxConfidence, nm) \<Rightarrow>
          UpdateCommand tableName [(''logoSlug'', JStr sl)]
            ''SET displayName = if_not_exists(displayName, :name), topConfidence = if_not_exists(topConfidence, :confidence), firstDetectedAt = if_not_exists(firstDetectedAt, :now), lastDetectedAt = :now ADD totalPhotos :inc''
            [('':name'', JStr nm), ('':confidence'', JNum maxConfidence),
             ('':now'', JStr now), ('':inc'', JNum (Fin 1))]
            [])"

text \<open>
  The decoupled script reads its three table names when it is loaded and refuses to
  start without them: \<open>savePhotoDecoupled\<close> takes them as given.
\<close>

record tables =
  PHOTOS_TABLE :: string
  PHOTO_LOGOS_TABLE :: string
  LOGO_SUMMARIES_TABLE :: string

definition savePhotoDecoupled ::
  "nat \<Rightarrow> host \<Rightarrow> tables \<Rightarrow> services \<Rightarrow> string \<Rightarrow> IngestLogoDetection list \<Rightarrow> world \<Rightarrow>
   (error + unit) option \<times> world" where
  "savePhotoDecoupled fuel h tn svc key found w =
     (let pid = keyToPhotoId h key;
          publicUrl = buildPublicUrl h key;
          now = isoNow svc (length (sent w))
      in case send svc (PutCommand (PHOTOS_TABLE tn)
                 [(''photoId'', JStr pid), (''s3Key'', JStr key),
                  (''publicUrl'', jsOptStr publicUrl),
                  (''createdAt'', JStr now), (''updatedAt'', JStr now)]) w of
           (Inl e, w1) \<Rightarrow> (Some (Inl e), w1)
         | (Inr r, w1) \<Rightarrow>
             if length found = 0 then (Some (Inr ()), w1)
             else
               (case writeBatches fuel svc
                       (chunk (map (mappingWrite_decoupled pid now) found) 25)
                       (PHOTO_LOGOS_TABLE tn) w1 of
                  (Some (Inr u), w2) \<Rightarrow>
                    (case sendAll svc
                            (map (summaryUpdate_decoupled (LOGO_SUMMARIES_TABLE tn) now)
                                 (summarise found [])) w2 of
                       (r2, w3) \<Rightarrow> (Some r2, w3))
                | (r1, w2) \<Rightarrow> (r1, w2)))"

definition jsDetection :: "IngestLogoDetection \<Rightarrow> jsval" where
  "jsDetection logo =
     JObj [(''name'', JStr (dName logo)),
           (''slug'', JStr (dSlug logo)),
           (''confidence'', JNum (dConfidence logo)),
           (''boundingPoly'', (case dBoundingPoly logo of None \<Rightarrow> JUndefined | Some vs \<Rightarrow> jsVertices vs)),
           (''detectionIndex'', jsNat (dDetectionIndex logo))]"

definition mappingWrite_single :: "string \<Rightarrow> string option \<Rightarrow> IngestLogoDetection \<Rightarrow> MappingRequest" where
  "mappingWrite_single pid publicUrl logo =
     (let sortKey = pid @ ''#'' @ padStart4 (showNat (dDetectionIndex logo));
          item = [(''PK'', JStr (''LOGO#'' @ dSlug logo)),
                  (''SK'', JStr sortKey),
                  (''_type'', JStr ''logo#photo''),
                  (''photoId'', JStr pid),
                  (''confidence'', JNum (dConfidence logo)),
                  (''detectionIndex'', jsNat (dDetectionIndex logo))]
      in PutRequest (if truthy publicUrl then item @ [(''publicUrl'', JStr (the publicUrl))]
                     else item))"

definition summaryUpdate_single :: "string \<Rightarrow> (string \<times> jsnum \<times> string) \<Rightarrow> command" where
  "summaryUpdate_single tableName entry =
     (case entry of
        (sl, maxConfidence, nm) \<Rightarrow>
          UpdateCommand tableName [(''PK'', JStr ''LOGO''), (''SK'', JStr sl)]
            ''SET displayName = if_not_exists(displayName, :name), topConfidence = if_not_exists(topConfidence, :confidence) ADD #total :inc''
            [('':name'', JStr nm), ('':confidence'', JNum maxConfidence), ('':inc'', JNum (Fin 1))]
            [(''#total'', ''totalPhotos'')])"

definition savePhoto ::
  "nat \<Rightarrow> host \<Rightarrow> string \<Rightarrow> services \<Rightarrow> string \<Rightarrow> IngestLogoDetection list \<Rightarrow> world \<Rightarrow>
   (error + unit) option \<times> world" where
  "savePhoto fuel h tableName svc key found w =
     (let pid = keyToPhotoId h key;
          publicUrl = buildPublicUrl h key;
          now = isoNow svc (length (sent w))
      in case send svc (PutCommand tableName
                 [(''PK'', JStr ''PHOTO''), (''SK'', JStr pid), (''_type'', JStr ''photo''),
                  (''s3Key'', JStr key), (''publicUrl'', jsOptStr publicUrl),
                  (''detectedLogos'', JArr (map jsDetection found)),
                  (''createdAt'', JStr now)]) w of
           (Inl e, w1) \<Rightarrow> (Some (Inl e), w1)
         | (Inr r, w1) \<Rightarrow>
             if length found = 0 then (Some (Inr ()), w1)
             else
               (case writeBatches fuel svc
                       (chunk (map (mappingWrite_single pid publicUrl) found) 25) tableName w1 of
                  (Some (Inr u), w2) \<Rightarrow>
                    (case sendAll svc (map (summaryUpdate_single tableName) (summarise found [])) w2 of
                       (r2, w3) \<Rightarrow> (Some r2, w3))
                | (r1, w2) \<Rightarrow> (r1, w2)))"

subsection \<open>The main loop\<close>

text \<open>
  \<open>main\<close> lists the keys and runs the loop below over them; the loop takes the keys
  that \<open>listPhotos\<close> returned and the function that saves one photo.
\<close>

fun processKeys ::
  "(string \<Rightarrow> IngestLogoDetection list \<Rightarrow> world \<Rightarrow> (error + unit) option \<times> world) \<Rightarrow>
   services \<Rightarrow> string list \<Rightarrow> world \<Rightarrow> (error + unit) option \<times> world" where
  "processKeys save svc [] w = (Some (Inr ()), w)"
| "processKeys save svc (key # keys) w =
     (let w1 = writeConsole Info [T ''Processing '', T key, T ''...''] w
      in case detectLogosForKey svc key w1 of
           (Inl e, w2) \<Rightarrow>
             processKeys save svc keys (writeConsole Err [T ''Failed to process '', T key, E e] w2)
         | (Inr found, w2) \<Rightarrow>
             (case save key found w2 of
                (None, w3) \<Rightarrow> (None, w3)
              | (Some (Inl e), w3) \<Rightarrow>
                  processKeys save svc keys
                    (writeConsole Err [T ''Failed to process '', T key, E e] w3)
              | (Some (Inr u), w3) \<Rightarrow>
                  processKeys save svc keys
                    (writeConsole Info [T ''Stored '', N (length found), T '' logos for '', T key] w3)))"

definition main ::
  "(string \<Rightarrow> IngestLogoDetection list \<Rightarrow> world \<Rightarrow> (error + unit) option \<times> world) \<Rightarrow>
   services \<Rightarrow> error + string list \<Rightarrow> world \<Rightarrow> (error + unit) option \<times> world" where
  "main save svc listed w =
     (let w0 = writeConsole Info [T ''Listing photos from S3...''] w
      in case listed of
           Inl e \<Rightarrow> (Some (Inl e), w0)
         | Inr keys \<Rightarrow>
             (case processKeys save svc keys
                     (writeConsole Info [T ''Found '', N (length keys), T '' objects to process.''] w0) of
                (Some r, w1) \<Rightarrow> (Some r, writeConsole Info [T ''Ingestion complete.''] w1)
              | (None, w1) \<Rightarrow> (None, w1)))"

definition main_decoupled ::
  "nat \<Rightarrow> host \<Rightarrow> tables \<Rightarrow> services \<Rightarrow> error + string list \<Rightarrow> world \<Rightarrow> (error + unit) option \<times> world" where
  "main_decoupled fuel h tn svc listed w = main (savePhotoDecoupled fuel h tn svc) svc listed w"

definition main_single ::
  "nat \<Rightarrow> host \<Rightarrow> string \<Rightarrow> services \<Rightarrow> error + string list \<Rightarrow> world \<Rightarrow> (error + unit) option \<times> world" where
  "main_single fuel h tableName svc listed w = main (savePhoto fuel h tableName svc) svc listed w"

section \<open>The API routes\<close>

text \<open>
  A route handler awaits a repository function inside \<open>try\<close> and answers with
  \<open>NextResponse.json\<close>. The handlers take the repository function they import, so
  that the same definitions read for either repository module; \<open>GET_photosByLogo\<close>
  also takes the outcome of awaiting \<open>context.params\<close>.
\<close>

datatype 'a payload =
    Data 'a
  | LogoData string 'a
  | ErrorBody string

record 'a httpResponse =
  status :: nat
  payload :: "'a payload"

definition GET_photos ::
  "(world \<Rightarrow> (error + 'a) \<times> world) \<Rightarrow> world \<Rightarrow> 'a httpResponse \<times> world" where
  "GET_photos fetchAllPhotos w =
     (case fetchAllPhotos w of
        (Inr photos, w1) \<Rightarrow> (\<lparr>status = 200, payload = Data photos\<rparr>, w1)
      | (Inl e, w1) \<Rightarrow>
          (\<lparr>status = 500, payload = ErrorBody ''Unable to load photos''\<rparr>,
           writeConsole Err [T ''Failed to load photos'', E e] w1))"

definition GET_logos ::
  "(world \<Rightarrow> (error + 'a) \<times> world) \<Rightarrow> world \<Rightarrow> 'a httpResponse \<times> world" where
  "GET_logos fetchAllLogos w =
     (case fetchAllLogos w of
        (Inr ls, w1) \<Rightarrow> (\<lparr>status = 200, payload = Data ls\<rparr>, w1)
      | (Inl e, w1) \<Rightarrow>
          (\<lparr>status = 500, payload = ErrorBody ''Unable to load logos''\<rparr>,
           writeConsole Err [T ''Failed to load logos'', E e] w1))"

definition GET_photosByLogo ::
  "(string \<Rightarrow> world \<Rightarrow> (error + 'a) \<times> world) \<Rightarrow> error + string option \<Rightarrow> world \<Rightarrow>
   'a httpResponse \<times> world" where
  "GET_photosByLogo fetchPhotosByLogo params w =
     (case params of
        Inl e \<Rightarrow>
          (\<lparr>status = 500, payload = ErrorBody ''Unable to load photos for logo''\<rparr>,
           writeConsole Err [T ''Failed to load photos by logo'', E e] w)
      | Inr logoParam \<Rightarrow>
          if \<not> truthy logoParam
          then (\<lparr>status = 400, payload = ErrorBody ''Logo name is required''\<rparr>, w)
          else
            let normalized = normalizeLogoName (the logoParam)
            in (case fetchPhotosByLogo normalized w of
                  (Inr photos, w1) \<Rightarrow> (\<lparr>status = 200, payload = LogoData normalized photos\<rparr>, w1)
                | (Inl e, w1) \<Rightarrow>
                    (\<lparr>status = 500, payload = ErrorBody ''Unable to load photos for logo''\<rparr>,
                     writeConsole Err [T ''Failed to load photos by logo'', E e] w1)))"

section \<open>A table server and example inputs\<close>

text \<open>
  A database that holds fixed tables and answers the read commands from them: a scan
  with all items of the table, a query with the items whose key attribute has the value
  asked for, a batch get with the items that match one of the keys. Writes are accepted
  and leave nothing unprocessed.
\<close>

definition matchesKey :: "RawItem \<Rightarrow> RawItem \<Rightarrow> bool" where
  "matchesKey item key = list_all (\<lambda>(k, v). getField item k = v) key"

definition tableServer :: "(string \<Rightarrow> RawItem list) \<Rightarrow> nat \<Rightarrow> command \<Rightarrow> error + response" where
  "tableServer tbl n cmd =
     (case cmd of
        ScanCommand t \<Rightarrow> Inr (emptyResponse\<lparr>Items := Some (tbl t)\<rparr>)
      | QueryCommand t a v \<Rightarrow>
          Inr (emptyResponse\<lparr>Items := Some (filter (\<lambda>item. getField item a = v) (tbl t))\<rparr>)
      | BatchGetCommand t keys \<Rightarrow>
          Inr (emptyResponse\<lparr>Responses :=
                 Some [(t, filter (\<lambda>item. list_ex (matchesKey item) keys) (tbl t))]\<rparr>)
      | _ \<Rightarrow> Inr emptyResponse)"

text \<open>
  The example host answers the conversions on the values the examples use: the two
  dates below, and \<open>localeCompare\<close> on lower-case words.
\<close>

fun compareCodes :: "string \<Rightarrow> string \<Rightarrow> int" where
  "compareCodes [] [] = 0"
| "compareCodes [] (b # bs) = - 1"
| "compareCodes (a # as) [] = 1"
| "compareCodes (a # as) (b # bs) =
     (if (of_char a :: nat) < of_char b then - 1
      else if (of_char b :: nat) < of_char a then 1
      else compareCodes as bs)"

definition exampleHost :: host where
  "exampleHost =
     \<lparr>getenv = map_of
        [(''DYNAMO_PHOTOS_TABLE'', ''photos''),
         (''DYNAMO_PHOTO_LOGOS_TABLE'', ''photo-logos''),
         (''DYNAMO_LOGO_SUMMARIES_TABLE'', ''logo-summaries''),
         (''DYNAMO_TABLE_PHOTOS'', ''index''),
         (''DYNAMO_TABLE_LOGOS'', ''index''),
         (''DYNAMO_TABLE_PHOTO_LOGOS'', ''index'')],
      toNumber = (\<lambda>v. case v of JNull \<Rightarrow> Fin 0 | _ \<Rightarrow> NaN),
      numberToString = (\<lambda>n. ''NaN''),
      bigintToString = (\<lambda>i. ''0''),
      dateGetTime = map_of
        [(''2020-01-01T00:00:00.000Z'', 1577836800000),
         (''2021-01-01T00:00:00.000Z'', 1609459200000)],
      localeCompare = compareCodes\<rparr>"

definition exampleServices :: "(nat \<Rightarrow> command \<Rightarrow> error + response) \<Rightarrow> services" where
  "exampleServices db =
     \<lparr>dynamo = db,
      s3GetObject = (\<lambda>key. if key = ''photos/broken.jpg'' then Inl (ServiceError ''NoSuchKey'')
                            else Inr (Some (Buffer [1, 2, 3]))),
      logoDetection = (\<lambda>bytes. Inr (Some [\<lparr>description = Some ''Nike'', score = Some (Fin (9 / 10)),
                                              vertices = None\<rparr>])),
      isoNow = (\<lambda>n. ''2021-01-01T00:00:00.000Z'')\<rparr>"

definition world0 :: world where
  "world0 = \<lparr>sent = [], fetched = [], console = []\<rparr>"

text \<open>
  Decoupled tables: two photos; Nike is detected twice in \<open>p2\<close> and once in \<open>p1\<close>, and
  one mapping item names a photo that the photos table does not hold.
\<close>

definition exampleTables :: "string \<Rightarrow> RawItem list" where
  "exampleTables t =
     (if t = ''photos'' then
        [[(''photoId'', JStr ''p1''), (''s3Key'', JStr ''photos/p1.jpg''),
          (''createdAt'', JStr ''2020-01-01T00:00:00.000Z'')],
         [(''photoId'', JStr ''p2''), (''s3Key'', JStr ''photos/p2.jpg''),
          (''createdAt'', JStr ''2021-01-01T00:00:00.000Z'')]]
      else if t = ''photo-logos'' then
        [[(''logoSlug'', JStr ''nike''), (''sortKey'', JStr ''p2#0000''), (''photoId'', JStr ''p2''),
          (''logoName'', JStr ''Nike''), (''confidence'', JNum (Fin (7 / 10)))],
         [(''logoSlug'', JStr ''nike''), (''sortKey'', JStr ''p1#0000''), (''photoId'', JStr ''p1''),
          (''logoName'', JStr ''Nike''), (''confidence'', JNum (Fin (8 / 10)))],
         [(''logoSlug'', JStr ''nike''), (''sortKey'', JStr ''p2#0001''), (''photoId'', JStr ''p2''),
          (''logoName'', JStr ''Nike''), (''confidence'', JNum (Fin (9 / 10)))],
         [(''logoSlug'', JStr ''nike''), (''sortKey'', JStr ''gone#0000''), (''photoId'', JStr ''gone''),
          (''logoName'', JStr ''Nike''), (''confidence'', JNum (Fin 1))],
         [(''logoSlug'', JStr ''adidas''), (''sortKey'', JStr ''p1#0001''), (''photoId'', JStr ''p1''),
          (''logoName'', JStr ''Adidas''), (''confidence'', JNum (Fin (5 / 10)))]]
      else if t = ''index'' then
        [[(''PK'', JStr ''PHOTO''), (''SK'', JStr ''p1''), (''s3Key'', JStr ''photos/p1.jpg''),
          (''createdAt'', JStr ''2020-01-01T00:00:00.000Z'')],
         [(''PK'', JStr ''PHOTO''), (''SK'', JStr ''p2''), (''s3Key'', JStr ''photos/p2.jpg''),
          (''createdAt'', JStr ''2021-01-01T00:00:00.000Z'')],
         [(''PK'', JStr ''LOGO#nike''), (''SK'', JStr ''p2#0000''),
          (''confidence'', JNum (Fin (7 / 10)))],
         [(''PK'', JStr ''LOGO#nike''), (''SK'', JStr ''p1#0000''), (''photoId'', JStr ''p1''),
          (''confidence'', JNum (Fin (8 / 10)))],
         [(''PK'', JStr ''LOGO#nike''), (''SK'', JStr ''p2#0001''), (''photoId'', JStr ''p2''),
          (''confidence'', JNum (Fin (9 / 10)))]]
      else [])"

definition nikeLogo :: "rat \<Rightarrow> LogoDetection" where
  "nikeLogo c = \<lparr>name = ''Nike'', slug = ''nike'', confidence = Fin c,
                 boundingPoly = None, detectionIndex = None\<rparr>"

definition examplePhoto :: "string \<Rightarrow> string \<Rightarrow> LogoDetection list \<Rightarrow> jsnum option \<Rightarrow> PhotoRecord" where
  "examplePhoto pid created ls c =
     \<lparr>photoId = pid, imageUrl = None, s3Key = Some (''photos/'' @ pid @ ''.jpg''), logos = ls,
      createdAt = Some created, matchConfidence = c\<rparr>"

text \<open>Three photos, the second without \<open>createdAt\<close>, and no mapping items.\<close>

definition undatedTables :: "string \<Rightarrow> RawItem list" where
  "undatedTables t =
     (if t = ''photos'' \<or> t = ''index'' then
        [[(''photoId'', JStr ''a''), (''SK'', JStr ''a''), (''s3Key'', JStr ''photos/a.jpg''),
          (''createdAt'', JStr ''2020-01-01T00:00:00.000Z'')],
         [(''photoId'', JStr ''b''), (''SK'', JStr ''b''), (''s3Key'', JStr ''photos/b.jpg'')],
         [(''photoId'', JStr ''c''), (''SK'', JStr ''c''), (''s3Key'', JStr ''photos/c.jpg''),
          (''createdAt'', JStr ''2021-01-01T00:00:00.000Z'')]]
      else [])"

definition undatedPhoto :: "string \<Rightarrow> PhotoRecord" where
  "undatedPhoto pid =
     \<lparr>photoId = pid, imageUrl = None, s3Key = Some (''photos/'' @ pid @ ''.jpg''), logos = [],
      createdAt = None, matchConfidence = None\<rparr>"

text \<open>A vision service that reports a score that is not a number.\<close>

definition nanServices :: services where
  "nanServices =
     \<lparr>dynamo = tableServer exampleTables,
      s3GetObject = (\<lambda>key. Inr (Some (Buffer [1, 2, 3]))),
      logoDetection = (\<lambda>bytes. Inr (Some [\<lparr>description = Some ''Nike'', score = Some NaN,
                                              vertices = None\<rparr>])),
      isoNow = (\<lambda>n. ''2021-01-01T00:00:00.000Z'')\<rparr>"

definition nikeDetection :: "jsnum \<Rightarrow> IngestLogoDetection" where
  "nikeDetection c = \<lparr>dName = ''Nike'', dSlug = ''nike'', dConfidence = c,
                       dBoundingPoly = None, dDetectionIndex = 0\<rparr>"

text \<open>
  A database that leaves all but the first request of the first batch write
  unprocessed, and accepts everything afterwards.
\<close>

definition flakyServer :: "nat \<Rightarrow> command \<Rightarrow> error + response" where
  "flakyServer n cmd =
     (case cmd of
        BatchWriteCommand t reqs \<Rightarrow>
          if n = 0 then Inr (emptyResponse\<lparr>UnprocessedItems := Some [(t, drop 1 reqs)]\<rparr>)
          else Inr emptyResponse
      | _ \<Rightarrow> Inr emptyResponse)"

definition request1 :: MappingRequest where
  "request1 = PutRequest [(''logoSlug'', JStr ''nike''), (''sortKey'', JStr ''p1#0000'')]"

definition request2 :: MappingRequest where
  "request2 = PutRequest [(''logoSlug'', JStr ''adidas''), (''sortKey'', JStr ''p1#0001'')]"

text \<open>
  A database that rejects every command, a host without environment variables, the table
  names of the decoupled script, and two keys of which the first cannot be fetched.
\<close>

definition downServer :: "nat \<Rightarrow> command \<Rightarrow> error + response" where
  "downServer n cmd = Inl (ServiceError ''unreachable'')"

definition bareHost :: host where
  "bareHost = exampleHost\<lparr>getenv := (\<lambda>k. None)\<rparr>"

definition exampleTableNames :: tables where
  "exampleTableNames = \<lparr>PHOTOS_TABLE = ''photos'', PHOTO_LOGOS_TABLE = ''photo-logos'',
                         LOGO_SUMMARIES_TABLE = ''logo-summaries''\<rparr>"

definition exampleKeys :: "string list" where
  "exampleKeys = [''photos/broken.jpg'', ''photos/p1.jpg'']"

text \<open>
  A database that rejects the first command when it is a put and accepts everything else,
  two keys that can both be fetched, and the kind of a command.
\<close>

definition rejectFirstPut :: "nat \<Rightarrow> command \<Rightarrow> error + response" where
  "rejectFirstPut n cmd =
     (case cmd of
        PutCommand t item \<Rightarrow> if n = 0 then Inl (ServiceError ''Throttled'') else Inr emptyResponse
      | _ \<Rightarrow> Inr emptyResponse)"

definition laterKeys :: "string list" where
  "laterKeys = [''photos/p1.jpg'', ''photos/p2.jpg'']"

definition commandKind :: "command \<Rightarrow> string" where
  "commandKind c =
     (case c of
        ScanCommand t \<Rightarrow> ''scan''
      | QueryCommand t a v \<Rightarrow> ''query''
      | BatchGetCommand t ks \<Rightarrow> ''batch get''
      | PutCommand t i \<Rightarrow> ''put''
      | BatchWriteCommand t r \<Rightarrow> ''batch put''
      | UpdateCommand t k e v n \<Rightarrow> ''update''
      | DeleteCommand t k \<Rightarrow> ''delete'')"

section \<open>Predicates used in the statements\<close>

definition slugChar :: "char \<Rightarrow> bool" where
  "slugChar c \<longleftrightarrow> isLowerAlnum c \<or> isDash c"

definition noDoubleDash :: "string \<Rightarrow> bool" where
  "noDoubleDash s = successively (\<lambda>a b. \<not> (isDash a \<and> isDash b)) s"

definition isSlug :: "string \<Rightarrow> bool" where
  "isSlug s \<longleftrightarrow> list_all slugChar s \<and> noDoubleDash s \<and>
     (s \<noteq> [] \<longrightarrow> \<not> isDash (hd s) \<and> \<not> isDash (last s))"


text \<open>
  The photo ids named by a list of mapping items (those the loop does not skip), a list
  without its repeated elements in the order of first occurrence, and the greatest finite
  confidence among the mapping items of one photo id.
\<close>

definition mappingPhotoIds :: "(RawItem \<Rightarrow> string option) \<Rightarrow> RawItem list \<Rightarrow> string list" where
  "mappingPhotoIds f items = map the (filter truthy (map f items))"

definition firstOccurrences :: "'a list \<Rightarrow> 'a list" where
  "firstOccurrences xs = rev (remdups (rev xs))"

definition finiteConfidences :: "(RawItem \<Rightarrow> string option) \<Rightarrow> host \<Rightarrow> RawItem list \<Rightarrow> string \<Rightarrow> rat list" where
  "finiteConfidences f h items pid =
     concat (map (\<lambda>item. if f item = Some pid
                          then (case asNumber h (getField item ''confidence'') of
                                  Some (Fin r) \<Rightarrow> [r] | _ \<Rightarrow> [])
                          else []) items)"

definition maxConfidence :: "(RawItem \<Rightarrow> string option) \<Rightarrow> host \<Rightarrow> RawItem list \<Rightarrow> string \<Rightarrow> jsnum option" where
  "maxConfidence f h items pid =
     (case finiteConfidences f h items pid of
        [] \<Rightarrow> None
      | r # rs \<Rightarrow> Some (Fin (Max (set (r # rs)))))"

definition photoIdOf_decoupled :: "host \<Rightarrow> RawItem \<Rightarrow> string option" where
  "photoIdOf_decoupled h item = asString h (getField item ''photoId'')"

text \<open>The items the database returned for the query of \<open>fetchPhotosByLogo\<close>.\<close>

definition queried :: "services \<Rightarrow> world \<Rightarrow> string \<Rightarrow> string \<Rightarrow> jsval \<Rightarrow> RawItem list" where
  "queried svc w tableName attr v =
     (case dynamo svc (length (sent w)) (QueryCommand tableName attr v) of
        Inl e \<Rightarrow> []
      | Inr r \<Rightarrow> itemsOrEmpty (Items r))"


text \<open>
  What claim C9 says of a result built from the mapping items: no photo id twice, the
  ids in the order of their first occurrence among the mapping items, and each match
  confidence the greatest finite confidence of the photo's mapping items (absent when
  there is none).
\<close>

definition dedupedWithMax ::
  "(RawItem \<Rightarrow> string option) \<Rightarrow> host \<Rightarrow> RawItem list \<Rightarrow> PhotoRecord list \<Rightarrow> bool" where
  "dedupedWithMax f h items res \<longleftrightarrow>
     distinct (map photoId res) \<and>
     map photoId res =
       filter (\<lambda>pid. pid \<in> set (map photoId res)) (firstOccurrences (mappingPhotoIds f items)) \<and>
     list_all (\<lambda>p. matchConfidence p = maxConfidence f h items (photoId p)) res"


text \<open>
  What claim C1 says of a result: every photo record has, among the items of the mapping
  table whose key attribute equals the value queried, one that names its photo id.
\<close>

definition mappedInTable ::
  "RawItem list \<Rightarrow> string \<Rightarrow> jsval \<Rightarrow> (RawItem \<Rightarrow> string option) \<Rightarrow> PhotoRecord list \<Rightarrow> bool" where
  "mappedInTable tbl attr v f res \<longleftrightarrow>
     list_all (\<lambda>p. list_ex (\<lambda>m. getField m attr = v \<and> f m = Some (photoId p)) tbl) res"

text \<open>
  The creation time of a photo record as the comparator reads it (\<open>None\<close> when
  \<open>createdAt\<close> is missing, empty or not a date), and claim C2's order on adjacent
  photos: the earlier one's creation time is not older than the later one's.
\<close>

definition createdTime :: "host \<Rightarrow> PhotoRecord \<Rightarrow> int option" where
  "createdTime h p = (if truthy (createdAt p) then dateGetTime h (the (createdAt p)) else None)"

definition dated :: "host \<Rightarrow> PhotoRecord \<Rightarrow> bool" where
  "dated h p \<longleftrightarrow> createdTime h p \<noteq> None"

definition notOlder :: "host \<Rightarrow> PhotoRecord \<Rightarrow> PhotoRecord \<Rightarrow> bool" where
  "notOlder h a b =
     (case (createdTime h a, createdTime h b) of
        (Some ta, Some tb) \<Rightarrow> tb \<le> ta
      | _ \<Rightarrow> False)"

definition sortedByCreatedAtDesc :: "host \<Rightarrow> PhotoRecord list \<Rightarrow> bool" where
  "sortedByCreatedAtDesc h res = successively (notOlder h) res"

text \<open>The key without the prefix, as \<open>keyToPhotoId\<close> computes it first.\<close>

definition trimmedKey :: "host \<Rightarrow> string \<Rightarrow> string" where
  "trimmedKey h key =
     (if startsWith key (S3_PREFIX h) then drop (length (S3_PREFIX h)) key else key)"

text \<open>
  A name that is nothing but an extension: a dot followed by one or more characters, none
  of them a dot or a slash. The pattern of \<open>keyToPhotoId\<close> removes such a name whole.
\<close>

definition onlyExtension :: "string \<Rightarrow> bool" where
  "onlyExtension t =
     (case t of
        [] \<Rightarrow> False
      | c # ext \<Rightarrow> c = CHR ''.'' \<and> ext \<noteq> [] \<and> list_all (\<lambda>c. c \<noteq> CHR ''.'' \<and> c \<noteq> CHR ''/'') ext)"

text \<open>
  The items that the database returns for the scan with which \<open>fetchAllPhotos\<close> begins,
  and an item that holds a key attribute as the key schema of a table requires it: as a
  string that is not empty (\<open>photoId\<close> in the photos table, \<open>SK\<close> in the single table).
\<close>

definition scanned :: "services \<Rightarrow> world \<Rightarrow> string \<Rightarrow> RawItem list" where
  "scanned svc w tableName =
     (case dynamo svc (length (sent w)) (ScanCommand tableName) of
        Inl e \<Rightarrow> []
      | Inr r \<Rightarrow> itemsOrEmpty (Items r))"

definition holdsKey :: "string \<Rightarrow> RawItem \<Rightarrow> bool" where
  "holdsKey attr item = (case getField item attr of JStr s \<Rightarrow> s \<noteq> [] | _ \<Rightarrow> False)"

text \<open>A record all of whose confidences are finite numbers.\<close>

definition finiteLogos :: "PhotoRecord \<Rightarrow> bool" where
  "finiteLogos p = list_all (\<lambda>l. isFinite (confidence l)) (logos p)"

definition finiteMatch :: "PhotoRecord \<Rightarrow> bool" where
  "finiteMatch p = (case matchConfidence p of None \<Rightarrow> True | Some c \<Rightarrow> isFinite c)"

definition finiteScore :: "annotation \<Rightarrow> bool" where
  "finiteScore a = (case score a of None \<Rightarrow> True | Some s \<Rightarrow> isFinite s)"

text \<open>
  The commands that a run sent, and claim C8's account of the retry loop: the first
  command of the loop is the batch write of the requests given, and each further command
  is the batch write of exactly the requests that the answer to the one before reported
  as unprocessed; nothing follows a rejection or an answer without unprocessed requests.
  How the loop ends is read from the answer to the last command of the run, and a request
  is accepted when some batch write of the run carried it and the answer to that batch
  write did not report it as unprocessed.
\<close>

definition issued :: "world \<Rightarrow> world \<Rightarrow> command list" where
  "issued w w' = drop (length (sent w)) (sent w')"

fun resubmits :: "services \<Rightarrow> string \<Rightarrow> nat \<Rightarrow> MappingRequest list \<Rightarrow> command list \<Rightarrow> bool" where
  "resubmits svc t n reqs [] = True"
| "resubmits svc t n reqs (c # cs) =
     (c = BatchWriteCommand t reqs \<and>
      (case dynamo svc n c of
         Inl e \<Rightarrow> cs = []
       | Inr r \<Rightarrow>
           if unprocessedFor r t = [] then cs = []
           else resubmits svc t (Suc n) (unprocessedFor r t) cs))"

definition lastAnswer :: "services \<Rightarrow> world \<Rightarrow> world \<Rightarrow> (error + response) option" where
  "lastAnswer svc w w' =
     (if issued w w' = [] then None
      else Some (dynamo svc (length (sent w') - 1) (last (sent w'))))"

fun carries :: "string \<Rightarrow> MappingRequest \<Rightarrow> command \<Rightarrow> bool" where
  "carries t req (BatchWriteCommand t' reqs) = (t' = t \<and> req \<in> set reqs)"
| "carries t req c = False"

definition accepted :: "services \<Rightarrow> string \<Rightarrow> nat \<Rightarrow> command list \<Rightarrow> MappingRequest \<Rightarrow> bool" where
  "accepted svc t lo cmds req \<longleftrightarrow>
     (\<exists>j\<in>{lo..<length cmds}.
        carries t req (cmds ! j) \<and>
        (case dynamo svc j (cmds ! j) of
           Inl e \<Rightarrow> False
         | Inr r \<Rightarrow> req \<notin> set (unprocessedFor r t)))"

text \<open>
  Claim C4's account of a run of the main loop over a list of keys: the loop returned
  without throwing, fetched every key in order, and logged for every key, in order, the
  one line that says that the key was stored or that it failed.
\<close>

fun outcomeKey :: "level \<times> fragment list \<Rightarrow> string list" where
  "outcomeKey (Info, [T a, N n, T b, T key]) =
     (if a = ''Stored '' \<and> b = '' logos for '' then [key] else [])"
| "outcomeKey (Err, [T a, T key, E e]) = (if a = ''Failed to process '' then [key] else [])"
| "outcomeKey line = []"

definition outcomes :: "(level \<times> fragment list) list \<Rightarrow> string list" where
  "outcomes lines = concat (map outcomeKey lines)"

definition processed :: "string list \<Rightarrow> world \<Rightarrow> (error + unit) option \<times> world \<Rightarrow> bool" where
  "processed keys w run \<longleftrightarrow>
     fst run = Some (Inr ()) \<and>
     fetched (snd run) = fetched w @ keys \<and>
     outcomes (console (snd run)) = outcomes (console w) @ keys"

text \<open>
  A database settles within \<open>fuel\<close> answers when, from any answer on, one of the next
  \<open>fuel\<close> answers to a batch write reports no unprocessed request.
\<close>

definition settles :: "nat \<Rightarrow> services \<Rightarrow> string \<Rightarrow> bool" where
  "settles fuel svc t \<longleftrightarrow>
     (\<forall>n. \<exists>k<fuel. \<forall>reqs. \<exists>r. dynamo svc (n + k) (BatchWriteCommand t reqs) = Inr r \<and>
                                unprocessedFor r t = [])"

text \<open>
  The commands that claim C7 lists: put, batch put, update, scan, query and batch get.
\<close>

fun allowedCommand :: "command \<Rightarrow> bool" where
  "allowedCommand (ScanCommand t) = True"
| "allowedCommand (QueryCommand t a v) = True"
| "allowedCommand (BatchGetCommand t keys) = True"
| "allowedCommand (PutCommand t item) = True"
| "allowedCommand (BatchWriteCommand t reqs) = True"
| "allowedCommand (UpdateCommand t k e vs ns) = True"
| "allowedCommand (DeleteCommand t k) = False"

definition onlyAllowed :: "world \<Rightarrow> bool" where
  "onlyAllowed w = list_all allowedCommand (sent w)"

text \<open>The answer of a route that caught an error.\<close>

definition internalError :: "string \<Rightarrow> 'a httpResponse" where
  "internalError m = \<lparr>status = 500, payload = ErrorBody m\<rparr>"

text \<open>
  What claim C4 says of a run of the main loop, read from the commands that the run sent
  (the \<open>j\<close>-th command of the list is the \<open>j\<close>-th call of the database) and from the
  lines that it wrote. A photo is saved by the put at position \<open>i\<close> when the database
  accepted the put, accepted every mapping request of the photo in some batch write from
  \<open>i\<close> on, and accepted every summary update from \<open>i\<close> on.
\<close>

definition answeredOK :: "services \<Rightarrow> nat \<Rightarrow> command \<Rightarrow> bool" where
  "answeredOK svc j c = (case dynamo svc j c of Inl e \<Rightarrow> False | Inr r \<Rightarrow> True)"

definition saved ::
  "services \<Rightarrow> string \<Rightarrow> command \<Rightarrow> MappingRequest list \<Rightarrow> command list \<Rightarrow> nat \<Rightarrow> command list \<Rightarrow> bool" where
  "saved svc t put reqs updates i cmds \<longleftrightarrow>
     answeredOK svc i put \<and>
     (\<forall>req\<in>set reqs. accepted svc t i cmds req) \<and>
     (\<forall>u\<in>set updates. \<exists>j\<in>{i..<length cmds}. cmds ! j = u \<and> answeredOK svc j u)"

text \<open>
  The commands from position \<open>lo\<close> up to position \<open>hi\<close> are those of one key. A key
  whose detection threw has no command, and the line that reports this error. A key whose
  detection returned has at least one command, the first of them the put of its photo,
  and either the photo is saved by the commands up to \<open>hi\<close> and the line says that it was
  stored, or the database rejected the last command of the key and the line reports the
  error of that rejection.
\<close>

definition segment ::
  "services \<Rightarrow> string \<Rightarrow> string \<Rightarrow> error + IngestLogoDetection list \<Rightarrow>
   (IngestLogoDetection list \<Rightarrow> nat \<Rightarrow> command) \<Rightarrow>
   (IngestLogoDetection list \<Rightarrow> nat \<Rightarrow> MappingRequest list) \<Rightarrow>
   (IngestLogoDetection list \<Rightarrow> nat \<Rightarrow> command list) \<Rightarrow>
   command list \<Rightarrow> (level \<times> fragment list) list \<Rightarrow> nat \<Rightarrow> nat \<Rightarrow> bool" where
  "segment svc t key det putOf reqsOf updatesOf cmds lines lo hi =
     (case det of
        Inl e \<Rightarrow> hi = lo \<and> (Err, [T ''Failed to process '', T key, E e]) \<in> set lines
      | Inr found \<Rightarrow>
          lo < hi \<and> hi \<le> length cmds \<and> cmds ! lo = putOf found lo \<and>
          (saved svc t (putOf found lo) (reqsOf found lo) (updatesOf found lo) lo (take hi cmds) \<and>
             (Info, [T ''Stored '', N (length found), T '' logos for '', T key]) \<in> set lines
           \<or> (case dynamo svc (hi - 1) (cmds ! (hi - 1)) of
                Inl e \<Rightarrow> (Err, [T ''Failed to process '', T key, E e]) \<in> set lines
              | Inr r \<Rightarrow> False)))"

text \<open>
  The positions from \<open>lo\<close> up to \<open>hi\<close> are divided among the keys of a list, in the
  order of the list: every command belongs to one key, and a key is followed by the next.
\<close>

fun segmented :: "(string \<Rightarrow> nat \<Rightarrow> nat \<Rightarrow> bool) \<Rightarrow> string list \<Rightarrow> nat \<Rightarrow> nat \<Rightarrow> bool" where
  "segmented seg [] lo hi = (lo = hi)"
| "segmented seg (key # keys) lo hi = (\<exists>mid\<in>{lo..hi}. seg key lo mid \<and> segmented seg keys mid hi)"

text \<open>
  The commands that store the photo of a key with its detections when the put is the
  \<open>i\<close>-th call of the database (the time of the call is \<open>isoNow svc i\<close>): the put of the
  photo, the mapping requests, one per detection, and the summary updates, one per slug.
\<close>

definition photoPut_decoupled ::
  "host \<Rightarrow> tables \<Rightarrow> services \<Rightarrow> string \<Rightarrow> IngestLogoDetection list \<Rightarrow> nat \<Rightarrow> command" where
  "photoPut_decoupled h tn svc key found i =
     PutCommand (PHOTOS_TABLE tn)
       [(''photoId'', JStr (keyToPhotoId h key)), (''s3Key'', JStr key),
        (''publicUrl'', jsOptStr (buildPublicUrl h key)),
        (''createdAt'', JStr (isoNow svc i)), (''updatedAt'', JStr (isoNow svc i))]"

definition mappingWrites_decoupled ::
  "host \<Rightarrow> services \<Rightarrow> string \<Rightarrow> IngestLogoDetection list \<Rightarrow> nat \<Rightarrow> MappingRequest list" where
  "mappingWrites_decoupled h svc key found i =
     map (mappingWrite_decoupled (keyToPhotoId h key) (isoNow svc i)) found"

definition summaryUpdates_decoupled ::
  "tables \<Rightarrow> services \<Rightarrow> IngestLogoDetection list \<Rightarrow> nat \<Rightarrow> command list" where
  "summaryUpdates_decoupled tn svc found i =
     map (summaryUpdate_decoupled (LOGO_SUMMARIES_TABLE tn) (isoNow svc i)) (summarise found [])"

definition photoPut_single ::
  "host \<Rightarrow> string \<Rightarrow> services \<Rightarrow> string \<Rightarrow> IngestLogoDetection list \<Rightarrow> nat \<Rightarrow> command" where
  "photoPut_single h tableName svc key found i =
     PutCommand tableName
       [(''PK'', JStr ''PHOTO''), (''SK'', JStr (keyToPhotoId h key)), (''_type'', JStr ''photo''),
        (''s3Key'', JStr key), (''publicUrl'', jsOptStr (buildPublicUrl h key)),
        (''detectedLogos'', JArr (map jsDetection found)),
        (''createdAt'', JStr (isoNow svc i))]"

definition mappingWrites_single ::
  "host \<Rightarrow> string \<Rightarrow> IngestLogoDetection list \<Rightarrow> nat \<Rightarrow> MappingRequest list" where
  "mappingWrites_single h key found i =
     map (mappingWrite_single (keyToPhotoId h key) (buildPublicUrl h key)) found"

definition summaryUpdates_single ::
  "string \<Rightarrow> IngestLogoDetection list \<Rightarrow> nat \<Rightarrow> command list" where
  "summaryUpdates_single tableName found i =
     map (summaryUpdate_single tableName) (summarise found [])"

text \<open>
  The keys of a list are handled by a run from the world \<open>w\<close> to the world \<open>w'\<close>: the
  commands sent from \<open>w\<close> on are divided among the keys in order, each part as described
  above. What detecting a key returns does not depend on the world, and the lines are
  those written from \<open>w\<close> on.
\<close>

definition handledDecoupled :: "host \<Rightarrow> tables \<Rightarrow> services \<Rightarrow> string list \<Rightarrow> world \<Rightarrow> world \<Rightarrow> bool" where
  "handledDecoupled h tn svc keys w w' =
     segmented
       (\<lambda>key. segment svc (PHOTO_LOGOS_TABLE tn) key (fst (detectLogosForKey svc key w))
                (photoPut_decoupled h tn svc key) (mappingWrites_decoupled h svc key)
                (summaryUpdates_decoupled tn svc)
                (sent w') (drop (length (console w)) (console w')))
       keys (length (sent w)) (length (sent w'))"

definition handledSingle :: "host \<Rightarrow> string \<Rightarrow> services \<Rightarrow> string list \<Rightarrow> world \<Rightarrow> world \<Rightarrow> bool" where
  "handledSingle h tableName svc keys w w' =
     segmented
       (\<lambda>key. segment svc tableName key (fst (detectLogosForKey svc key w))
                (photoPut_single h tableName svc key) (mappingWrites_single h key)
                (summaryUpdates_single tableName)
                (sent w') (drop (length (console w)) (console w')))
       keys (length (sent w)) (length (sent w'))"

text \<open>A list of commands whose last command the database rejected with an error.\<close>

definition rejectedLast :: "services \<Rightarrow> command list \<Rightarrow> error \<Rightarrow> bool" where
  "rejectedLast svc cmds e \<longleftrightarrow>
     cmds \<noteq> [] \<and> dynamo svc (length cmds - 1) (cmds ! (length cmds - 1)) = Inl e"

section \<open>Auxiliary functions of the proofs\<close>

text \<open>
  The two loops that collect photo ids differ only in how they read the photo id of a
  mapping item; \<open>collectWith\<close> is the loop over that reading, \<open>addNew\<close> its
  \<open>includes\<close>/\<open>push\<close> step and \<open>best\<close> the update of the confidence map at one key.
\<close>

definition addNew :: "string list \<Rightarrow> string \<Rightarrow> string list" where
  "addNew ids x = (if x \<in> set ids then ids else ids @ [x])"

fun collectWith ::
  "(RawItem \<Rightarrow> string option) \<Rightarrow> host \<Rightarrow> RawItem list \<Rightarrow> string list \<times> (string \<rightharpoonup> jsnum) \<Rightarrow> string list \<times> (string \<rightharpoonup> jsnum)" where
  "collectWith f h [] acc = acc"
| "collectWith f h (item # items) (ids, conf) =
     (if \<not> truthy (f item) then collectWith f h items (ids, conf)
      else collectWith f h items
             (addNew ids (the (f item)),
              keepMax conf (the (f item)) (asNumber h (getField item ''confidence''))))"

definition best :: "jsnum option \<Rightarrow> jsnum \<Rightarrow> jsnum option" where
  "best acc c = (case acc of None \<Rightarrow> Some c | Some e \<Rightarrow> if js_gt c e then Some c else Some e)"

definition seenConfidences :: "(RawItem \<Rightarrow> string option) \<Rightarrow> host \<Rightarrow> RawItem list \<Rightarrow> string \<Rightarrow> jsnum list" where
  "seenConfidences f h items pid =
     concat (map (\<lambda>item. if truthy (f item) \<and> the (f item) = pid
                          then (case asNumber h (getField item ''confidence'') of
                                  Some c \<Rightarrow> [c] | None \<Rightarrow> [])
                          else []) items)"

definition keyed :: "(string \<rightharpoonup> PhotoRecord) \<Rightarrow> bool" where
  "keyed pm \<longleftrightarrow> (\<forall>pid p. pm pid = Some p \<longrightarrow> photoId p = pid \<and> matchConfidence p = None)"

text \<open>
  What a step of the ingestion leaves aside: it fetches no object and writes only log and
  warning lines to the console.
\<close>

definition quiet :: "(level \<times> fragment list) list \<Rightarrow> bool" where
  "quiet lines = list_all (\<lambda>line. fst line = Log \<or> fst line = Warn) lines"

definition aside :: "world \<Rightarrow> world \<Rightarrow> bool" where
  "aside w w' \<longleftrightarrow> fetched w' = fetched w \<and> (\<exists>ls. console w' = console w @ ls \<and> quiet ls)"

section \<open>Normalised names\<close>

lemma isLowerAlnum_not_dash: "isLowerAlnum c \<Longrightarrow> \<not> isDash c"
  by (auto simp: isLowerAlnum_def isDash_def)

lemma isLowerAlnum_not_white: "isLowerAlnum c \<Longrightarrow> \<not> isWhiteSpace c"
  by (auto simp: isLowerAlnum_def isWhiteSpace_def)

lemma dash_not_white: "isDash c \<Longrightarrow> \<not> isWhiteSpace c"
  by (auto simp: isDash_def isWhiteSpace_def)

lemma isLowerAlnum_lower: "isLowerAlnum c \<Longrightarrow> toLowerCaseChar c = c"
  by (auto simp: isLowerAlnum_def toLowerCaseChar_def)

lemma dash_lower: "isDash c \<Longrightarrow> toLowerCaseChar c = c"
  by (auto simp: isDash_def toLowerCaseChar_def)

lemma replace_slugChars: "list_all slugChar (replaceNonAlnumRuns s)"
  by (induction s rule: replaceNonAlnumRuns.induct) (auto simp: slugChar_def isDash_def)

lemma replace_hd:
  "s \<noteq> [] \<Longrightarrow> isLowerAlnum (hd s) \<Longrightarrow> hd (replaceNonAlnumRuns s) = hd s \<and> replaceNonAlnumRuns s \<noteq> []"
  by (cases s) auto

lemma replace_after_run:
  assumes "t = [] \<or> isLowerAlnum (hd t)"
  shows "replaceNonAlnumRuns t = [] \<or> \<not> isDash (hd (replaceNonAlnumRuns t))"
proof (cases t)
  case Nil
  then show ?thesis by simp
next
  case (Cons c cs)
  with assms have "isLowerAlnum c" by simp
  with Cons show ?thesis by (simp add: isLowerAlnum_not_dash)
qed

lemma replace_noDoubleDash: "noDoubleDash (replaceNonAlnumRuns s)"
proof (induction s rule: replaceNonAlnumRuns.induct)
  case 1
  then show ?case by (simp add: noDoubleDash_def)
next
  case (2 c cs)
  show ?case
  proof (cases "isLowerAlnum c")
    case True
    with 2 show ?thesis
      by (auto simp: noDoubleDash_def successively_Cons dest: isLowerAlnum_not_dash)
  next
    case False
    define t where "t = dropWhile (\<lambda>d. \<not> isLowerAlnum d) cs"
    have ih: "noDoubleDash (replaceNonAlnumRuns t)" using 2 False by (simp add: t_def)
    have "t = [] \<or> isLowerAlnum (hd t)"
      unfolding t_def using hd_dropWhile [of "\<lambda>d. \<not> isLowerAlnum d" cs] by blast
    then have "replaceNonAlnumRuns t = [] \<or> \<not> isDash (hd (replaceNonAlnumRuns t))"
      by (rule replace_after_run)
    moreover have "replaceNonAlnumRuns (c # cs) = CHR ''-'' # replaceNonAlnumRuns t"
      using False by (simp add: t_def)
    ultimately show ?thesis using ih
      by (auto simp: noDoubleDash_def successively_Cons)
  qed
qed

lemma noDoubleDash_dropWhile: "noDoubleDash s \<Longrightarrow> noDoubleDash (dropWhile P s)"
  by (induction s) (auto simp: noDoubleDash_def successively_Cons)

lemma noDoubleDash_rev: "noDoubleDash (rev s) = noDoubleDash s"
  by (auto simp: noDoubleDash_def elim: successively_mono)

lemma list_all_dropWhile: "list_all P s \<Longrightarrow> list_all P (dropWhile Q s)"
  by (induction s) auto

lemma stripDashes_isSlug:
  assumes "list_all slugChar s" and "noDoubleDash s"
  shows "isSlug (stripDashes s)"
proof -
  define a where "a = dropWhile isDash s"
  define b where "b = dropWhile isDash (rev a)"
  have res: "stripDashes s = rev b" by (simp add: stripDashes_def a_def b_def)
  have all: "list_all slugChar (rev b)"
    using assms(1) by (simp add: a_def b_def list_all_dropWhile)
  have ndd: "noDoubleDash (rev b)"
    using assms(2) by (simp add: a_def b_def noDoubleDash_rev noDoubleDash_dropWhile)
  have hdb: "b \<noteq> [] \<Longrightarrow> \<not> isDash (hd b)"
    unfolding b_def using hd_dropWhile [of isDash "rev a"] by blast
  have hda: "a \<noteq> [] \<Longrightarrow> \<not> isDash (hd a)"
    unfolding a_def using hd_dropWhile [of isDash s] by blast
  have first: "b \<noteq> [] \<Longrightarrow> \<not> isDash (hd (rev b))"
  proof -
    assume ne: "b \<noteq> []"
    have "rev a = takeWhile isDash (rev a) @ b"
      unfolding b_def by simp
    then have "a = rev b @ rev (takeWhile isDash (rev a))"
      by (metis rev_append rev_rev_ident)
    then have "hd a = hd (rev b)" and "a \<noteq> []" using ne
      by (metis hd_append2 rev_is_Nil_conv, metis append_is_Nil_conv rev_is_Nil_conv)
    then show ?thesis using hda by simp
  qed
  show ?thesis
    unfolding res using all ndd hdb first
    by (auto simp: isSlug_def last_rev)
qed

lemma normalize_isSlug: "isSlug (normalizeLogoName s)"
  unfolding normalizeLogoName_def
  by (rule stripDashes_isSlug) (rule replace_slugChars, rule replace_noDoubleDash)

lemma dropWhile_hd_id: "(s \<noteq> [] \<Longrightarrow> \<not> P (hd s)) \<Longrightarrow> dropWhile P s = s"
  by (cases s) auto

lemma trim_slug: "isSlug s \<Longrightarrow> trim s = s"
proof -
  assume a: "isSlug s"
  have h: "s \<noteq> [] \<Longrightarrow> \<not> isWhiteSpace (hd s)"
    using a by (cases s) (auto simp: isSlug_def slugChar_def dest: isLowerAlnum_not_white dash_not_white)
  have l: "s \<noteq> [] \<Longrightarrow> \<not> isWhiteSpace (last s)"
  proof -
    assume "s \<noteq> []"
    then have "last s \<in> set s" by simp
    then have "slugChar (last s)" using a by (auto simp: isSlug_def list_all_iff)
    then show ?thesis by (auto simp: slugChar_def dest: isLowerAlnum_not_white dash_not_white)
  qed
  have 1: "dropWhile isWhiteSpace s = s" using h by (rule dropWhile_hd_id)
  have 2: "dropWhile isWhiteSpace (rev s) = rev s"
    using l by (intro dropWhile_hd_id) (simp add: hd_rev)
  show ?thesis by (simp add: trim_def 1 2)
qed

lemma lower_slug: "list_all slugChar s \<Longrightarrow> toLowerCase s = s"
  by (induction s) (auto simp: toLowerCase_def slugChar_def isLowerAlnum_lower dash_lower)

lemma replace_slug: "list_all slugChar s \<Longrightarrow> noDoubleDash s \<Longrightarrow> replaceNonAlnumRuns s = s"
proof (induction s rule: replaceNonAlnumRuns.induct)
  case 1
  then show ?case by simp
next
  case (2 c cs)
  have tl: "noDoubleDash cs" using 2(4) by (auto simp: noDoubleDash_def successively_Cons)
  show ?case
  proof (cases "isLowerAlnum c")
    case True
    then show ?thesis using 2 tl by simp
  next
    case False
    then have d: "isDash c" using 2(3) by (simp add: slugChar_def)
    have "cs \<noteq> [] \<Longrightarrow> isLowerAlnum (hd cs)"
    proof -
      assume ne: "cs \<noteq> []"
      then have "\<not> isDash (hd cs)" using 2(4) d by (auto simp: noDoubleDash_def successively_Cons)
      moreover have "slugChar (hd cs)" using 2(3) ne by (cases cs) auto
      ultimately show ?thesis by (simp add: slugChar_def)
    qed
    then have dw: "dropWhile (\<lambda>d. \<not> isLowerAlnum d) cs = cs"
      by (intro dropWhile_hd_id) simp
    show ?thesis using False d 2 tl dw by (simp add: isDash_def)
  qed
qed

lemma strip_slug: "isSlug s \<Longrightarrow> stripDashes s = s"
proof -
  assume a: "isSlug s"
  have 1: "dropWhile isDash s = s" using a by (intro dropWhile_hd_id) (simp add: isSlug_def)
  have 2: "dropWhile isDash (rev s) = rev s"
    using a by (intro dropWhile_hd_id) (simp add: isSlug_def hd_rev)
  show ?thesis by (simp add: stripDashes_def 1 2)
qed

lemma normalize_slug_id: "isSlug s \<Longrightarrow> normalizeLogoName s = s"
  by (simp add: normalizeLogoName_def trim_slug lower_slug replace_slug strip_slug isSlug_def)

text \<open>
  Claim C10. \<open>normalizeLogoName\<close> is idempotent: normalising a slug that is already
  normalised gives it back, so the route's normalisation followed by the repository's
  yields the same slug as one normalisation.
\<close>

theorem normalizeLogoName_idempotent:
  "normalizeLogoName (normalizeLogoName s) = normalizeLogoName s"
  by (rule normalize_slug_id) (rule normalize_isSlug)

section \<open>Collecting photo ids and confidences\<close>

lemma collectIds_decoupled_eq:
  "collectIds_decoupled h items acc = collectWith (photoIdOf_decoupled h) h items acc"
  by (induction items arbitrary: acc)
     (auto simp: photoIdOf_decoupled_def addNew_def Let_def)

lemma collectIds_single_eq:
  "collectIds_single h items acc = collectWith (mappingPhotoId_single h) h items acc"
  by (induction items arbitrary: acc) (auto simp: addNew_def Let_def)

lemma collectWith_fst:
  "fst (collectWith f h items (ids, conf)) = foldl addNew ids (mappingPhotoIds f items)"
  by (induction items arbitrary: ids conf) (auto simp: mappingPhotoIds_def)

lemma foldl_addNew_distinct: "distinct ids \<Longrightarrow> distinct (foldl addNew ids xs)"
  by (induction xs arbitrary: ids) (auto simp: addNew_def)

lemma foldl_addNew_set: "set (foldl addNew ids xs) = set ids \<union> set xs"
  by (induction xs arbitrary: ids) (auto simp: addNew_def)

lemma foldl_addNew_filter:
  "foldl addNew ids xs = ids @ foldl addNew [] (filter (\<lambda>x. x \<notin> set ids) xs)"
proof (induction xs arbitrary: ids rule: rev_induct)
  case Nil
  then show ?case by simp
next
  case (snoc x xs)
  show ?case
    using snoc [of ids]
    by (auto simp: addNew_def foldl_addNew_set)
qed

lemma foldl_addNew_firstOccurrences: "foldl addNew [] xs = firstOccurrences xs"
proof (induction xs rule: rev_induct)
  case Nil
  then show ?case by (simp add: firstOccurrences_def)
next
  case (snoc x xs)
  have "set (firstOccurrences xs) = set xs" by (simp add: firstOccurrences_def)
  then show ?case
    using snoc by (auto simp: addNew_def firstOccurrences_def)
qed

lemma keepMax_apply:
  "keepMax conf k c pid = (if pid = k then (case c of None \<Rightarrow> conf pid | Some v \<Rightarrow> best (conf pid) v) else conf pid)"
  by (auto simp: keepMax_def best_def split: option.splits)

lemma collectWith_snd:
  "snd (collectWith f h items (ids, conf)) pid = foldl best (conf pid) (seenConfidences f h items pid)"
proof (induction items arbitrary: ids conf)
  case Nil
  then show ?case by (simp add: seenConfidences_def)
next
  case (Cons item items)
  show ?case
  proof (cases "truthy (f item)")
    case False
    then show ?thesis using Cons [of ids conf] by (simp add: seenConfidences_def)
  next
    case True
    define ids' where "ids' = addNew ids (the (f item))"
    define c where "c = asNumber h (getField item ''confidence'')"
    define conf' where "conf' = keepMax conf (the (f item)) c"
    have "snd (collectWith f h (item # items) (ids, conf)) pid =
          snd (collectWith f h items (ids', conf')) pid"
      using True by (simp add: ids'_def conf'_def c_def)
    also have "\<dots> = foldl best (conf' pid) (seenConfidences f h items pid)"
      by (rule Cons)
    also have "\<dots> = foldl best (conf pid) (seenConfidences f h (item # items) pid)"
      using True
      by (cases c) (simp_all add: conf'_def keepMax_apply seenConfidences_def c_def [symmetric])
    finally show ?thesis .
  qed
qed

lemma asNumber_finite: "asNumber h v = Some c \<Longrightarrow> \<exists>r. c = Fin r"
  by (cases c) (auto simp: asNumber_def Let_def split: if_splits)

lemma truthy_the: "pid \<noteq> [] \<Longrightarrow> (truthy s \<and> the s = pid) = (s = Some pid)"
  by (cases s) (auto simp: truthy_def)

lemma seenConfidences_finite:
  "pid \<noteq> [] \<Longrightarrow> seenConfidences f h items pid = map Fin (finiteConfidences f h items pid)"
proof (induction items)
  case Nil
  then show ?case by (simp add: seenConfidences_def finiteConfidences_def)
next
  case (Cons item items)
  have step: "(case asNumber h v of Some c \<Rightarrow> [c] | None \<Rightarrow> []) =
              map Fin (case asNumber h v of Some (Fin r) \<Rightarrow> [r] | _ \<Rightarrow> [])" for v
    using asNumber_finite [of h v] by (auto split: option.splits jsnum.splits)
  show ?case
    using Cons step [of "getField item ''confidence''"]
    by (simp add: seenConfidences_def finiteConfidences_def truthy_the)
qed

lemma foldl_best_Some:
  "foldl best (Some (Fin m)) (map Fin rs) = Some (Fin (Max (set (m # rs))))"
proof (induction rs arbitrary: m)
  case Nil
  then show ?case by simp
next
  case (Cons r rs)
  have "best (Some (Fin m)) (Fin r) = Some (Fin (max m r))"
    by (auto simp: best_def max_def)
  moreover have "Max (set (max m r # rs)) = Max (set (m # r # rs))"
    by (cases "rs = []") (auto simp: max.commute max.assoc max.left_commute)
  ultimately show ?case using Cons [of "max m r"] by simp
qed

lemma foldl_best_None:
  "foldl best None (map Fin rs) = (case rs of [] \<Rightarrow> None | r # rs' \<Rightarrow> Some (Fin (Max (set (r # rs')))))"
  by (cases rs) (simp_all add: best_def foldl_best_Some del: set_simps)

lemma collectWith_maxConfidence:
  "pid \<noteq> [] \<Longrightarrow> snd (collectWith f h items (ids, Map.empty)) pid = maxConfidence f h items pid"
  by (simp add: collectWith_snd seenConfidences_finite foldl_best_None maxConfidence_def)

lemma mappingPhotoIds_nonempty: "pid \<in> set (mappingPhotoIds f items) \<Longrightarrow> pid \<noteq> []"
  by (auto simp: mappingPhotoIds_def truthy_def split: option.splits)

lemma mappingPhotoIds_item:
  "pid \<in> set (mappingPhotoIds f items) \<Longrightarrow> \<exists>item \<in> set items. f item = Some pid"
  by (fastforce simp: mappingPhotoIds_def truthy_def split: option.splits)

lemma withMatchConfidence_simps:
  "photoId (withMatchConfidence p c) = photoId p"
  "matchConfidence (withMatchConfidence p c) = (case c of None \<Rightarrow> matchConfidence p | Some v \<Rightarrow> Some v)"
  by (auto simp: withMatchConfidence_def split: option.splits)

lemma buildRecords_decoupled_ids:
  "keyed pm \<Longrightarrow>
   map photoId (buildRecords_decoupled ids pm pl conf) = filter (\<lambda>pid. pm pid \<noteq> None) ids"
  by (induction ids)
     (auto simp: buildRecords_decoupled_def keyed_def withMatchConfidence_simps split: option.splits)

lemma buildRecords_decoupled_conf:
  "keyed pm \<Longrightarrow> p \<in> set (buildRecords_decoupled ids pm pl conf) \<Longrightarrow>
   matchConfidence p = conf (photoId p)"
  by (induction ids)
     (auto simp: buildRecords_decoupled_def keyed_def withMatchConfidence_simps split: option.splits)

lemma buildRecords_single_ids:
  "keyed pm \<Longrightarrow>
   map photoId (buildRecords_single ids pm conf) = filter (\<lambda>pid. pm pid \<noteq> None) ids"
  by (induction ids)
     (auto simp: buildRecords_single_def keyed_def withMatchConfidence_simps split: option.splits)

lemma buildRecords_single_conf:
  "keyed pm \<Longrightarrow> p \<in> set (buildRecords_single ids pm conf) \<Longrightarrow>
   matchConfidence p = conf (photoId p)"
  by (induction ids)
     (auto simp: buildRecords_single_def keyed_def withMatchConfidence_simps split: option.splits)

lemma keyed_mapOfEntries:
  assumes "\<And>pid p. (pid, p) \<in> set entries \<Longrightarrow> photoId p = pid \<and> matchConfidence p = None"
  shows "keyed (mapOfEntries entries)"
  unfolding keyed_def mapOfEntries_def
proof (intro allI impI)
  fix pid p
  assume "map_of (rev entries) pid = Some p"
  then have "(pid, p) \<in> set (rev entries)" by (rule map_of_SomeD)
  then show "photoId p = pid \<and> matchConfidence p = None" using assms by simp
qed

lemma photoEntries_decoupled_keyed: "keyed (mapOfEntries (photoEntries_decoupled h items))"
proof (rule keyed_mapOfEntries)
  fix pid p
  assume "(pid, p) \<in> set (photoEntries_decoupled h items)"
  then show "photoId p = pid \<and> matchConfidence p = None"
    by (auto simp: photoEntries_decoupled_def mapPhotoItem_decoupled_def Let_def truthy_def
             split: if_splits option.splits)
qed

lemma mapPhotoItem_single_id:
  "mapPhotoItem_single h item = Inr p \<Longrightarrow> truthy (asString h (getField item ''SK'')) \<Longrightarrow>
   photoId p = the (asString h (getField item ''SK'')) \<and> matchConfidence p = None"
  by (auto simp: mapPhotoItem_single_def Let_def truthy_def orElse_def
           split: sum.splits option.splits)

lemma photoEntries_single_keyed:
  "photoEntries_single h items = Inr entries \<Longrightarrow> keyed (mapOfEntries entries)"
proof (rule keyed_mapOfEntries)
  fix pid p
  assume "photoEntries_single h items = Inr entries" and "(pid, p) \<in> set entries"
  then show "photoId p = pid \<and> matchConfidence p = None"
  proof (induction items arbitrary: entries)
    case Nil
    then show ?case by simp
  next
    case (Cons item items)
    then show ?case
      by (auto simp: Let_def split: if_splits sum.splits dest: mapPhotoItem_single_id)
  qed
qed

lemma filter_mem_self: "filter P xs = filter (\<lambda>x. x \<in> set (filter P xs)) xs"
  by (rule filter_cong) auto

lemma dedupedWithMax_Nil: "dedupedWithMax f h items []"
  by (simp add: dedupedWithMax_def)

lemma dedupedWithMax_built:
  assumes k: "keyed pm"
    and ids: "map photoId res = filter (\<lambda>pid. pm pid \<noteq> None) (fst (collectWith f h items ([], Map.empty)))"
    and conf: "\<And>p. p \<in> set res \<Longrightarrow> matchConfidence p = snd (collectWith f h items ([], Map.empty)) (photoId p)"
  shows "dedupedWithMax f h items res"
proof -
  let ?all = "firstOccurrences (mappingPhotoIds f items)"
  have fst: "fst (collectWith f h items ([], Map.empty)) = ?all"
    by (simp add: collectWith_fst foldl_addNew_firstOccurrences)
  have d: "distinct ?all" by (simp add: firstOccurrences_def)
  have 1: "distinct (map photoId res)" using ids fst d by simp
  have 2: "map photoId res = filter (\<lambda>pid. pid \<in> set (map photoId res)) ?all"
    using ids fst filter_mem_self [of "\<lambda>pid. pm pid \<noteq> None" ?all] by simp
  have 3: "matchConfidence p = maxConfidence f h items (photoId p)" if "p \<in> set res" for p
  proof -
    have "photoId p \<in> set (map photoId res)" using that by simp
    then have "photoId p \<in> set ?all" using ids fst by auto
    then have "photoId p \<in> set (mappingPhotoIds f items)" by (simp add: firstOccurrences_def)
    then have "photoId p \<noteq> []" by (rule mappingPhotoIds_nonempty)
    then show ?thesis using conf [OF that] by (simp add: collectWith_maxConfidence)
  qed
  show ?thesis unfolding dedupedWithMax_def list_all_iff using 1 2 3 by blast
qed

lemma fetchPhotosByLogo_decoupled_shape:
  assumes "fst (fetchPhotosByLogo_decoupled h svc q w) = Inr res"
  shows "res = [] \<or>
         (\<exists>pm pl. keyed pm \<and>
            res = buildRecords_decoupled
                    (fst (collectIds_decoupled h
                       (queried svc w (the (getenv h ''DYNAMO_PHOTO_LOGOS_TABLE'')) ''logoSlug''
                          (JStr (normalizeLogoName q))) ([], Map.empty)))
                    pm pl
                    (snd (collectIds_decoupled h
                       (queried svc w (the (getenv h ''DYNAMO_PHOTO_LOGOS_TABLE'')) ''logoSlug''
                          (JStr (normalizeLogoName q))) ([], Map.empty))))"
  using assms photoEntries_decoupled_keyed
  unfolding fetchPhotosByLogo_decoupled_def queried_def send_def Let_def
  by (auto split: if_splits sum.splits prod.splits)

lemma getTableName_Inr:
  "getTableName h ty = Inr t \<Longrightarrow>
   t = the (getenv h (if ty = ''photos'' then ''DYNAMO_TABLE_PHOTOS''
                      else if ty = ''logos'' then ''DYNAMO_TABLE_LOGOS''
                      else ''DYNAMO_TABLE_PHOTO_LOGOS''))"
  by (auto simp: getTableName_def Let_def split: if_splits)

lemma fetchPhotosByLogo_single_shape:
  assumes "fst (fetchPhotosByLogo_single h svc q w) = Inr res"
  shows "res = [] \<or>
         (\<exists>pm. keyed pm \<and>
            res = buildRecords_single
                    (fst (collectIds_single h
                       (queried svc w (the (getenv h ''DYNAMO_TABLE_PHOTO_LOGOS''))
                          ''PK'' (JStr (''LOGO#'' @ normalizeLogoName q))) ([], Map.empty)))
                    pm
                    (snd (collectIds_single h
                       (queried svc w (the (getenv h ''DYNAMO_TABLE_PHOTO_LOGOS''))
                          ''PK'' (JStr (''LOGO#'' @ normalizeLogoName q))) ([], Map.empty))))"
proof (cases "getTableName h ''photo-logos''")
  case (Inl e)
  then show ?thesis using assms by (simp add: fetchPhotosByLogo_single_def)
next
  case (Inr t)
  then have t: "t = the (getenv h ''DYNAMO_TABLE_PHOTO_LOGOS'')"
    using getTableName_Inr [of h "''photo-logos''" t] by simp
  show ?thesis
    using assms photoEntries_single_keyed Inr
    unfolding fetchPhotosByLogo_single_def queried_def send_def Let_def t [symmetric]
    by (auto split: if_splits sum.splits prod.splits)
qed

section \<open>fetchPhotosByLogo\<close>

lemma dedupedWithMax_decoupled:
  assumes "fst (fetchPhotosByLogo_decoupled h svc q w) = Inr res"
  shows "dedupedWithMax (photoIdOf_decoupled h) h
           (queried svc w (the (getenv h ''DYNAMO_PHOTO_LOGOS_TABLE'')) ''logoSlug''
              (JStr (normalizeLogoName q))) res"
proof -
  from fetchPhotosByLogo_decoupled_shape [OF assms]
  show ?thesis
  proof (elim disjE exE conjE)
    assume "res = []"
    then show ?thesis by (simp add: dedupedWithMax_Nil)
  next
    fix pm pl
    assume k: "keyed pm" and r: "res = buildRecords_decoupled
                    (fst (collectIds_decoupled h
                       (queried svc w (the (getenv h ''DYNAMO_PHOTO_LOGOS_TABLE'')) ''logoSlug''
                          (JStr (normalizeLogoName q))) ([], Map.empty)))
                    pm pl
                    (snd (collectIds_decoupled h
                       (queried svc w (the (getenv h ''DYNAMO_PHOTO_LOGOS_TABLE'')) ''logoSlug''
                          (JStr (normalizeLogoName q))) ([], Map.empty)))"
    show ?thesis
      by (rule dedupedWithMax_built [OF k])
         (simp_all add: r collectIds_decoupled_eq buildRecords_decoupled_ids [OF k]
                        buildRecords_decoupled_conf [OF k])
  qed
qed

lemma dedupedWithMax_single:
  assumes "fst (fetchPhotosByLogo_single h svc q w) = Inr res"
  shows "dedupedWithMax (mappingPhotoId_single h) h
           (queried svc w (the (getenv h ''DYNAMO_TABLE_PHOTO_LOGOS'')) ''PK''
              (JStr (''LOGO#'' @ normalizeLogoName q))) res"
proof -
  from fetchPhotosByLogo_single_shape [OF assms]
  show ?thesis
  proof (elim disjE exE conjE)
    assume "res = []"
    then show ?thesis by (simp add: dedupedWithMax_Nil)
  next
    fix pm
    assume k: "keyed pm" and r: "res = buildRecords_single
                    (fst (collectIds_single h
                       (queried svc w (the (getenv h ''DYNAMO_TABLE_PHOTO_LOGOS''))
                          ''PK'' (JStr (''LOGO#'' @ normalizeLogoName q))) ([], Map.empty)))
                    pm
                    (snd (collectIds_single h
                       (queried svc w (the (getenv h ''DYNAMO_TABLE_PHOTO_LOGOS''))
                          ''PK'' (JStr (''LOGO#'' @ normalizeLogoName q))) ([], Map.empty)))"
    show ?thesis
      by (rule dedupedWithMax_built [OF k])
         (simp_all add: r collectIds_single_eq buildRecords_single_ids [OF k]
                        buildRecords_single_conf [OF k])
  qed
qed

text \<open>
  Claim C9. Whenever \<open>fetchPhotosByLogo\<close> returns, in either repository, its records
  carry each photo id at most once, in the order in which the ids first occur among the
  mapping items that the query returned, and the match confidence of a record is the
  greatest finite confidence among the mapping items of its photo id, absent when no
  such item has a finite confidence.
\<close>

theorem fetchPhotosByLogo_deduplicated_max:
  "(fst (fetchPhotosByLogo_decoupled h svc q w) = Inr res \<longrightarrow>
      dedupedWithMax (photoIdOf_decoupled h) h
        (queried svc w (the (getenv h ''DYNAMO_PHOTO_LOGOS_TABLE'')) ''logoSlug''
           (JStr (normalizeLogoName q))) res) \<and>
   (fst (fetchPhotosByLogo_single h svc q w) = Inr res' \<longrightarrow>
      dedupedWithMax (mappingPhotoId_single h) h
        (queried svc w (the (getenv h ''DYNAMO_TABLE_PHOTO_LOGOS'')) ''PK''
           (JStr (''LOGO#'' @ normalizeLogoName q))) res')"
  using dedupedWithMax_decoupled dedupedWithMax_single by blast

lemma example_byLogo_decoupled:
  "fst (fetchPhotosByLogo_decoupled exampleHost (exampleServices (tableServer exampleTables)) ''  Nike '' world0)
   = Inr [examplePhoto ''p2'' ''2021-01-01T00:00:00.000Z'' [nikeLogo (7/10), nikeLogo (9/10)] (Some (Fin (9/10))),
          examplePhoto ''p1'' ''2020-01-01T00:00:00.000Z'' [nikeLogo (8/10)] (Some (Fin (8/10)))]"
  by code_simp

lemma example_byLogo_single:
  "fst (fetchPhotosByLogo_single exampleHost (exampleServices (tableServer exampleTables)) ''  Nike '' world0)
   = Inr [examplePhoto ''p2'' ''2021-01-01T00:00:00.000Z'' [] (Some (Fin (9/10))),
          examplePhoto ''p1'' ''2020-01-01T00:00:00.000Z'' [] (Some (Fin (8/10)))]"
  by code_simp

theorem fetchPhotosByLogo_deduplicated_max_witness:
  "fst (fetchPhotosByLogo_decoupled exampleHost (exampleServices (tableServer exampleTables)) ''  Nike '' world0)
     = Inr [examplePhoto ''p2'' ''2021-01-01T00:00:00.000Z'' [nikeLogo (7/10), nikeLogo (9/10)] (Some (Fin (9/10))),
            examplePhoto ''p1'' ''2020-01-01T00:00:00.000Z'' [nikeLogo (8/10)] (Some (Fin (8/10)))] \<and>
   dedupedWithMax (photoIdOf_decoupled exampleHost) exampleHost
     (queried (exampleServices (tableServer exampleTables)) world0 ''photo-logos'' ''logoSlug'' (JStr ''nike''))
     [examplePhoto ''p2'' ''2021-01-01T00:00:00.000Z'' [nikeLogo (7/10), nikeLogo (9/10)] (Some (Fin (9/10))),
      examplePhoto ''p1'' ''2020-01-01T00:00:00.000Z'' [nikeLogo (8/10)] (Some (Fin (8/10)))] \<and>
   fst (fetchPhotosByLogo_single exampleHost (exampleServices (tableServer exampleTables)) ''  Nike '' world0)
     = Inr [examplePhoto ''p2'' ''2021-01-01T00:00:00.000Z'' [] (Some (Fin (9/10))),
            examplePhoto ''p1'' ''2020-01-01T00:00:00.000Z'' [] (Some (Fin (8/10)))] \<and>
   dedupedWithMax (mappingPhotoId_single exampleHost) exampleHost
     (queried (exampleServices (tableServer exampleTables)) world0 ''index'' ''PK'' (JStr ''LOGO#nike''))
     [examplePhoto ''p2'' ''2021-01-01T00:00:00.000Z'' [] (Some (Fin (9/10))),
      examplePhoto ''p1'' ''2020-01-01T00:00:00.000Z'' [] (Some (Fin (8/10)))]"
proof -
  have n: "normalizeLogoName ''  Nike '' = ''nike''" by code_simp
  have t1: "the (getenv exampleHost ''DYNAMO_PHOTO_LOGOS_TABLE'') = ''photo-logos''" by code_simp
  have t2: "the (getenv exampleHost ''DYNAMO_TABLE_PHOTO_LOGOS'') = ''index''" by code_simp
  show ?thesis
    using fetchPhotosByLogo_deduplicated_max
            [of exampleHost "exampleServices (tableServer exampleTables)" "''  Nike ''" world0
                "[examplePhoto ''p2'' ''2021-01-01T00:00:00.000Z'' [nikeLogo (7/10), nikeLogo (9/10)] (Some (Fin (9/10))),
                  examplePhoto ''p1'' ''2020-01-01T00:00:00.000Z'' [nikeLogo (8/10)] (Some (Fin (8/10)))]"
                "[examplePhoto ''p2'' ''2021-01-01T00:00:00.000Z'' [] (Some (Fin (9/10))),
                  examplePhoto ''p1'' ''2020-01-01T00:00:00.000Z'' [] (Some (Fin (8/10)))]"]
          example_byLogo_decoupled example_byLogo_single
    unfolding n t1 t2 by simp
qed

lemma queried_tableServer:
  "dynamo svc = tableServer tbl \<Longrightarrow>
   queried svc w t a v = filter (\<lambda>item. getField item a = v) (tbl t)"
  by (simp add: queried_def tableServer_def emptyResponse_def itemsOrEmpty_def)

lemma dedupedWithMax_item:
  assumes "dedupedWithMax f h items res" and "p \<in> set res"
  shows "\<exists>m\<in>set items. f m = Some (photoId p)"
proof -
  define ids where "ids = map photoId res"
  have eq: "ids = filter (\<lambda>pid. pid \<in> set ids) (firstOccurrences (mappingPhotoIds f items))"
    using assms(1) unfolding dedupedWithMax_def ids_def by blast
  have "photoId p \<in> set ids" using assms(2) by (simp add: ids_def)
  then have "photoId p \<in> set (filter (\<lambda>pid. pid \<in> set ids) (firstOccurrences (mappingPhotoIds f items)))"
    using eq by metis
  then have "photoId p \<in> set (firstOccurrences (mappingPhotoIds f items))" by simp
  then have "photoId p \<in> set (mappingPhotoIds f items)" by (simp add: firstOccurrences_def)
  then show ?thesis by (rule mappingPhotoIds_item)
qed

lemma decoupled_no_mappings:
  assumes "dynamo svc = tableServer tbl"
    and "truthy (getenv h ''DYNAMO_PHOTOS_TABLE'')"
    and "truthy (getenv h ''DYNAMO_PHOTO_LOGOS_TABLE'')"
    and "filter (\<lambda>m. getField m ''logoSlug'' = JStr (normalizeLogoName q))
           (tbl (the (getenv h ''DYNAMO_PHOTO_LOGOS_TABLE''))) = []"
  shows "fst (fetchPhotosByLogo_decoupled h svc q w) = Inr []"
  using assms
  by (simp add: fetchPhotosByLogo_decoupled_def send_def tableServer_def emptyResponse_def
        itemsOrEmpty_def Let_def)

lemma single_no_mappings:
  assumes "dynamo svc = tableServer tbl"
    and "truthy (getenv h ''DYNAMO_TABLE_PHOTO_LOGOS'')"
    and "filter (\<lambda>m. getField m ''PK'' = JStr (''LOGO#'' @ normalizeLogoName q))
           (tbl (the (getenv h ''DYNAMO_TABLE_PHOTO_LOGOS''))) = []"
  shows "fst (fetchPhotosByLogo_single h svc q w) = Inr []"
  using assms
  by (simp add: fetchPhotosByLogo_single_def getTableName_def send_def tableServer_def
        emptyResponse_def itemsOrEmpty_def Let_def)

text \<open>
  Claim C1. Against a database that answers a query with the items of the table whose
  key attribute equals the queried value, every photo record that \<open>fetchPhotosByLogo\<close>
  returns is named by a mapping item whose \<open>logoSlug\<close> (the partition key
  \<open>LOGO#slug\<close> in the single table) is the normalised query; and when the mapping table
  holds no such item the result is the empty list.
\<close>

theorem fetchPhotosByLogo_only_mapped:
  assumes "dynamo svc = tableServer tbl"
  shows "(fst (fetchPhotosByLogo_decoupled h svc q w) = Inr res \<longrightarrow>
            mappedInTable (tbl (the (getenv h ''DYNAMO_PHOTO_LOGOS_TABLE''))) ''logoSlug''
              (JStr (normalizeLogoName q)) (photoIdOf_decoupled h) res) \<and>
         (truthy (getenv h ''DYNAMO_PHOTOS_TABLE'') \<and> truthy (getenv h ''DYNAMO_PHOTO_LOGOS_TABLE'') \<and>
          filter (\<lambda>m. getField m ''logoSlug'' = JStr (normalizeLogoName q))
            (tbl (the (getenv h ''DYNAMO_PHOTO_LOGOS_TABLE''))) = [] \<longrightarrow>
            fst (fetchPhotosByLogo_decoupled h svc q w) = Inr []) \<and>
         (fst (fetchPhotosByLogo_single h svc q w) = Inr res' \<longrightarrow>
            mappedInTable (tbl (the (getenv h ''DYNAMO_TABLE_PHOTO_LOGOS''))) ''PK''
              (JStr (''LOGO#'' @ normalizeLogoName q)) (mappingPhotoId_single h) res') \<and>
         (truthy (getenv h ''DYNAMO_TABLE_PHOTO_LOGOS'') \<and>
          filter (\<lambda>m. getField m ''PK'' = JStr (''LOGO#'' @ normalizeLogoName q))
            (tbl (the (getenv h ''DYNAMO_TABLE_PHOTO_LOGOS''))) = [] \<longrightarrow>
            fst (fetchPhotosByLogo_single h svc q w) = Inr [])"
proof (intro conjI impI)
  assume r: "fst (fetchPhotosByLogo_decoupled h svc q w) = Inr res"
  have "\<exists>m\<in>set (queried svc w (the (getenv h ''DYNAMO_PHOTO_LOGOS_TABLE'')) ''logoSlug''
              (JStr (normalizeLogoName q))). photoIdOf_decoupled h m = Some (photoId p)"
    if "p \<in> set res" for p
    using dedupedWithMax_item [OF dedupedWithMax_decoupled [OF r] that] .
  then show "mappedInTable (tbl (the (getenv h ''DYNAMO_PHOTO_LOGOS_TABLE''))) ''logoSlug''
              (JStr (normalizeLogoName q)) (photoIdOf_decoupled h) res"
    unfolding mappedInTable_def list_all_iff list_ex_iff queried_tableServer [OF assms]
    by fastforce
next
  assume r: "fst (fetchPhotosByLogo_single h svc q w) = Inr res'"
  have "\<exists>m\<in>set (queried svc w (the (getenv h ''DYNAMO_TABLE_PHOTO_LOGOS'')) ''PK''
              (JStr (''LOGO#'' @ normalizeLogoName q))). mappingPhotoId_single h m = Some (photoId p)"
    if "p \<in> set res'" for p
    using dedupedWithMax_item [OF dedupedWithMax_single [OF r] that] .
  then show "mappedInTable (tbl (the (getenv h ''DYNAMO_TABLE_PHOTO_LOGOS''))) ''PK''
              (JStr (''LOGO#'' @ normalizeLogoName q)) (mappingPhotoId_single h) res'"
    unfolding mappedInTable_def list_all_iff list_ex_iff queried_tableServer [OF assms]
    by fastforce
next
  assume "truthy (getenv h ''DYNAMO_PHOTOS_TABLE'') \<and> truthy (getenv h ''DYNAMO_PHOTO_LOGOS_TABLE'') \<and>
          filter (\<lambda>m. getField m ''logoSlug'' = JStr (normalizeLogoName q))
            (tbl (the (getenv h ''DYNAMO_PHOTO_LOGOS_TABLE''))) = []"
  then show "fst (fetchPhotosByLogo_decoupled h svc q w) = Inr []"
    using decoupled_no_mappings [OF assms] by blast
next
  assume "truthy (getenv h ''DYNAMO_TABLE_PHOTO_LOGOS'') \<and>
          filter (\<lambda>m. getField m ''PK'' = JStr (''LOGO#'' @ normalizeLogoName q))
            (tbl (the (getenv h ''DYNAMO_TABLE_PHOTO_LOGOS''))) = []"
  then show "fst (fetchPhotosByLogo_single h svc q w) = Inr []"
    using single_no_mappings [OF assms] by blast
qed

lemma example_puma_decoupled:
  "filter (\<lambda>m. getField m ''logoSlug'' = JStr (normalizeLogoName ''Puma''))
     (exampleTables (the (getenv exampleHost ''DYNAMO_PHOTO_LOGOS_TABLE''))) = []"
  by code_simp

lemma example_puma_single:
  "filter (\<lambda>m. getField m ''PK'' = JStr (''LOGO#'' @ normalizeLogoName ''Puma''))
     (exampleTables (the (getenv exampleHost ''DYNAMO_TABLE_PHOTO_LOGOS''))) = []"
  by code_simp

lemma example_env_truthy:
  "truthy (getenv exampleHost ''DYNAMO_PHOTOS_TABLE'')"
  "truthy (getenv exampleHost ''DYNAMO_PHOTO_LOGOS_TABLE'')"
  "truthy (getenv exampleHost ''DYNAMO_TABLE_PHOTO_LOGOS'')"
  by code_simp+

theorem fetchPhotosByLogo_only_mapped_witness:
  "dynamo (exampleServices (tableServer exampleTables)) = tableServer exampleTables \<and>
   fst (fetchPhotosByLogo_decoupled exampleHost (exampleServices (tableServer exampleTables)) ''  Nike '' world0)
     = Inr [examplePhoto ''p2'' ''2021-01-01T00:00:00.000Z'' [nikeLogo (7/10), nikeLogo (9/10)] (Some (Fin (9/10))),
            examplePhoto ''p1'' ''2020-01-01T00:00:00.000Z'' [nikeLogo (8/10)] (Some (Fin (8/10)))] \<and>
   mappedInTable (exampleTables ''photo-logos'') ''logoSlug'' (JStr ''nike'') (photoIdOf_decoupled exampleHost)
     [examplePhoto ''p2'' ''2021-01-01T00:00:00.000Z'' [nikeLogo (7/10), nikeLogo (9/10)] (Some (Fin (9/10))),
      examplePhoto ''p1'' ''2020-01-01T00:00:00.000Z'' [nikeLogo (8/10)] (Some (Fin (8/10)))] \<and>
   fst (fetchPhotosByLogo_single exampleHost (exampleServices (tableServer exampleTables)) ''  Nike '' world0)
     = Inr [examplePhoto ''p2'' ''2021-01-01T00:00:00.000Z'' [] (Some (Fin (9/10))),
            examplePhoto ''p1'' ''2020-01-01T00:00:00.000Z'' [] (Some (Fin (8/10)))] \<and>
   mappedInTable (exampleTables ''index'') ''PK'' (JStr ''LOGO#nike'') (mappingPhotoId_single exampleHost)
     [examplePhoto ''p2'' ''2021-01-01T00:00:00.000Z'' [] (Some (Fin (9/10))),
      examplePhoto ''p1'' ''2020-01-01T00:00:00.000Z'' [] (Some (Fin (8/10)))] \<and>
   filter (\<lambda>m. getField m ''logoSlug'' = JStr (normalizeLogoName ''Puma'')) (exampleTables ''photo-logos'') = [] \<and>
   fst (fetchPhotosByLogo_decoupled exampleHost (exampleServices (tableServer exampleTables)) ''Puma'' world0) = Inr [] \<and>
   filter (\<lambda>m. getField m ''PK'' = JStr (''LOGO#'' @ normalizeLogoName ''Puma'')) (exampleTables ''index'') = [] \<and>
   fst (fetchPhotosByLogo_single exampleHost (exampleServices (tableServer exampleTables)) ''Puma'' world0) = Inr []"
proof -
  have d: "dynamo (exampleServices (tableServer exampleTables)) = tableServer exampleTables"
    by (simp add: exampleServices_def)
  have n: "normalizeLogoName ''  Nike '' = ''nike''" by code_simp
  have t1: "the (getenv exampleHost ''DYNAMO_PHOTO_LOGOS_TABLE'') = ''photo-logos''" by code_simp
  have t2: "the (getenv exampleHost ''DYNAMO_TABLE_PHOTO_LOGOS'') = ''index''" by code_simp
  note nike = fetchPhotosByLogo_only_mapped
      [OF d, of exampleHost "''  Nike ''" world0
          "[examplePhoto ''p2'' ''2021-01-01T00:00:00.000Z'' [nikeLogo (7/10), nikeLogo (9/10)] (Some (Fin (9/10))),
            examplePhoto ''p1'' ''2020-01-01T00:00:00.000Z'' [nikeLogo (8/10)] (Some (Fin (8/10)))]"
          "[examplePhoto ''p2'' ''2021-01-01T00:00:00.000Z'' [] (Some (Fin (9/10))),
            examplePhoto ''p1'' ''2020-01-01T00:00:00.000Z'' [] (Some (Fin (8/10)))]"]
  note puma = fetchPhotosByLogo_only_mapped [OF d, of exampleHost "''Puma''" world0 "[]" "[]"]
  show ?thesis
    using nike puma d example_byLogo_decoupled example_byLogo_single
      example_puma_decoupled example_puma_single example_env_truthy
    unfolding n t1 t2 by simp
qed


section \<open>fetchAllPhotos\<close>

lemma set_insert_js: "set (insert_js cmp x ys) = insert x (set ys)"
  by (induction ys) auto

lemma set_sort_js: "set (sort_js cmp xs) = set xs"
  by (induction xs) (auto simp: sort_js_def set_insert_js)

lemma notOlder_dated:
  "dated h a \<Longrightarrow> dated h b \<Longrightarrow>
   notOlder h a b = (the (createdTime h b) \<le> the (createdTime h a))"
  by (auto simp: dated_def notOlder_def)

lemma comparePhotos_dated:
  "dated h a \<Longrightarrow> dated h b \<Longrightarrow>
   positive (comparePhotos h a b) = (the (createdTime h a) < the (createdTime h b))"
  by (auto simp: dated_def createdTime_def comparePhotos_def positive_def split: if_splits)

lemma insert_js_sorted:
  assumes "dated h x" and "\<forall>y\<in>set ys. dated h y" and "sorted_wrt (notOlder h) ys"
  shows "sorted_wrt (notOlder h) (insert_js (comparePhotos h) x ys)"
  using assms
proof (induction ys)
  case Nil
  then show ?case by simp
next
  case (Cons y ys)
  show ?case
  proof (cases "positive (comparePhotos h x y)")
    case True
    then have "notOlder h y x"
      using Cons.prems by (simp add: comparePhotos_dated notOlder_dated)
    then show ?thesis
      using True Cons by (auto simp: set_insert_js)
  next
    case False
    then have xy: "notOlder h x y"
      using Cons.prems by (simp add: comparePhotos_dated notOlder_dated)
    have "notOlder h x z" if "z \<in> set ys" for z
    proof -
      have dz: "dated h z" and dy: "dated h y" and dx: "dated h x"
        using Cons.prems that by auto
      have "notOlder h y z" using Cons.prems that by simp
      then have "the (createdTime h z) \<le> the (createdTime h y)"
        using dy dz by (simp add: notOlder_dated)
      moreover have "the (createdTime h y) \<le> the (createdTime h x)"
        using xy dx dy by (simp add: notOlder_dated)
      ultimately show ?thesis
        using dx dz by (simp add: notOlder_dated)
    qed
    then show ?thesis using False xy Cons.prems by auto
  qed
qed

lemma sort_js_sorted:
  "\<forall>x\<in>set xs. dated h x \<Longrightarrow> sorted_wrt (notOlder h) (sort_js (comparePhotos h) xs)"
proof (induction xs)
  case Nil
  then show ?case by (simp add: sort_js_def)
next
  case (Cons x xs)
  have "sorted_wrt (notOlder h) (insert_js (comparePhotos h) x (sort_js (comparePhotos h) xs))"
    using Cons by (intro insert_js_sorted) (auto simp: set_sort_js)
  then show ?case by (simp add: sort_js_def)
qed

lemma sort_js_sorted_result:
  assumes "list_all (dated h) (sort_js (comparePhotos h) xs)"
  shows "sorted_wrt (notOlder h) (sort_js (comparePhotos h) xs)"
  using assms by (intro sort_js_sorted) (simp add: list_all_iff set_sort_js)

lemma fetchAllPhotos_decoupled_shape:
  "fst (fetchAllPhotos_decoupled h svc w) = Inr res \<Longrightarrow>
   res = [] \<or> (\<exists>xs. res = sort_js (comparePhotos h) xs)"
  unfolding fetchAllPhotos_decoupled_def Let_def
  by (auto split: if_splits sum.splits prod.splits)

lemma fetchAllPhotos_single_shape:
  "fst (fetchAllPhotos_single h svc w) = Inr res \<Longrightarrow>
   \<exists>xs. res = sort_js (comparePhotos h) xs"
  unfolding fetchAllPhotos_single_def Let_def
  by (auto split: if_splits sum.splits prod.splits)

text \<open>
  Claim C2, amended. When every photo of the list that \<open>fetchAllPhotos\<close> returns, in
  either repository, has a \<open>createdAt\<close> that is a valid date, the list is sorted by
  creation time descending: of any two photos, adjacent or not, the earlier one is not
  older than the later one.
\<close>

theorem fetchAllPhotos_sorted_when_dated:
  "(fst (fetchAllPhotos_decoupled h svc w) = Inr res \<and> list_all (dated h) res \<longrightarrow>
      sortedByCreatedAtDesc h res \<and> sorted_wrt (notOlder h) res) \<and>
   (fst (fetchAllPhotos_single h svc w) = Inr res' \<and> list_all (dated h) res' \<longrightarrow>
      sortedByCreatedAtDesc h res' \<and> sorted_wrt (notOlder h) res')"
proof (intro conjI impI)
  assume a: "fst (fetchAllPhotos_decoupled h svc w) = Inr res \<and> list_all (dated h) res"
  then show s: "sorted_wrt (notOlder h) res"
    using fetchAllPhotos_decoupled_shape [of h svc w res] sort_js_sorted_result by auto
  then show "sortedByCreatedAtDesc h res"
    unfolding sortedByCreatedAtDesc_def by (rule successively_if_sorted_wrt)
next
  assume a: "fst (fetchAllPhotos_single h svc w) = Inr res' \<and> list_all (dated h) res'"
  then show s: "sorted_wrt (notOlder h) res'"
    using fetchAllPhotos_single_shape [of h svc w res'] sort_js_sorted_result by auto
  then show "sortedByCreatedAtDesc h res'"
    unfolding sortedByCreatedAtDesc_def by (rule successively_if_sorted_wrt)
qed


lemma example_undated:
  "fst (fetchAllPhotos_decoupled exampleHost (exampleServices (tableServer undatedTables)) world0) =
     Inr [examplePhoto ''a'' ''2020-01-01T00:00:00.000Z'' [] None, undatedPhoto ''b'',
          examplePhoto ''c'' ''2021-01-01T00:00:00.000Z'' [] None]"
  by code_simp

text \<open>
  Claim C2 as stated fails: with a photo that has no \<open>createdAt\<close> the comparator
  compares ids, and the photo of 2020 is returned before the photo of 2021.
\<close>

theorem fetchAllPhotos_sorted_counterexample:
  "fst (fetchAllPhotos_decoupled exampleHost (exampleServices (tableServer undatedTables)) world0) =
     Inr [examplePhoto ''a'' ''2020-01-01T00:00:00.000Z'' [] None, undatedPhoto ''b'',
          examplePhoto ''c'' ''2021-01-01T00:00:00.000Z'' [] None] \<and>
   fst (fetchAllPhotos_single exampleHost (exampleServices (tableServer undatedTables)) world0) =
     Inr [examplePhoto ''a'' ''2020-01-01T00:00:00.000Z'' [] None, undatedPhoto ''b'',
          examplePhoto ''c'' ''2021-01-01T00:00:00.000Z'' [] None] \<and>
   map (createdTime exampleHost)
     [examplePhoto ''a'' ''2020-01-01T00:00:00.000Z'' [] None, undatedPhoto ''b'',
      examplePhoto ''c'' ''2021-01-01T00:00:00.000Z'' [] None] =
     [Some 1577836800000, None, Some 1609459200000] \<and>
   \<not> sortedByCreatedAtDesc exampleHost
     [examplePhoto ''a'' ''2020-01-01T00:00:00.000Z'' [] None, undatedPhoto ''b'',
      examplePhoto ''c'' ''2021-01-01T00:00:00.000Z'' [] None]"
  by code_simp

theorem fetchAllPhotos_sorted_when_dated_witness:
  "fst (fetchAllPhotos_decoupled exampleHost (exampleServices (tableServer exampleTables)) world0) =
     Inr [examplePhoto ''p2'' ''2021-01-01T00:00:00.000Z''
            [nikeLogo (7/10), nikeLogo (9/10)] None,
          examplePhoto ''p1'' ''2020-01-01T00:00:00.000Z''
            [nikeLogo (8/10), \<lparr>name = ''Adidas'', slug = ''adidas'', confidence = Fin (5 / 10),
                                boundingPoly = None, detectionIndex = None\<rparr>] None] \<and>
   list_all (dated exampleHost)
     [examplePhoto ''p2'' ''2021-01-01T00:00:00.000Z'' [nikeLogo (7/10), nikeLogo (9/10)] None,
      examplePhoto ''p1'' ''2020-01-01T00:00:00.000Z''
        [nikeLogo (8/10), \<lparr>name = ''Adidas'', slug = ''adidas'', confidence = Fin (5 / 10),
                            boundingPoly = None, detectionIndex = None\<rparr>] None] \<and>
   sortedByCreatedAtDesc exampleHost
     [examplePhoto ''p2'' ''2021-01-01T00:00:00.000Z'' [nikeLogo (7/10), nikeLogo (9/10)] None,
      examplePhoto ''p1'' ''2020-01-01T00:00:00.000Z''
        [nikeLogo (8/10), \<lparr>name = ''Adidas'', slug = ''adidas'', confidence = Fin (5 / 10),
                            boundingPoly = None, detectionIndex = None\<rparr>] None]"
proof -
  let ?res = "[examplePhoto ''p2'' ''2021-01-01T00:00:00.000Z'' [nikeLogo (7/10), nikeLogo (9/10)] None,
      examplePhoto ''p1'' ''2020-01-01T00:00:00.000Z''
        [nikeLogo (8/10), \<lparr>name = ''Adidas'', slug = ''adidas'', confidence = Fin (5 / 10),
                            boundingPoly = None, detectionIndex = None\<rparr>] None]"
  have r: "fst (fetchAllPhotos_decoupled exampleHost (exampleServices (tableServer exampleTables)) world0) =
     Inr ?res" by code_simp
  have d: "list_all (dated exampleHost) ?res" by code_simp
  show ?thesis
    using fetchAllPhotos_sorted_when_dated
            [of exampleHost "exampleServices (tableServer exampleTables)" world0 ?res] r d
    by blast
qed

section \<open>Confidences\<close>

lemma mapM_Inr:
  "mapM f xs = Inr ys \<Longrightarrow> y \<in> set ys \<Longrightarrow> \<exists>x\<in>set xs. f x = Inr y"
proof (induction xs arbitrary: ys)
  case Nil
  then show ?case by simp
next
  case (Cons x xs)
  then show ?case by (auto split: sum.splits)
qed

lemma numberOr0_finite: "isFinite (numberOr0 (asNumber h v))"
  using asNumber_finite [of h v]
  by (cases "asNumber h v") (auto simp: numberOr0_def)

lemma mapLogoMapping_finite: "mapLogoMapping h item = Inr d \<Longrightarrow> isFinite (confidence d)"
  using numberOr0_finite [of h "getField item ''confidence''"]
  by (auto simp: mapLogoMapping_def Let_def split: jsval.splits sum.splits)

lemma mapDetection_single_finite:
  "mapDetection_single h logo = Inr (Some d) \<Longrightarrow> isFinite (confidence d)"
  unfolding mapDetection_single_def Let_def
  by (auto simp: numberOr0_finite split: jsval.splits sum.splits if_splits)

lemma mapPhotoItem_single_finite: "mapPhotoItem_single h item = Inr p \<Longrightarrow> finiteLogos p"
proof -
  assume a: "mapPhotoItem_single h item = Inr p"
  then obtain detected where
    d: "(case getField item ''detections'' of JArr ds \<Rightarrow> mapM (mapDetection_single h) ds | _ \<Rightarrow> Inr []) = Inr detected"
    and l: "logos p = concat (map (\<lambda>d. case d of None \<Rightarrow> [] | Some l \<Rightarrow> [l]) detected)"
    by (auto simp: mapPhotoItem_single_def Let_def split: sum.splits)
  have "isFinite (confidence x)" if "Some x \<in> set detected" for x
  proof (cases "getField item ''detections''")
    case (JArr ds)
    then have "mapM (mapDetection_single h) ds = Inr detected" using d by simp
    from mapM_Inr [OF this that]
    obtain lg where "mapDetection_single h lg = Inr (Some x)" by blast
    then show ?thesis by (rule mapDetection_single_finite)
  qed (use d that in auto)
  then show ?thesis
    unfolding finiteLogos_def l list_all_iff by (auto split: option.splits)
qed

lemma groupLogos_finite:
  "groupLogos h items photos = Inr ps \<Longrightarrow> list_all finiteLogos photos \<Longrightarrow> list_all finiteLogos ps"
proof (induction items arbitrary: photos)
  case Nil
  then show ?case by simp
next
  case (Cons item items)
  show ?case
  proof (cases "truthy (asString h (getField item ''photoId''))")
    case False
    then show ?thesis using Cons by (simp add: Let_def)
  next
    case True
    show ?thesis
    proof (cases "photoIndex photos (the (asString h (getField item ''photoId'')))")
      case None
      then show ?thesis using Cons True by (simp add: Let_def)
    next
      case (Some i)
      show ?thesis
      proof (cases "mapLogoMapping h item")
        case (Inl e)
        then show ?thesis using Cons True Some by (simp add: Let_def)
      next
        case (Inr d)
        let ?photos' = "photos[i := (photos ! i)\<lparr>logos := logos (photos ! i) @ [d]\<rparr>]"
        have g: "groupLogos h items ?photos' = Inr ps"
          using Cons.prems(1) True Some Inr by (simp add: Let_def)
        have i: "i < length photos"
          using Some by (auto simp: photoIndex_def split: list.splits dest!: arg_cong [where f = set])
        have "finiteLogos (photos ! i)"
          using Cons.prems(2) i by (simp add: list_all_iff)
        then have "finiteLogos ((photos ! i)\<lparr>logos := logos (photos ! i) @ [d]\<rparr>)"
          using mapLogoMapping_finite [OF Inr] by (simp add: finiteLogos_def)
        then have "list_all finiteLogos ?photos'"
          using Cons.prems(2) by (auto simp: list_all_iff dest: set_update_subset_insert [THEN subsetD])
        then show ?thesis using Cons.IH [OF g] by simp
      qed
    qed
  qed
qed

lemma list_all_sort_js: "list_all P (sort_js cmp xs) = list_all P xs"
  by (simp add: list_all_iff set_sort_js)

lemma fetchAllPhotos_decoupled_finite:
  assumes "fst (fetchAllPhotos_decoupled h svc w) = Inr ps"
  shows "list_all finiteLogos ps"
proof -
  have init: "list_all finiteLogos (map (mapPhotoItem_decoupled h) items)" for items
    by (simp add: list_all_iff finiteLogos_def mapPhotoItem_decoupled_def Let_def)
  show ?thesis
    using assms groupLogos_finite [OF _ init]
    unfolding fetchAllPhotos_decoupled_def Let_def
    by (auto simp: list_all_sort_js split: if_splits sum.splits prod.splits)
qed

lemma fetchAllPhotos_single_finite:
  assumes "fst (fetchAllPhotos_single h svc w) = Inr ps"
  shows "list_all finiteLogos ps"
proof -
  from assms obtain items photos where
    m: "mapM (mapPhotoItem_single h) items = Inr photos" and r: "ps = sort_js (comparePhotos h) photos"
    unfolding fetchAllPhotos_single_def Let_def
    by (auto split: if_splits sum.splits prod.splits)
  have "finiteLogos p" if "p \<in> set photos" for p
    using mapM_Inr [OF m that] mapPhotoItem_single_finite by blast
  then have "list_all finiteLogos photos" by (simp add: list_all_iff)
  then show ?thesis by (simp add: r list_all_sort_js)
qed


lemma logosForPhoto_finite:
  assumes "logosForPhoto h items pid = Inr ls"
  shows "list_all (\<lambda>l. isFinite (confidence l)) ls"
  unfolding list_all_iff
proof
  fix l assume "l \<in> set ls"
  from mapM_Inr [OF assms [unfolded logosForPhoto_def] this]
  obtain item where "mapLogoMapping h item = Inr l" by blast
  then show "isFinite (confidence l)" by (rule mapLogoMapping_finite)
qed

lemma photoLogos_finite:
  assumes "mapM (\<lambda>pid. case logosForPhoto h items pid of Inl e \<Rightarrow> Inl e | Inr ls \<Rightarrow> Inr (pid, ls)) ids = Inr pl"
    and "(pid, ls) \<in> set pl"
  shows "list_all (\<lambda>l. isFinite (confidence l)) ls"
proof -
  from mapM_Inr [OF assms]
  obtain x where "(case logosForPhoto h items x of Inl e \<Rightarrow> Inl e | Inr ls \<Rightarrow> Inr (x, ls)) = Inr (pid, ls)"
    by blast
  then have "logosForPhoto h items pid = Inr ls" by (auto split: sum.splits)
  then show ?thesis by (rule logosForPhoto_finite)
qed

lemma buildRecords_decoupled_finite:
  assumes "\<And>pid ls. (pid, ls) \<in> set pl \<Longrightarrow> list_all (\<lambda>l. isFinite (confidence l)) ls"
  shows "list_all finiteLogos (buildRecords_decoupled ids pm pl conf)"
proof -
  have "list_all (\<lambda>l. isFinite (confidence l)) ls" if "mapOfEntries pl pid = Some ls" for pid ls
  proof -
    have "(pid, ls) \<in> set (rev pl)" using that unfolding mapOfEntries_def by (rule map_of_SomeD)
    then show ?thesis using assms by simp
  qed
  then show ?thesis
    by (induction ids)
       (auto simp: buildRecords_decoupled_def finiteLogos_def withMatchConfidence_def
             split: option.splits)
qed

lemma fetchPhotosByLogo_decoupled_finite:
  assumes "fst (fetchPhotosByLogo_decoupled h svc q w) = Inr res"
  shows "list_all finiteLogos res"
  using assms buildRecords_decoupled_finite [OF photoLogos_finite]
  unfolding fetchPhotosByLogo_decoupled_def Let_def
  by (auto split: if_splits sum.splits prod.splits)

lemma photoEntries_single_finite:
  "photoEntries_single h items = Inr entries \<Longrightarrow> (pid, p) \<in> set entries \<Longrightarrow> finiteLogos p"
proof (induction items arbitrary: entries)
  case Nil
  then show ?case by simp
next
  case (Cons item items)
  then show ?case
    by (auto simp: Let_def split: if_splits sum.splits dest: mapPhotoItem_single_finite)
qed

lemma buildRecords_single_finite:
  assumes "\<And>pid p. (pid, p) \<in> set entries \<Longrightarrow> finiteLogos p"
  shows "list_all finiteLogos (buildRecords_single ids (mapOfEntries entries) conf)"
proof -
  have "finiteLogos p" if "mapOfEntries entries pid = Some p" for pid p
  proof -
    have "(pid, p) \<in> set (rev entries)" using that unfolding mapOfEntries_def by (rule map_of_SomeD)
    then show ?thesis using assms by simp
  qed
  then show ?thesis
    by (induction ids)
       (auto simp: buildRecords_single_def finiteLogos_def withMatchConfidence_def
             split: option.splits)
qed

lemma fetchPhotosByLogo_single_finite:
  assumes "fst (fetchPhotosByLogo_single h svc q w) = Inr res"
  shows "list_all finiteLogos res"
  using assms buildRecords_single_finite [OF photoEntries_single_finite]
  unfolding fetchPhotosByLogo_single_def Let_def
  by (auto split: if_splits sum.splits prod.splits)

lemma maxConfidence_finite: "finiteMatch (p\<lparr>matchConfidence := maxConfidence f h items pid\<rparr>)"
  by (simp add: finiteMatch_def maxConfidence_def split: list.splits)

lemma dedupedWithMax_finiteMatch:
  assumes "dedupedWithMax f h items res"
  shows "list_all finiteMatch res"
proof -
  have "finiteMatch p" if "p \<in> set res" for p
  proof -
    have "matchConfidence p = maxConfidence f h items (photoId p)"
      using assms that unfolding dedupedWithMax_def list_all_iff by blast
    then show ?thesis
      by (simp add: finiteMatch_def maxConfidence_def split: list.splits)
  qed
  then show ?thesis by (simp add: list_all_iff)
qed

lemma toDetection_confidence:
  "dConfidence (toDetection a i) = (case score a of None \<Rightarrow> Fin 0 | Some s \<Rightarrow> s)"
  by (simp add: toDetection_def Let_def)

lemma detectLogosForKey_finite:
  assumes "fst (detectLogosForKey svc key w) = Inr ds"
    and "\<And>bytes as. logoDetection svc bytes = Inr (Some as) \<Longrightarrow> list_all finiteScore as"
  shows "list_all (\<lambda>d. isFinite (dConfidence d)) ds"
proof -
  from assms(1) obtain bytes result where
    r: "logoDetection svc bytes = Inr result"
    and ds: "ds = map (\<lambda>(a, i). toDetection a i)
               (zip (filter (\<lambda>a. truthy (description a)) (case result of None \<Rightarrow> [] | Some as \<Rightarrow> as))
                    [0..<length (filter (\<lambda>a. truthy (description a)) (case result of None \<Rightarrow> [] | Some as \<Rightarrow> as))])"
    unfolding detectLogosForKey_def Let_def
    by (auto split: sum.splits option.splits)
  have fin: "list_all finiteScore (case result of None \<Rightarrow> [] | Some as \<Rightarrow> as)"
    using r assms(2) by (cases result) auto
  have "isFinite (dConfidence (toDetection a i))" if "finiteScore a" for a i
    using that by (auto simp: toDetection_confidence finiteScore_def split: option.splits)
  then show ?thesis
    using fin unfolding ds list_all_iff by (auto dest!: set_zip_leftD)
qed

text \<open>
  Claim C6, amended. Every confidence that the repositories produce is a finite number:
  those of the detections that \<open>mapLogoMapping\<close> and the single table's
  \<open>mapPhotoItem\<close> build (a missing or non-numeric value becomes 0), those of the logos
  of every record that \<open>fetchAllPhotos\<close> and \<open>fetchPhotosByLogo\<close> return, and every
  match confidence. The ingestion scripts pass the score of the vision API on, with 0 for
  a missing score: the detections of \<open>detectLogosForKey\<close> have finite confidences when
  the scores that the API reports are finite.
\<close>

theorem confidences_finite:
  "(mapLogoMapping h item = Inr d \<longrightarrow> isFinite (confidence d)) \<and>
   (mapDetection_single h logo = Inr (Some d') \<longrightarrow> isFinite (confidence d')) \<and>
   (fst (fetchAllPhotos_decoupled h svc w) = Inr ps \<longrightarrow> list_all finiteLogos ps) \<and>
   (fst (fetchAllPhotos_single h svc w) = Inr ps' \<longrightarrow> list_all finiteLogos ps') \<and>
   (fst (fetchPhotosByLogo_decoupled h svc q w) = Inr res \<longrightarrow>
      list_all finiteLogos res \<and> list_all finiteMatch res) \<and>
   (fst (fetchPhotosByLogo_single h svc q w) = Inr res' \<longrightarrow>
      list_all finiteLogos res' \<and> list_all finiteMatch res') \<and>
   dConfidence (toDetection a i) = (case score a of None \<Rightarrow> Fin 0 | Some s \<Rightarrow> s) \<and>
   (fst (detectLogosForKey svc key w) = Inr ds \<and>
    (\<forall>bytes as. logoDetection svc bytes = Inr (Some as) \<longrightarrow> list_all finiteScore as) \<longrightarrow>
      list_all (\<lambda>d. isFinite (dConfidence d)) ds)"
proof (intro conjI impI)
  assume "mapLogoMapping h item = Inr d"
  then show "isFinite (confidence d)" by (rule mapLogoMapping_finite)
next
  assume "mapDetection_single h logo = Inr (Some d')"
  then show "isFinite (confidence d')" by (rule mapDetection_single_finite)
next
  assume "fst (fetchAllPhotos_decoupled h svc w) = Inr ps"
  then show "list_all finiteLogos ps" by (rule fetchAllPhotos_decoupled_finite)
next
  assume "fst (fetchAllPhotos_single h svc w) = Inr ps'"
  then show "list_all finiteLogos ps'" by (rule fetchAllPhotos_single_finite)
next
  assume "fst (fetchPhotosByLogo_decoupled h svc q w) = Inr res"
  then show "list_all finiteLogos res" and "list_all finiteMatch res"
    by (rule fetchPhotosByLogo_decoupled_finite,
        rule dedupedWithMax_finiteMatch [OF dedupedWithMax_decoupled])
next
  assume "fst (fetchPhotosByLogo_single h svc q w) = Inr res'"
  then show "list_all finiteLogos res'" and "list_all finiteMatch res'"
    by (rule fetchPhotosByLogo_single_finite,
        rule dedupedWithMax_finiteMatch [OF dedupedWithMax_single])
next
  show "dConfidence (toDetection a i) = (case score a of None \<Rightarrow> Fin 0 | Some s \<Rightarrow> s)"
    by (rule toDetection_confidence)
next
  assume "fst (detectLogosForKey svc key w) = Inr ds \<and>
    (\<forall>bytes as. logoDetection svc bytes = Inr (Some as) \<longrightarrow> list_all finiteScore as)"
  then show "list_all (\<lambda>d. isFinite (dConfidence d)) ds"
    using detectLogosForKey_finite [of svc key w ds] by blast
qed

text \<open>
  Claim C6 as stated fails: a score that is not a number is stored in the detection as
  it is.
\<close>

theorem confidences_finite_counterexample:
  "fst (detectLogosForKey nanServices ''photos/p1.jpg'' world0) = Inr [nikeDetection NaN] \<and>
   \<not> list_all (\<lambda>d. isFinite (dConfidence d)) [nikeDetection NaN]"
  by code_simp


theorem confidences_finite_witness:
  "mapLogoMapping exampleHost [(''logoSlug'', JStr ''nike''), (''logoName'', JStr ''Nike''),
      (''confidence'', JStr ''high'')] = Inr (nikeLogo 0) \<and>
   isFinite (confidence (nikeLogo 0)) \<and>
   mapDetection_single exampleHost (JObj [(''name'', JStr ''Nike''), (''score'', JStr ''high'')])
     = Inr (Some (nikeLogo 0)) \<and>
   list_all finiteLogos
     [examplePhoto ''a'' ''2020-01-01T00:00:00.000Z'' [] None, undatedPhoto ''b'',
      examplePhoto ''c'' ''2021-01-01T00:00:00.000Z'' [] None] \<and>
   list_all finiteLogos
     [examplePhoto ''p2'' ''2021-01-01T00:00:00.000Z'' [nikeLogo (7/10), nikeLogo (9/10)] (Some (Fin (9/10))),
      examplePhoto ''p1'' ''2020-01-01T00:00:00.000Z'' [nikeLogo (8/10)] (Some (Fin (8/10)))] \<and>
   list_all finiteMatch
     [examplePhoto ''p2'' ''2021-01-01T00:00:00.000Z'' [nikeLogo (7/10), nikeLogo (9/10)] (Some (Fin (9/10))),
      examplePhoto ''p1'' ''2020-01-01T00:00:00.000Z'' [nikeLogo (8/10)] (Some (Fin (8/10)))] \<and>
   list_all finiteMatch
     [examplePhoto ''p2'' ''2021-01-01T00:00:00.000Z'' [] (Some (Fin (9/10))),
      examplePhoto ''p1'' ''2020-01-01T00:00:00.000Z'' [] (Some (Fin (8/10)))] \<and>
   fst (detectLogosForKey (exampleServices (tableServer exampleTables)) ''photos/p1.jpg'' world0)
     = Inr [nikeDetection (Fin (9 / 10))] \<and>
   list_all (\<lambda>d. isFinite (dConfidence d)) [nikeDetection (Fin (9 / 10))]"
proof -
  have w1: "mapLogoMapping exampleHost [(''logoSlug'', JStr ''nike''), (''logoName'', JStr ''Nike''),
      (''confidence'', JStr ''high'')] = Inr (nikeLogo 0)"
    by code_simp
  have w2: "mapDetection_single exampleHost (JObj [(''name'', JStr ''Nike''), (''score'', JStr ''high'')])
     = Inr (Some (nikeLogo 0))"
    by code_simp
  have w3: "fst (fetchAllPhotos_single exampleHost (exampleServices (tableServer undatedTables)) world0) =
     Inr [examplePhoto ''a'' ''2020-01-01T00:00:00.000Z'' [] None, undatedPhoto ''b'',
          examplePhoto ''c'' ''2021-01-01T00:00:00.000Z'' [] None]"
    by code_simp
  have w4: "fst (detectLogosForKey (exampleServices (tableServer exampleTables)) ''photos/p1.jpg'' world0)
     = Inr [nikeDetection (Fin (9 / 10))]"
    by code_simp
  have w5: "\<forall>bytes as. logoDetection (exampleServices (tableServer exampleTables)) bytes = Inr (Some as)
              \<longrightarrow> list_all finiteScore as"
    by (auto simp: exampleServices_def finiteScore_def)
  note a = confidences_finite
      [where h = exampleHost and svc = "exampleServices (tableServer undatedTables)" and w = world0
         and item = "[(''logoSlug'', JStr ''nike''), (''logoName'', JStr ''Nike''), (''confidence'', JStr ''high'')]"
         and d = "nikeLogo 0"
         and logo = "JObj [(''name'', JStr ''Nike''), (''score'', JStr ''high'')]"
         and d' = "nikeLogo 0"
         and ps = "[examplePhoto ''a'' ''2020-01-01T00:00:00.000Z'' [] None, undatedPhoto ''b'',
                    examplePhoto ''c'' ''2021-01-01T00:00:00.000Z'' [] None]"
         and ps' = "[examplePhoto ''a'' ''2020-01-01T00:00:00.000Z'' [] None, undatedPhoto ''b'',
                     examplePhoto ''c'' ''2021-01-01T00:00:00.000Z'' [] None]"]
  note b = confidences_finite
      [where h = exampleHost and svc = "exampleServices (tableServer exampleTables)" and w = world0
         and q = "''  Nike ''" and key = "''photos/p1.jpg''"
         and res = "[examplePhoto ''p2'' ''2021-01-01T00:00:00.000Z'' [nikeLogo (7/10), nikeLogo (9/10)] (Some (Fin (9/10))),
                     examplePhoto ''p1'' ''2020-01-01T00:00:00.000Z'' [nikeLogo (8/10)] (Some (Fin (8/10)))]"
         and res' = "[examplePhoto ''p2'' ''2021-01-01T00:00:00.000Z'' [] (Some (Fin (9/10))),
                      examplePhoto ''p1'' ''2020-01-01T00:00:00.000Z'' [] (Some (Fin (8/10)))]"
         and ds = "[nikeDetection (Fin (9 / 10))]"]
  show ?thesis
    using a b w1 w2 w3 w4 w5 example_undated example_byLogo_decoupled example_byLogo_single
    by blast
qed


section \<open>Identifiers\<close>

lemma keyToPhotoId_trimmed:
  "keyToPhotoId h key = map (\<lambda>c. if isIdChar c then c else CHR ''-'') (removeExtension (trimmedKey h key))"
  by (simp add: keyToPhotoId_def trimmedKey_def Let_def)

lemma mapPhotoItem_decoupled_id:
  "getField item ''photoId'' = JStr s \<Longrightarrow> photoId (mapPhotoItem_decoupled h item) = s"
  by (simp add: mapPhotoItem_decoupled_def asString_def Let_def)

lemma mapPhotoItem_single_SK:
  "mapPhotoItem_single h item = Inr p \<Longrightarrow> getField item ''SK'' = JStr s \<Longrightarrow> photoId p = s"
  by (auto simp: mapPhotoItem_single_def asString_def orElse_def Let_def split: sum.splits)

lemma dedupedWithMax_nonempty:
  assumes "dedupedWithMax f h items res"
  shows "list_all (\<lambda>p. photoId p \<noteq> []) res"
  unfolding list_all_iff
proof
  fix p assume "p \<in> set res"
  then obtain m where "m \<in> set items" and "f m = Some (photoId p)"
    using dedupedWithMax_item [OF assms] by blast
  define ids where "ids = map photoId res"
  have eq: "ids = filter (\<lambda>pid. pid \<in> set ids) (firstOccurrences (mappingPhotoIds f items))"
    using assms unfolding dedupedWithMax_def ids_def by blast
  have "photoId p \<in> set ids" using \<open>p \<in> set res\<close> by (simp add: ids_def)
  then have "photoId p \<in> set (filter (\<lambda>pid. pid \<in> set ids) (firstOccurrences (mappingPhotoIds f items)))"
    using eq by metis
  then have "photoId p \<in> set (mappingPhotoIds f items)" by (simp add: firstOccurrences_def)
  then show "photoId p \<noteq> []" by (rule mappingPhotoIds_nonempty)
qed

lemma removeExtension_empty:
  "removeExtension t = [] \<longleftrightarrow> t = [] \<or> onlyExtension t"
proof -
  define P where "P = (\<lambda>c. c \<noteq> CHR ''.'' \<and> c \<noteq> CHR ''/'')"
  define e where "e = takeWhile P (rev t)"
  define r where "r = drop (length e) (rev t)"
  have re: "removeExtension t = (if e \<noteq> [] \<and> r \<noteq> [] \<and> hd r = CHR ''.'' then rev (tl r) else t)"
    unfolding removeExtension_def Let_def e_def r_def P_def ..
  have "e = take (length e) (rev t)" unfolding e_def by (rule takeWhile_eq_take)
  then have split: "rev t = e @ r" unfolding r_def by (metis append_take_drop_id)
  have pe: "list_all P e" unfolding e_def list_all_iff by (auto dest: set_takeWhileD)
  have oe: "onlyExtension t \<longleftrightarrow> (\<exists>ext. t = CHR ''.'' # ext \<and> ext \<noteq> [] \<and> list_all P ext)"
    unfolding onlyExtension_def P_def by (cases t) auto
  show ?thesis
  proof
    assume z: "removeExtension t = []"
    show "t = [] \<or> onlyExtension t"
    proof (cases "e \<noteq> [] \<and> r \<noteq> [] \<and> hd r = CHR ''.''")
      case False
      then have "removeExtension t = t" by (subst re) (rule if_not_P)
      then show ?thesis using z by simp
    next
      case True
      then have "rev (tl r) = []" using z re by simp
      then have "r = [CHR ''.'']" using True by (cases r) auto
      then have "rev (rev t) = rev (e @ [CHR ''.''])" using split by simp
      then have "t = CHR ''.'' # rev e" by simp
      moreover have "rev e \<noteq> []" using True by simp
      moreover have "list_all P (rev e)" using pe by (simp add: list_all_iff)
      ultimately show ?thesis using oe by blast
    qed
  next
    assume "t = [] \<or> onlyExtension t"
    then show "removeExtension t = []"
    proof
      assume "t = []"
      then show ?thesis by (simp add: removeExtension_def)
    next
      assume "onlyExtension t"
      then obtain ext where t: "t = CHR ''.'' # ext" and ne: "ext \<noteq> []" and pa: "list_all P ext"
        using oe by blast
      have rt: "rev t = rev ext @ [CHR ''.'']" using t by simp
      have np: "\<not> P (CHR ''.'')" by (simp add: P_def)
      have "takeWhile P (rev ext @ [CHR ''.'']) = rev ext @ takeWhile P [CHR ''.'']"
        by (rule takeWhile_append2) (use pa in \<open>simp add: list_all_iff\<close>)
      then have "takeWhile P (rev ext @ [CHR ''.'']) = rev ext"
        using np by simp
      then have e': "e = rev ext" unfolding e_def rt .
      have r': "r = [CHR ''.'']" unfolding r_def e' rt by simp
      show ?thesis unfolding re e' r' using ne by simp
    qed
  qed
qed

lemma keyToPhotoId_empty:
  "keyToPhotoId h key = [] \<longleftrightarrow> trimmedKey h key = [] \<or> onlyExtension (trimmedKey h key)"
  by (simp add: keyToPhotoId_trimmed removeExtension_empty)

lemma groupLogos_ids:
  "groupLogos h items photos = Inr ps \<Longrightarrow> map photoId ps = map photoId photos"
proof (induction items arbitrary: photos)
  case Nil
  then show ?case by simp
next
  case (Cons item items)
  show ?case
  proof (cases "truthy (asString h (getField item ''photoId''))")
    case False
    then show ?thesis using Cons by (simp add: Let_def)
  next
    case True
    show ?thesis
    proof (cases "photoIndex photos (the (asString h (getField item ''photoId'')))")
      case None
      then show ?thesis using Cons True by (simp add: Let_def)
    next
      case (Some i)
      show ?thesis
      proof (cases "mapLogoMapping h item")
        case (Inl e)
        then show ?thesis using Cons.prems True Some by (simp add: Let_def)
      next
        case (Inr detection)
        let ?photos = "photos[i := (photos ! i)\<lparr>logos := logos (photos ! i) @ [detection]\<rparr>]"
        have "groupLogos h items ?photos = Inr ps"
          using Cons.prems True Some Inr by (simp add: Let_def)
        then have "map photoId ps = map photoId ?photos" by (rule Cons.IH)
        also have "\<dots> = (map photoId photos)[i := photoId (photos ! i)]"
          by (simp add: map_update)
        also have "\<dots> = map photoId photos"
          by (cases "i < length photos") (simp_all add: list_update_same_conv list_update_beyond)
        finally show ?thesis .
      qed
    qed
  qed
qed

lemma holdsKey_JStr: "holdsKey attr item \<Longrightarrow> \<exists>s. getField item attr = JStr s \<and> s \<noteq> []"
  by (cases "getField item attr") (simp_all add: holdsKey_def)

lemma mapPhotoItem_decoupled_keyed:
  "holdsKey ''photoId'' item \<Longrightarrow> photoId (mapPhotoItem_decoupled h item) \<noteq> []"
  using holdsKey_JStr [of "''photoId''" item] mapPhotoItem_decoupled_id [of item _ h] by auto

lemma mapPhotoItem_single_keyed:
  "mapPhotoItem_single h item = Inr p \<Longrightarrow> holdsKey ''SK'' item \<Longrightarrow> photoId p \<noteq> []"
  using holdsKey_JStr [of "''SK''" item] mapPhotoItem_single_SK [of h item p] by auto

lemma fetchAllPhotos_decoupled_keyed:
  assumes r: "fst (fetchAllPhotos_decoupled h svc w) = Inr res"
    and k: "list_all (holdsKey ''photoId'') (scanned svc w (the (getenv h ''DYNAMO_PHOTOS_TABLE'')))"
  shows "list_all (\<lambda>p. photoId p \<noteq> []) res"
proof -
  define t where "t = the (getenv h ''DYNAMO_PHOTOS_TABLE'')"
  define t2 where "t2 = the (getenv h ''DYNAMO_PHOTO_LOGOS_TABLE'')"
  have env: "truthy (getenv h ''DYNAMO_PHOTOS_TABLE'')" "truthy (getenv h ''DYNAMO_PHOTO_LOGOS_TABLE'')"
    using r unfolding fetchAllPhotos_decoupled_def by (auto split: if_splits)
  obtain a1 w1 where s1: "send svc (ScanCommand t) w = (a1, w1)" by (cases "send svc (ScanCommand t) w")
  then have a1: "a1 = dynamo svc (length (sent w)) (ScanCommand t)" by (auto simp: send_def)
  show ?thesis
  proof (cases a1)
    case (Inl e)
    then have "fst (fetchAllPhotos_decoupled h svc w) = Inl e"
      using env s1 unfolding fetchAllPhotos_decoupled_def t_def by simp
    then show ?thesis using r by simp
  next
    case (Inr r1)
    define items where "items = itemsOrEmpty (Items r1)"
    have "dynamo svc (length (sent w)) (ScanCommand t) = Inr r1" using a1 Inr by simp
    then have sc: "scanned svc w t = items" by (simp add: scanned_def items_def)
    have ne: "\<forall>item\<in>set items. photoId (mapPhotoItem_decoupled h item) \<noteq> []"
      using k mapPhotoItem_decoupled_keyed unfolding t_def [symmetric] sc list_all_iff by blast
    show ?thesis
    proof (cases "items = []")
      case True
      then have "fst (fetchAllPhotos_decoupled h svc w) = Inr []"
        using env s1 Inr unfolding fetchAllPhotos_decoupled_def t_def items_def by simp
      then show ?thesis using r by simp
    next
      case False
      obtain a2 w2 where s2: "send svc (ScanCommand t2) w1 = (a2, w2)"
        by (cases "send svc (ScanCommand t2) w1")
      have run: "fst (fetchAllPhotos_decoupled h svc w) =
         (case a2 of
            Inl e \<Rightarrow> Inl e
          | Inr r2 \<Rightarrow>
              (case groupLogos h (itemsOrEmpty (Items r2)) (map (mapPhotoItem_decoupled h) items) of
                 Inl e \<Rightarrow> Inl e
               | Inr grouped \<Rightarrow> Inr (sort_js (comparePhotos h) grouped)))"
        using env s1 Inr False s2
        unfolding fetchAllPhotos_decoupled_def t_def t2_def items_def Let_def
        by (simp split: sum.splits)
      have "\<exists>(r2::response) grouped.
          groupLogos h (itemsOrEmpty (Items r2)) (map (mapPhotoItem_decoupled h) items) = Inr grouped \<and>
          res = sort_js (comparePhotos h) grouped"
      proof (cases a2)
        case (Inl e)
        then show ?thesis using r unfolding run by simp
      next
        case a: (Inr r2)
        show ?thesis
        proof (cases "groupLogos h (itemsOrEmpty (Items r2)) (map (mapPhotoItem_decoupled h) items)")
          case (Inl e)
          then show ?thesis using r a unfolding run by simp
        next
          case (Inr grouped)
          then have "res = sort_js (comparePhotos h) grouped" using r a unfolding run by simp
          then show ?thesis using Inr by blast
        qed
      qed
      then obtain r2 :: response and grouped where g: "groupLogos h (itemsOrEmpty (Items r2)) (map (mapPhotoItem_decoupled h) items) = Inr grouped"
        and res: "res = sort_js (comparePhotos h) grouped"
        by blast
      have ids: "map photoId grouped = map (\<lambda>item. photoId (mapPhotoItem_decoupled h item)) items"
        using groupLogos_ids [OF g] by (simp add: comp_def)
      have "photoId p \<noteq> []" if mem: "p \<in> set grouped" for p
      proof -
        have "photoId p \<in> set (map photoId grouped)" using mem by simp
        then have "photoId p \<in> set (map (\<lambda>item. photoId (mapPhotoItem_decoupled h item)) items)"
          unfolding ids .
        then show ?thesis using ne by auto
      qed
      then show ?thesis unfolding res list_all_iff set_sort_js by blast
    qed
  qed
qed

lemma fetchAllPhotos_single_keyed:
  assumes r: "fst (fetchAllPhotos_single h svc w) = Inr res"
    and t: "getTableName h ''photos'' = Inr t"
    and k: "list_all (holdsKey ''SK'') (scanned svc w t)"
  shows "list_all (\<lambda>p. photoId p \<noteq> []) res"
proof -
  obtain a1 w1 where s1: "send svc (ScanCommand t) w = (a1, w1)" by (cases "send svc (ScanCommand t) w")
  then have a1: "a1 = dynamo svc (length (sent w)) (ScanCommand t)" by (auto simp: send_def)
  have run: "fst (fetchAllPhotos_single h svc w) =
     (case a1 of
        Inl e \<Rightarrow> Inl e
      | Inr r1 \<Rightarrow>
          (case mapM (mapPhotoItem_single h) (itemsOrEmpty (Items r1)) of
             Inl e \<Rightarrow> Inl e
           | Inr photos \<Rightarrow> Inr (sort_js (comparePhotos h) photos)))"
    using t s1 unfolding fetchAllPhotos_single_def by (simp split: sum.splits)
  have "\<exists>(r1::response) photos. a1 = Inr r1 \<and>
      mapM (mapPhotoItem_single h) (itemsOrEmpty (Items r1)) = Inr photos \<and>
      res = sort_js (comparePhotos h) photos"
  proof (cases a1)
    case (Inl e)
    then show ?thesis using r unfolding run by simp
  next
    case a: (Inr r1)
    show ?thesis
    proof (cases "mapM (mapPhotoItem_single h) (itemsOrEmpty (Items r1))")
      case (Inl e)
      then show ?thesis using r a unfolding run by simp
    next
      case (Inr photos)
      then have "res = sort_js (comparePhotos h) photos" using r a unfolding run by simp
      then show ?thesis using Inr a by blast
    qed
  qed
  then obtain r1 :: response and photos where d: "a1 = Inr r1"
    and m: "mapM (mapPhotoItem_single h) (itemsOrEmpty (Items r1)) = Inr photos"
    and res: "res = sort_js (comparePhotos h) photos"
    by blast
  have "dynamo svc (length (sent w)) (ScanCommand t) = Inr r1" using d a1 by simp
  then have sc: "scanned svc w t = itemsOrEmpty (Items r1)" by (simp add: scanned_def)
  have "photoId p \<noteq> []" if mem: "p \<in> set photos" for p
  proof -
    obtain item where "item \<in> set (itemsOrEmpty (Items r1))" and "mapPhotoItem_single h item = Inr p"
      using mapM_Inr [OF m mem] by blast
    then show ?thesis using k mapPhotoItem_single_keyed unfolding sc list_all_iff by blast
  qed
  then show ?thesis unfolding res list_all_iff set_sort_js by blast
qed

text \<open>
  Claim C5, amended. \<open>keyToPhotoId\<close> gives the empty photo id exactly for the keys
  whose name after the prefix is empty or is nothing but an extension, and a non-empty
  photo id for every other key. Every record that \<open>fetchAllPhotos\<close> returns has a
  non-empty id when the scanned items hold the key attribute of their table as a string
  that is not empty, as the key schema of the table requires (\<open>photoId\<close> in the photos
  table, \<open>SK\<close> in the single table); and every record that \<open>fetchPhotosByLogo\<close>
  returns has a non-empty id.
\<close>

theorem identifiers_nonempty_when_keyed:
  "(keyToPhotoId h key = [] \<longleftrightarrow> trimmedKey h key = [] \<or> onlyExtension (trimmedKey h key)) \<and>
   (fst (fetchAllPhotos_decoupled h svc w) = Inr res \<and>
    list_all (holdsKey ''photoId'') (scanned svc w (the (getenv h ''DYNAMO_PHOTOS_TABLE''))) \<longrightarrow>
      list_all (\<lambda>p. photoId p \<noteq> []) res) \<and>
   (fst (fetchAllPhotos_single h svc w) = Inr resS \<and> getTableName h ''photos'' = Inr t \<and>
    list_all (holdsKey ''SK'') (scanned svc w t) \<longrightarrow>
      list_all (\<lambda>p. photoId p \<noteq> []) resS) \<and>
   (fst (fetchPhotosByLogo_decoupled h svc q w) = Inr byD \<longrightarrow> list_all (\<lambda>p. photoId p \<noteq> []) byD) \<and>
   (fst (fetchPhotosByLogo_single h svc q w) = Inr byS \<longrightarrow> list_all (\<lambda>p. photoId p \<noteq> []) byS)"
proof (intro conjI impI)
  show "keyToPhotoId h key = [] \<longleftrightarrow> trimmedKey h key = [] \<or> onlyExtension (trimmedKey h key)"
    by (rule keyToPhotoId_empty)
next
  assume "fst (fetchAllPhotos_decoupled h svc w) = Inr res \<and>
    list_all (holdsKey ''photoId'') (scanned svc w (the (getenv h ''DYNAMO_PHOTOS_TABLE'')))"
  then show "list_all (\<lambda>p. photoId p \<noteq> []) res"
    using fetchAllPhotos_decoupled_keyed by blast
next
  assume "fst (fetchAllPhotos_single h svc w) = Inr resS \<and> getTableName h ''photos'' = Inr t \<and>
    list_all (holdsKey ''SK'') (scanned svc w t)"
  then show "list_all (\<lambda>p. photoId p \<noteq> []) resS"
    using fetchAllPhotos_single_keyed by blast
next
  assume "fst (fetchPhotosByLogo_decoupled h svc q w) = Inr byD"
  then show "list_all (\<lambda>p. photoId p \<noteq> []) byD"
    by (rule dedupedWithMax_nonempty [OF dedupedWithMax_decoupled])
next
  assume "fst (fetchPhotosByLogo_single h svc q w) = Inr byS"
  then show "list_all (\<lambda>p. photoId p \<noteq> []) byS"
    by (rule dedupedWithMax_nonempty [OF dedupedWithMax_single])
qed

text \<open>
  Claim C5 as stated fails: the listing filter accepts the key \<open>photos/.jpg\<close>, whose
  whole name is taken for an extension, and its photo id is empty.
\<close>

theorem identifiers_nonempty_counterexample:
  "listingFilter (Some ''photos/.jpg'') \<and> keyToPhotoId exampleHost ''photos/.jpg'' = []"
  by code_simp

theorem identifiers_nonempty_when_keyed_witness:
  "keyToPhotoId exampleHost ''photos/summer trip/IMG 01.final.jpg'' = ''summer-trip-IMG-01-final'' \<and>
   trimmedKey exampleHost ''photos/summer trip/IMG 01.final.jpg'' = ''summer trip/IMG 01.final.jpg'' \<and>
   \<not> onlyExtension ''summer trip/IMG 01.final.jpg'' \<and>
   keyToPhotoId exampleHost ''photos/.hidden.jpg'' = ''-hidden'' \<and>
   \<not> onlyExtension (trimmedKey exampleHost ''photos/.hidden.jpg'') \<and>
   onlyExtension (trimmedKey exampleHost ''photos/.jpg'') \<and>
   keyToPhotoId exampleHost ''photos/.jpg'' = [] \<and>
   list_all (holdsKey ''photoId'')
     (scanned (exampleServices (tableServer exampleTables)) world0 ''photos'') \<and>
   map photoId (projr (fst (fetchAllPhotos_decoupled exampleHost
     (exampleServices (tableServer exampleTables)) world0))) = [''p2'', ''p1''] \<and>
   getTableName exampleHost ''photos'' = Inr ''index'' \<and>
   list_all (holdsKey ''SK'')
     (scanned (exampleServices (tableServer undatedTables)) world0 ''index'') \<and>
   list_all (\<lambda>p. photoId p \<noteq> [])
     [examplePhoto ''a'' ''2020-01-01T00:00:00.000Z'' [] None, undatedPhoto ''b'',
      examplePhoto ''c'' ''2021-01-01T00:00:00.000Z'' [] None] \<and>
   list_all (\<lambda>p. photoId p \<noteq> [])
     [examplePhoto ''p2'' ''2021-01-01T00:00:00.000Z'' [nikeLogo (7/10), nikeLogo (9/10)] (Some (Fin (9/10))),
      examplePhoto ''p1'' ''2020-01-01T00:00:00.000Z'' [nikeLogo (8/10)] (Some (Fin (8/10)))] \<and>
   list_all (\<lambda>p. photoId p \<noteq> [])
     [examplePhoto ''p2'' ''2021-01-01T00:00:00.000Z'' [] (Some (Fin (9/10))),
      examplePhoto ''p1'' ''2020-01-01T00:00:00.000Z'' [] (Some (Fin (8/10)))]"
proof -
  let ?all = "[examplePhoto ''p2'' ''2021-01-01T00:00:00.000Z''
            [nikeLogo (7/10), nikeLogo (9/10)] None,
          examplePhoto ''p1'' ''2020-01-01T00:00:00.000Z''
            [nikeLogo (8/10), \<lparr>name = ''Adidas'', slug = ''adidas'', confidence = Fin (5 / 10),
                                boundingPoly = None, detectionIndex = None\<rparr>] None]"
  let ?und = "[examplePhoto ''a'' ''2020-01-01T00:00:00.000Z'' [] None, undatedPhoto ''b'',
      examplePhoto ''c'' ''2021-01-01T00:00:00.000Z'' [] None]"
  have k1: "keyToPhotoId exampleHost ''photos/summer trip/IMG 01.final.jpg'' = ''summer-trip-IMG-01-final''"
    by code_simp
  have t1: "trimmedKey exampleHost ''photos/summer trip/IMG 01.final.jpg'' = ''summer trip/IMG 01.final.jpg''"
    by code_simp
  have k2: "keyToPhotoId exampleHost ''photos/.hidden.jpg'' = ''-hidden''" by code_simp
  have o3: "onlyExtension (trimmedKey exampleHost ''photos/.jpg'')" by code_simp
  have e: "the (getenv exampleHost ''DYNAMO_PHOTOS_TABLE'') = ''photos''" by code_simp
  have s1: "list_all (holdsKey ''photoId'')
     (scanned (exampleServices (tableServer exampleTables)) world0 ''photos'')" by code_simp
  have r1: "fst (fetchAllPhotos_decoupled exampleHost (exampleServices (tableServer exampleTables)) world0) =
     Inr ?all" by code_simp
  have g: "getTableName exampleHost ''photos'' = Inr ''index''" by code_simp
  have s2: "list_all (holdsKey ''SK'')
     (scanned (exampleServices (tableServer undatedTables)) world0 ''index'')" by code_simp
  have r2: "fst (fetchAllPhotos_single exampleHost (exampleServices (tableServer undatedTables)) world0) =
     Inr ?und" by code_simp
  note a = identifiers_nonempty_when_keyed
            [where h = exampleHost and key = "''photos/summer trip/IMG 01.final.jpg''"
               and svc = "exampleServices (tableServer exampleTables)" and w = world0
               and q = "''  Nike ''" and res = ?all
               and byD = "[examplePhoto ''p2'' ''2021-01-01T00:00:00.000Z'' [nikeLogo (7/10), nikeLogo (9/10)] (Some (Fin (9/10))),
                  examplePhoto ''p1'' ''2020-01-01T00:00:00.000Z'' [nikeLogo (8/10)] (Some (Fin (8/10)))]"
               and byS = "[examplePhoto ''p2'' ''2021-01-01T00:00:00.000Z'' [] (Some (Fin (9/10))),
                  examplePhoto ''p1'' ''2020-01-01T00:00:00.000Z'' [] (Some (Fin (8/10)))]",
             unfolded e]
  note b = identifiers_nonempty_when_keyed
            [where h = exampleHost and key = "''photos/.hidden.jpg''"
               and svc = "exampleServices (tableServer undatedTables)" and w = world0
               and resS = ?und and t = "''index''"]
  note c = identifiers_nonempty_when_keyed
            [where h = exampleHost and key = "''photos/.jpg''"]
  have a1: "\<not> onlyExtension ''summer trip/IMG 01.final.jpg''"
    using a k1 t1 by auto
  have a2: "list_all (\<lambda>p. photoId p \<noteq> []) ?all" using a r1 s1 by blast
  have a3: "map photoId (projr (fst (fetchAllPhotos_decoupled exampleHost
     (exampleServices (tableServer exampleTables)) world0))) = [''p2'', ''p1'']"
    unfolding r1 by (simp add: examplePhoto_def)
  have a4: "list_all (\<lambda>p. photoId p \<noteq> [])
     [examplePhoto ''p2'' ''2021-01-01T00:00:00.000Z'' [nikeLogo (7/10), nikeLogo (9/10)] (Some (Fin (9/10))),
      examplePhoto ''p1'' ''2020-01-01T00:00:00.000Z'' [nikeLogo (8/10)] (Some (Fin (8/10)))]"
    using a example_byLogo_decoupled by blast
  have a5: "list_all (\<lambda>p. photoId p \<noteq> [])
     [examplePhoto ''p2'' ''2021-01-01T00:00:00.000Z'' [] (Some (Fin (9/10))),
      examplePhoto ''p1'' ''2020-01-01T00:00:00.000Z'' [] (Some (Fin (8/10)))]"
    using a example_byLogo_single by blast
  have b1: "\<not> onlyExtension (trimmedKey exampleHost ''photos/.hidden.jpg'')"
    using b k2 by auto
  have b2: "list_all (\<lambda>p. photoId p \<noteq> []) ?und" using b r2 g s2 by blast
  have c1: "keyToPhotoId exampleHost ''photos/.jpg'' = []" using c o3 by blast
  show ?thesis using k1 t1 a1 k2 b1 o3 c1 s1 a3 g s2 b2 a4 a5 by blast
qed

section \<open>The retry loop\<close>

lemma send_simps:
  "fst (send svc c w) = dynamo svc (length (sent w)) c"
  "sent (snd (send svc c w)) = sent w @ [c]"
  "fetched (snd (send svc c w)) = fetched w"
  "console (snd (send svc c w)) = console w"
  by (simp_all add: send_def)

lemma writeConsole_simps:
  "sent (writeConsole l m w) = sent w"
  "fetched (writeConsole l m w) = fetched w"
  "console (writeConsole l m w) = console w @ [(l, m)]"
  by (simp_all add: writeConsole_def)

lemma retryLoop_sent:
  "\<exists>cs. sent (snd (retryLoop fuel svc t reqs w)) = sent w @ cs \<and>
        resubmits svc t (length (sent w)) reqs cs"
proof (induction fuel arbitrary: reqs w)
  case 0
  then show ?case by simp
next
  case (Suc fuel)
  let ?c = "BatchWriteCommand t reqs"
  let ?w1 = "snd (send svc ?c w)"
  show ?case
  proof (cases "dynamo svc (length (sent w)) ?c")
    case (Inl e)
    then have "sent (snd (retryLoop (Suc fuel) svc t reqs w)) = sent w @ [?c]"
      by (simp add: send_def)
    moreover have "resubmits svc t (length (sent w)) reqs [?c]" using Inl by simp
    ultimately show ?thesis by blast
  next
    case (Inr r)
    show ?thesis
    proof (cases "unprocessedFor r t = []")
      case True
      then have "sent (snd (retryLoop (Suc fuel) svc t reqs w)) = sent w @ [?c]"
        using Inr by (simp add: send_def)
      moreover have "resubmits svc t (length (sent w)) reqs [?c]" using Inr True by simp
      ultimately show ?thesis by blast
    next
      case False
      let ?w2 = "writeConsole Warn [T ''Retrying '', N (length (unprocessedFor r t)),
                   T '' unprocessed mapping writes...''] ?w1"
      have run: "retryLoop (Suc fuel) svc t reqs w = retryLoop fuel svc t (unprocessedFor r t) ?w2"
        using Inr False by (simp add: send_def Let_def)
      have s2: "sent ?w2 = sent w @ [?c]" by (simp add: send_simps writeConsole_simps)
      from Suc.IH [of "unprocessedFor r t" ?w2]
      obtain cs where cs: "sent (snd (retryLoop fuel svc t (unprocessedFor r t) ?w2)) = sent ?w2 @ cs"
        and rs: "resubmits svc t (length (sent ?w2)) (unprocessedFor r t) cs"
        by blast
      have "sent (snd (retryLoop (Suc fuel) svc t reqs w)) = sent w @ (?c # cs)"
        using run cs s2 by simp
      moreover have "resubmits svc t (length (sent w)) reqs (?c # cs)"
        using rs s2 Inr False by simp
      ultimately show ?thesis by blast
    qed
  qed
qed

lemma retryLoop_issued:
  "resubmits svc t (length (sent w)) reqs (issued w (snd (retryLoop fuel svc t reqs w)))"
  using retryLoop_sent [of fuel svc t reqs w] by (auto simp: issued_def)

lemma retryLoop_first:
  "issued w (snd (retryLoop (Suc fuel) svc t reqs w)) \<noteq> [] \<and>
   hd (issued w (snd (retryLoop (Suc fuel) svc t reqs w))) = BatchWriteCommand t reqs"
proof -
  obtain r w1 where s: "send svc (BatchWriteCommand t reqs) w = (r, w1)" by (cases "send svc (BatchWriteCommand t reqs) w")
  then have w1: "sent w1 = sent w @ [BatchWriteCommand t reqs]" by (auto simp: send_def)
  show ?thesis
  proof (cases r)
    case (Inl e)
    then show ?thesis using s w1 by (simp add: issued_def)
  next
    case (Inr resp)
    let ?w2 = "writeConsole Warn [T ''Retrying '', N (length (unprocessedFor resp t)),
                   T '' unprocessed mapping writes...''] w1"
    from retryLoop_sent [of fuel svc t "unprocessedFor resp t" ?w2]
    obtain cs where "sent (snd (retryLoop fuel svc t (unprocessedFor resp t) ?w2)) = sent ?w2 @ cs"
      by blast
    then show ?thesis
      using s w1 Inr by (auto simp: issued_def Let_def writeConsole_simps)
  qed
qed

lemma retryLoop_terminates:
  assumes "\<forall>reqs. \<exists>r. dynamo svc (length (sent w) + k) (BatchWriteCommand t reqs) = Inr r \<and>
             unprocessedFor r t = []"
    and "k < fuel"
  shows "fst (retryLoop fuel svc t reqs w) \<noteq> None"
  using assms
proof (induction k arbitrary: fuel reqs w)
  case 0
  then obtain f where f: "fuel = Suc f" by (cases fuel) auto
  from 0 obtain r where "dynamo svc (length (sent w)) (BatchWriteCommand t reqs) = Inr r"
    and "unprocessedFor r t = []" by force
  then show ?case unfolding f by (simp add: send_def)
next
  case (Suc k)
  then obtain f where f: "fuel = Suc f" and kf: "k < f" by (cases fuel) auto
  let ?c = "BatchWriteCommand t reqs"
  show ?case
  proof (cases "dynamo svc (length (sent w)) ?c")
    case (Inl e)
    then show ?thesis unfolding f by (simp add: send_def)
  next
    case (Inr r)
    show ?thesis
    proof (cases "unprocessedFor r t = []")
      case True
      then show ?thesis unfolding f using Inr by (simp add: send_def)
    next
      case False
      let ?w2 = "writeConsole Warn [T ''Retrying '', N (length (unprocessedFor r t)),
                   T '' unprocessed mapping writes...''] (snd (send svc ?c w))"
      have run: "retryLoop (Suc f) svc t reqs w = retryLoop f svc t (unprocessedFor r t) ?w2"
        using Inr False by (simp add: send_def Let_def)
      have len: "length (sent ?w2) + k = length (sent w) + Suc k"
        by (simp add: send_simps writeConsole_simps)
      have pre: "\<forall>reqs. \<exists>r. dynamo svc (length (sent ?w2) + k) (BatchWriteCommand t reqs) = Inr r \<and>
             unprocessedFor r t = []"
        unfolding len using Suc.prems(1) .
      have "fst (retryLoop f svc t (unprocessedFor r t) ?w2) \<noteq> None"
        by (rule Suc.IH [OF pre kf])
      then show ?thesis unfolding f run .
    qed
  qed
qed

lemma accepted_mono:
  assumes "accepted svc t lo cmds req" and "lo' \<le> lo"
  shows "accepted svc t lo' (cmds @ rest) req"
proof -
  from assms(1) obtain j where j: "j \<in> {lo..<length cmds}"
    and c: "carries t req (cmds ! j)"
    and a: "(case dynamo svc j (cmds ! j) of Inl e \<Rightarrow> False | Inr r \<Rightarrow> req \<notin> set (unprocessedFor r t))"
    unfolding accepted_def by blast
  have n: "(cmds @ rest) ! j = cmds ! j" using j by (simp add: nth_append)
  have "j \<in> {lo'..<length (cmds @ rest)}" using j assms(2) by auto
  then show ?thesis unfolding accepted_def using c a n by metis
qed

lemma retryLoop_result:
  "retryLoop fuel svc t reqs w = (res, w') \<Longrightarrow>
   (\<exists>cs. sent w' = sent w @ cs \<and> length cs \<le> fuel \<and>
     (res = None \<longrightarrow> length cs = fuel \<and>
        (fuel \<noteq> 0 \<longrightarrow> (\<exists>r. lastAnswer svc w w' = Some (Inr r) \<and> unprocessedFor r t \<noteq> []))) \<and>
     (\<forall>e. res = Some (Inl e) \<longrightarrow> lastAnswer svc w w' = Some (Inl e)) \<and>
     (res = Some (Inr ()) \<longrightarrow>
        (\<exists>r. lastAnswer svc w w' = Some (Inr r) \<and> unprocessedFor r t = []) \<and>
        (\<forall>req\<in>set reqs. accepted svc t (length (sent w)) (sent w') req)))"
proof (induction fuel arbitrary: reqs w)
  case 0
  then show ?case by (simp add: lastAnswer_def issued_def)
next
  case (Suc fuel)
  let ?c = "BatchWriteCommand t reqs"
  let ?n = "length (sent w)"
  show ?case
  proof (cases "dynamo svc ?n ?c")
    case (Inl e)
    then have r: "res = Some (Inl e)" and w': "w' = w\<lparr>sent := sent w @ [?c]\<rparr>"
      using Suc.prems by (simp_all add: send_def)
    have "lastAnswer svc w w' = Some (Inl e)" using Inl by (simp add: w' lastAnswer_def issued_def)
    then show ?thesis using r w' by simp
  next
    case (Inr r)
    show ?thesis
    proof (cases "unprocessedFor r t = []")
      case True
      then have res: "res = Some (Inr ())" and w': "w' = w\<lparr>sent := sent w @ [?c]\<rparr>"
        using Suc.prems Inr by (simp_all add: send_def)
      have la: "lastAnswer svc w w' = Some (Inr r)" using Inr by (simp add: w' lastAnswer_def issued_def)
      have acc: "\<forall>req\<in>set reqs. accepted svc t ?n (sent w') req"
        unfolding accepted_def w' using Inr True by (auto intro!: bexI [of _ ?n])
      show ?thesis using res la True acc w' by simp
    next
      case False
      let ?w2 = "writeConsole Warn [T ''Retrying '', N (length (unprocessedFor r t)),
                   T '' unprocessed mapping writes...''] (snd (send svc ?c w))"
      have run: "retryLoop (Suc fuel) svc t reqs w = retryLoop fuel svc t (unprocessedFor r t) ?w2"
        using Inr False by (simp add: send_def Let_def)
      have s2: "sent ?w2 = sent w @ [?c]" by (simp add: send_simps writeConsole_simps)
      have rec: "retryLoop fuel svc t (unprocessedFor r t) ?w2 = (res, w')"
        using Suc.prems run by simp
      from Suc.IH [OF rec] obtain cs where cs: "sent w' = sent ?w2 @ cs" and len: "length cs \<le> fuel"
        and none: "res = None \<longrightarrow> length cs = fuel \<and>
            (fuel \<noteq> 0 \<longrightarrow> (\<exists>r. lastAnswer svc ?w2 w' = Some (Inr r) \<and> unprocessedFor r t \<noteq> []))"
        and inl: "\<forall>e. res = Some (Inl e) \<longrightarrow> lastAnswer svc ?w2 w' = Some (Inl e)"
        and inr: "res = Some (Inr ()) \<longrightarrow>
            (\<exists>r. lastAnswer svc ?w2 w' = Some (Inr r) \<and> unprocessedFor r t = []) \<and>
            (\<forall>req\<in>set (unprocessedFor r t). accepted svc t (length (sent ?w2)) (sent w') req)"
        by blast
      have sw: "sent w' = sent w @ (?c # cs)" using cs s2 by simp
      have la: "lastAnswer svc ?w2 w' = Some a \<Longrightarrow> lastAnswer svc w w' = Some a" for a
        unfolding lastAnswer_def issued_def sw s2 by (simp split: if_splits)
      have la0: "cs = [] \<Longrightarrow> lastAnswer svc w w' = Some (Inr r)"
        unfolding lastAnswer_def issued_def sw using Inr by simp
      have c1: "res = None \<longrightarrow> length (?c # cs) = Suc fuel \<and>
            (\<exists>r. lastAnswer svc w w' = Some (Inr r) \<and> unprocessedFor r t \<noteq> [])"
      proof
        assume n: "res = None"
        show "length (?c # cs) = Suc fuel \<and>
            (\<exists>r. lastAnswer svc w w' = Some (Inr r) \<and> unprocessedFor r t \<noteq> [])"
        proof (cases fuel)
          case 0
          then have "cs = []" using len by simp
          then show ?thesis using la0 False 0 by auto
        next
          case (Suc f)
          then show ?thesis using none n la by auto
        qed
      qed
      have c2: "\<forall>e. res = Some (Inl e) \<longrightarrow> lastAnswer svc w w' = Some (Inl e)"
        using inl la by blast
      have c3a: "res = Some (Inr ()) \<longrightarrow> (\<exists>r. lastAnswer svc w w' = Some (Inr r) \<and> unprocessedFor r t = [])"
        using inr la by blast
      have c3b: "res = Some (Inr ()) \<longrightarrow> (\<forall>req\<in>set reqs. accepted svc t ?n (sent w') req)"
      proof (intro impI ballI)
        fix req assume ok: "res = Some (Inr ())" and req: "req \<in> set reqs"
        show "accepted svc t ?n (sent w') req"
        proof (cases "req \<in> set (unprocessedFor r t)")
          case True
          then have "accepted svc t (length (sent ?w2)) (sent w') req" using inr ok by blast
          then have "accepted svc t ?n (sent w' @ []) req"
            by (rule accepted_mono) (simp add: s2)
          then show ?thesis by simp
        next
          case False
          have "?n \<in> {?n..<length (sent w')}" unfolding sw by simp
          moreover have "sent w' ! ?n = ?c" unfolding sw by simp
          ultimately show ?thesis unfolding accepted_def using Inr False req
            by (intro bexI [of _ ?n]) simp_all
        qed
      qed
      show ?thesis using sw len c1 c2 c3a c3b by (intro exI [of _ "?c # cs"]) simp
    qed
  qed
qed

lemma retryLoop_running:
  "retryLoop fuel svc t reqs w = (None, w') \<Longrightarrow>
   \<forall>j<fuel. \<exists>r. dynamo svc (length (sent w) + j) (sent w' ! (length (sent w) + j)) = Inr r \<and>
                unprocessedFor r t \<noteq> []"
proof (induction fuel arbitrary: reqs w)
  case 0
  then show ?case by simp
next
  case (Suc fuel)
  let ?c = "BatchWriteCommand t reqs"
  let ?n = "length (sent w)"
  show ?case
  proof (cases "dynamo svc ?n ?c")
    case (Inl e)
    then show ?thesis using Suc.prems by (simp add: send_def)
  next
    case (Inr r)
    show ?thesis
    proof (cases "unprocessedFor r t = []")
      case True
      then show ?thesis using Suc.prems Inr by (simp add: send_def)
    next
      case False
      let ?w2 = "writeConsole Warn [T ''Retrying '', N (length (unprocessedFor r t)),
                   T '' unprocessed mapping writes...''] (snd (send svc ?c w))"
      have run: "retryLoop (Suc fuel) svc t reqs w = retryLoop fuel svc t (unprocessedFor r t) ?w2"
        using Inr False by (simp add: send_def Let_def)
      have s2: "sent ?w2 = sent w @ [?c]" by (simp add: send_simps writeConsole_simps)
      have rec: "retryLoop fuel svc t (unprocessedFor r t) ?w2 = (None, w')"
        using Suc.prems run by simp
      obtain cs where cs: "sent w' = sent ?w2 @ cs"
        using retryLoop_sent [of fuel svc t "unprocessedFor r t" ?w2] rec by auto
      have sw: "sent w' = sent w @ ?c # cs" using cs s2 by simp
      have ih: "\<forall>j<fuel. \<exists>r. dynamo svc (length (sent ?w2) + j) (sent w' ! (length (sent ?w2) + j)) = Inr r \<and>
                unprocessedFor r t \<noteq> []"
        by (rule Suc.IH [OF rec])
      show ?thesis
      proof (intro allI impI)
        fix j assume j: "j < Suc fuel"
        show "\<exists>r. dynamo svc (?n + j) (sent w' ! (?n + j)) = Inr r \<and> unprocessedFor r t \<noteq> []"
        proof (cases j)
          case 0
          have "sent w' ! ?n = ?c" unfolding sw by simp
          then show ?thesis using 0 Inr False by simp
        next
          case (Suc i)
          then have "i < fuel" using j by simp
          then obtain r' where "dynamo svc (length (sent ?w2) + i) (sent w' ! (length (sent ?w2) + i)) = Inr r'"
            and "unprocessedFor r' t \<noteq> []" using ih by blast
          moreover have "length (sent ?w2) + i = ?n + j" using Suc s2 by simp
          ultimately show ?thesis by auto
        qed
      qed
    qed
  qed
qed

lemma retryLoop_clean:
  "retryLoop fuel svc t reqs w = (res, w') \<Longrightarrow> j < length (issued w w') \<Longrightarrow>
   dynamo svc (length (sent w) + j) (issued w w' ! j) = Inr r \<Longrightarrow> unprocessedFor r t = [] \<Longrightarrow>
   res = Some (Inr ())"
proof (induction fuel arbitrary: reqs w j)
  case 0
  then show ?case by (simp add: issued_def)
next
  case (Suc fuel)
  let ?c = "BatchWriteCommand t reqs"
  let ?n = "length (sent w)"
  show ?case
  proof (cases "dynamo svc ?n ?c")
    case (Inl e)
    then have w': "w' = w\<lparr>sent := sent w @ [?c]\<rparr>" using Suc.prems(1) by (simp add: send_def)
    then have "issued w w' = [?c]" by (simp add: issued_def)
    then show ?thesis using Suc.prems(2,3) Inl by simp
  next
    case (Inr r0)
    show ?thesis
    proof (cases "unprocessedFor r0 t = []")
      case True
      then show ?thesis using Suc.prems(1) Inr by (simp add: send_def)
    next
      case False
      let ?w2 = "writeConsole Warn [T ''Retrying '', N (length (unprocessedFor r0 t)),
                   T '' unprocessed mapping writes...''] (snd (send svc ?c w))"
      have run: "retryLoop (Suc fuel) svc t reqs w = retryLoop fuel svc t (unprocessedFor r0 t) ?w2"
        using Inr False by (simp add: send_def Let_def)
      have s2: "sent ?w2 = sent w @ [?c]" by (simp add: send_simps writeConsole_simps)
      have rec: "retryLoop fuel svc t (unprocessedFor r0 t) ?w2 = (res, w')"
        using Suc.prems(1) run by simp
      obtain cs where cs: "sent w' = sent ?w2 @ cs"
        using retryLoop_sent [of fuel svc t "unprocessedFor r0 t" ?w2] rec by auto
      have i1: "issued w w' = ?c # cs" by (simp add: issued_def cs s2)
      have i2: "issued ?w2 w' = cs" by (simp add: issued_def cs)
      show ?thesis
      proof (cases j)
        case 0
        then have "dynamo svc ?n ?c = Inr r" using Suc.prems(3) i1 by simp
        then show ?thesis using Inr False Suc.prems(4) by simp
      next
        case (Suc i)
        have a: "i < length (issued ?w2 w')" using Suc.prems(2) Suc i1 i2 by simp
        have b: "dynamo svc (length (sent ?w2) + i) (issued ?w2 w' ! i) = Inr r"
          using Suc.prems(3) Suc i1 i2 s2 by simp
        show ?thesis by (rule Suc.IH [OF rec a b Suc.prems(4)])
      qed
    qed
  qed
qed

text \<open>
  Claim C8. An empty batch sends nothing. The commands of \<open>writeMappingBatch\<close> are
  the batch write of the whole batch and then, each time, the batch write of exactly the
  requests that the answer before reported as unprocessed. The function returns only
  after an answer that reports no unprocessed request, and then every request of the
  batch was carried by a batch write whose answer did not report it as unprocessed; it
  throws only the rejection of its last command; and when it is still running after
  \<open>fuel\<close> rounds, every one of its commands was answered with unprocessed requests.
  As soon as an answer reports no unprocessed request, the function has returned; and
  when the answer to the \<open>k\<close>-th command from the start reports no unprocessed request,
  whatever is submitted, the function returns or throws within \<open>k + 1\<close> rounds.
\<close>

theorem writeMappingBatch_retry:
  "writeMappingBatch fuel svc [] t w = (Some (Inr ()), w) \<and>
   resubmits svc t (length (sent w)) batch (issued w (snd (writeMappingBatch fuel svc batch t w))) \<and>
   (batch \<noteq> [] \<and> fuel \<noteq> 0 \<longrightarrow>
      issued w (snd (writeMappingBatch fuel svc batch t w)) \<noteq> [] \<and>
      hd (issued w (snd (writeMappingBatch fuel svc batch t w))) = BatchWriteCommand t batch) \<and>
   (batch \<noteq> [] \<and> fst (writeMappingBatch fuel svc batch t w) = Some (Inr ()) \<longrightarrow>
      (\<exists>r. lastAnswer svc w (snd (writeMappingBatch fuel svc batch t w)) = Some (Inr r) \<and>
           unprocessedFor r t = []) \<and>
      (\<forall>req\<in>set batch.
         accepted svc t (length (sent w)) (sent (snd (writeMappingBatch fuel svc batch t w))) req)) \<and>
   (fst (writeMappingBatch fuel svc batch t w) = Some (Inl e) \<longrightarrow>
      lastAnswer svc w (snd (writeMappingBatch fuel svc batch t w)) = Some (Inl e)) \<and>
   (fst (writeMappingBatch fuel svc batch t w) = None \<longrightarrow>
      batch \<noteq> [] \<and> length (issued w (snd (writeMappingBatch fuel svc batch t w))) = fuel \<and>
      (\<forall>j<fuel. \<exists>r.
         dynamo svc (length (sent w) + j) (issued w (snd (writeMappingBatch fuel svc batch t w)) ! j) = Inr r \<and>
         unprocessedFor r t \<noteq> [])) \<and>
   (i < length (issued w (snd (writeMappingBatch fuel svc batch t w))) \<and>
    dynamo svc (length (sent w) + i) (issued w (snd (writeMappingBatch fuel svc batch t w)) ! i) = Inr a \<and>
    unprocessedFor a t = [] \<longrightarrow>
      fst (writeMappingBatch fuel svc batch t w) = Some (Inr ())) \<and>
   ((\<forall>reqs. \<exists>r. dynamo svc (length (sent w) + k) (BatchWriteCommand t reqs) = Inr r \<and>
                  unprocessedFor r t = []) \<and> k < fuel \<longrightarrow>
      fst (writeMappingBatch fuel svc batch t w) \<noteq> None)"
proof (cases "batch = []")
  case True
  then show ?thesis by (simp add: writeMappingBatch_def issued_def)
next
  case False
  then have run: "writeMappingBatch fuel svc batch t w = retryLoop fuel svc t batch w"
    by (simp add: writeMappingBatch_def)
  obtain res w' where rl: "retryLoop fuel svc t batch w = (res, w')"
    by (cases "retryLoop fuel svc t batch w")
  from retryLoop_result [OF rl] obtain cs where cs: "sent w' = sent w @ cs"
    and none: "res = None \<longrightarrow> length cs = fuel \<and>
        (fuel \<noteq> 0 \<longrightarrow> (\<exists>r. lastAnswer svc w w' = Some (Inr r) \<and> unprocessedFor r t \<noteq> []))"
    and inl: "\<forall>e. res = Some (Inl e) \<longrightarrow> lastAnswer svc w w' = Some (Inl e)"
    and inr: "res = Some (Inr ()) \<longrightarrow>
        (\<exists>r. lastAnswer svc w w' = Some (Inr r) \<and> unprocessedFor r t = []) \<and>
        (\<forall>req\<in>set batch. accepted svc t (length (sent w)) (sent w') req)"
    by blast
  have iss: "issued w w' = cs" by (simp add: issued_def cs)
  have 1: "writeMappingBatch fuel svc [] t w = (Some (Inr ()), w)"
    by (simp add: writeMappingBatch_def)
  have 2: "resubmits svc t (length (sent w)) batch (issued w w')"
    using retryLoop_issued [of svc t w batch fuel] rl by simp
  have 3: "fuel \<noteq> 0 \<longrightarrow> issued w w' \<noteq> [] \<and> hd (issued w w') = BatchWriteCommand t batch"
  proof
    assume "fuel \<noteq> 0"
    then obtain f where "fuel = Suc f" by (cases fuel) auto
    then show "issued w w' \<noteq> [] \<and> hd (issued w w') = BatchWriteCommand t batch"
      using retryLoop_first [of w f svc t batch] rl by simp
  qed
  have 7: "(\<forall>reqs. \<exists>r. dynamo svc (length (sent w) + k) (BatchWriteCommand t reqs) = Inr r \<and>
                  unprocessedFor r t = []) \<and> k < fuel \<longrightarrow> res \<noteq> None"
    using retryLoop_terminates [of svc w k t fuel batch] rl by auto
  have 6: "res = None \<longrightarrow>
      (\<forall>j<fuel. \<exists>r. dynamo svc (length (sent w) + j) (issued w w' ! j) = Inr r \<and>
                   unprocessedFor r t \<noteq> [])"
  proof
    assume "res = None"
    then have "\<forall>j<fuel. \<exists>r. dynamo svc (length (sent w) + j) (sent w' ! (length (sent w) + j)) = Inr r \<and>
                unprocessedFor r t \<noteq> []"
      using retryLoop_running [of fuel svc t batch w w'] rl by simp
    then show "\<forall>j<fuel. \<exists>r. dynamo svc (length (sent w) + j) (issued w w' ! j) = Inr r \<and>
                   unprocessedFor r t \<noteq> []"
      unfolding iss cs by simp
  qed
  have 8: "i < length (issued w w') \<and>
      dynamo svc (length (sent w) + i) (issued w w' ! i) = Inr a \<and> unprocessedFor a t = [] \<longrightarrow>
      res = Some (Inr ())"
    using retryLoop_clean [OF rl] by blast
  show ?thesis
    unfolding run rl fst_conv snd_conv
    using 1 2 3 6 7 8 none inl inr False iss by simp
qed

theorem writeMappingBatch_retry_witness:
  "writeMappingBatch 5 (exampleServices flakyServer) [] ''photo-logos'' world0 = (Some (Inr ()), world0) \<and>
   fst (writeMappingBatch 5 (exampleServices flakyServer) [request1, request2] ''photo-logos'' world0) = Some (Inr ()) \<and>
   issued world0 (snd (writeMappingBatch 5 (exampleServices flakyServer) [request1, request2] ''photo-logos'' world0)) =
     [BatchWriteCommand ''photo-logos'' [request1, request2], BatchWriteCommand ''photo-logos'' [request2]] \<and>
   resubmits (exampleServices flakyServer) ''photo-logos'' 0 [request1, request2]
     [BatchWriteCommand ''photo-logos'' [request1, request2], BatchWriteCommand ''photo-logos'' [request2]] \<and>
   lastAnswer (exampleServices flakyServer) world0
     (snd (writeMappingBatch 5 (exampleServices flakyServer) [request1, request2] ''photo-logos'' world0)) =
     Some (Inr emptyResponse) \<and>
   unprocessedFor emptyResponse ''photo-logos'' = [] \<and>
   (\<forall>reqs. \<exists>r. dynamo (exampleServices flakyServer) (length (sent world0) + 1)
                       (BatchWriteCommand ''photo-logos'' reqs) = Inr r \<and>
                     unprocessedFor r ''photo-logos'' = []) \<and>
   fst (writeMappingBatch 5 (exampleServices flakyServer) [request1, request2] ''photo-logos'' world0) \<noteq> None \<and>
   accepted (exampleServices flakyServer) ''photo-logos'' 0
     [BatchWriteCommand ''photo-logos'' [request1, request2], BatchWriteCommand ''photo-logos'' [request2]] request1 \<and>
   accepted (exampleServices flakyServer) ''photo-logos'' 0
     [BatchWriteCommand ''photo-logos'' [request1, request2], BatchWriteCommand ''photo-logos'' [request2]] request2 \<and>
   fst (writeMappingBatch 1 (exampleServices flakyServer) [request1, request2] ''photo-logos'' world0) = None \<and>
   length (issued world0 (snd (writeMappingBatch 1 (exampleServices flakyServer) [request1, request2] ''photo-logos'' world0))) = 1 \<and>
   fst (writeMappingBatch 5 (exampleServices downServer) [request1, request2] ''photo-logos'' world0) =
     Some (Inl (ServiceError ''unreachable'')) \<and>
   lastAnswer (exampleServices downServer) world0
     (snd (writeMappingBatch 5 (exampleServices downServer) [request1, request2] ''photo-logos'' world0)) =
     Some (Inl (ServiceError ''unreachable''))"
proof -
  have r5: "fst (writeMappingBatch 5 (exampleServices flakyServer) [request1, request2] ''photo-logos'' world0) = Some (Inr ())"
    by code_simp
  have e: "issued world0 (snd (writeMappingBatch 5 (exampleServices flakyServer) [request1, request2] ''photo-logos'' world0)) =
     [BatchWriteCommand ''photo-logos'' [request1, request2], BatchWriteCommand ''photo-logos'' [request2]]"
    by code_simp
  have s5: "sent (snd (writeMappingBatch 5 (exampleServices flakyServer) [request1, request2] ''photo-logos'' world0)) =
     [BatchWriteCommand ''photo-logos'' [request1, request2], BatchWriteCommand ''photo-logos'' [request2]]"
    by code_simp
  have la: "lastAnswer (exampleServices flakyServer) world0
     (snd (writeMappingBatch 5 (exampleServices flakyServer) [request1, request2] ''photo-logos'' world0)) =
     Some (Inr emptyResponse)"
    by code_simp
  have r1: "fst (writeMappingBatch 1 (exampleServices flakyServer) [request1, request2] ''photo-logos'' world0) = None"
    by code_simp
  have rd: "fst (writeMappingBatch 5 (exampleServices downServer) [request1, request2] ''photo-logos'' world0) =
     Some (Inl (ServiceError ''unreachable''))"
    by code_simp
  have l: "length (sent world0) = 0" by (simp add: world0_def)
  have pre: "\<forall>reqs. \<exists>r. dynamo (exampleServices flakyServer) (length (sent world0) + 1)
                       (BatchWriteCommand ''photo-logos'' reqs) = Inr r \<and>
                     unprocessedFor r ''photo-logos'' = []"
    by (simp add: exampleServices_def flakyServer_def unprocessedFor_def emptyResponse_def)
  note a = writeMappingBatch_retry
            [where fuel = 5 and svc = "exampleServices flakyServer" and t = "''photo-logos''"
               and w = world0 and batch = "[request1, request2]" and k = 1
               and e = "ServiceError ''unreachable''" and i = 1 and a = emptyResponse,
             unfolded e s5 l]
  note b = writeMappingBatch_retry
            [where fuel = 1 and svc = "exampleServices flakyServer" and t = "''photo-logos''"
               and w = world0 and batch = "[request1, request2]" and k = 1
               and e = "ServiceError ''unreachable''" and i = 0 and a = emptyResponse]
  note c = writeMappingBatch_retry
            [where fuel = 5 and svc = "exampleServices downServer" and t = "''photo-logos''"
               and w = world0 and batch = "[request1, request2]" and k = 1
               and e = "ServiceError ''unreachable''" and i = 0 and a = emptyResponse]
  have a1: "writeMappingBatch 5 (exampleServices flakyServer) [] ''photo-logos'' world0 = (Some (Inr ()), world0)"
    using a by blast
  have a2: "resubmits (exampleServices flakyServer) ''photo-logos'' 0 [request1, request2]
     [BatchWriteCommand ''photo-logos'' [request1, request2], BatchWriteCommand ''photo-logos'' [request2]]"
    using a by blast
  have a3: "\<forall>req\<in>set [request1, request2]. accepted (exampleServices flakyServer) ''photo-logos'' 0
     [BatchWriteCommand ''photo-logos'' [request1, request2], BatchWriteCommand ''photo-logos'' [request2]] req"
    using a r5 by blast
  have a4: "unprocessedFor emptyResponse ''photo-logos'' = []"
    using a r5 la by auto
  have b1: "length (issued world0 (snd (writeMappingBatch 1 (exampleServices flakyServer) [request1, request2] ''photo-logos'' world0))) = 1"
    using b r1 by blast
  have c1: "lastAnswer (exampleServices downServer) world0
     (snd (writeMappingBatch 5 (exampleServices downServer) [request1, request2] ''photo-logos'' world0)) =
     Some (Inl (ServiceError ''unreachable''))"
    using c rd by blast
  have a5: "fst (writeMappingBatch 5 (exampleServices flakyServer) [request1, request2] ''photo-logos'' world0) \<noteq> None"
    using a pre [unfolded l] by simp
  show ?thesis using a1 r5 e a2 la a4 a3 r1 b1 rd c1 pre a5 by simp
qed

section \<open>The main loop\<close>

lemma aside_refl: "aside w w"
  by (simp add: aside_def quiet_def)

lemma aside_trans: "aside w w1 \<Longrightarrow> aside w1 w2 \<Longrightarrow> aside w w2"
  by (auto simp: aside_def quiet_def)

lemma aside_send: "aside w (snd (send svc c w))"
  by (simp add: aside_def quiet_def send_def)

lemma aside_warn: "aside w (writeConsole Warn m w)"
  by (simp add: aside_def quiet_def writeConsole_def)

lemma aside_log: "aside w (writeConsole Log m w)"
  by (simp add: aside_def quiet_def writeConsole_def)

lemma outcomes_quiet: "quiet ls \<Longrightarrow> outcomes (cs @ ls) = outcomes cs"
proof (induction ls)
  case Nil
  then show ?case by simp
next
  case (Cons l ls)
  obtain lv m where l: "l = (lv, m)" by (cases l)
  have "outcomeKey l = []" using Cons.prems unfolding l quiet_def by (cases lv) auto
  moreover have "outcomes (cs @ ls) = outcomes cs" using Cons by (simp add: quiet_def)
  ultimately show ?case by (simp add: outcomes_def)
qed

lemma aside_outcomes: "aside w w' \<Longrightarrow> outcomes (console w') = outcomes (console w)"
  by (auto simp: aside_def outcomes_quiet)

lemma aside_retryLoop: "aside w (snd (retryLoop fuel svc t reqs w))"
proof (induction fuel arbitrary: reqs w)
  case 0
  then show ?case by (simp add: aside_refl)
next
  case (Suc fuel)
  obtain r w1 where s: "send svc (BatchWriteCommand t reqs) w = (r, w1)"
    by (cases "send svc (BatchWriteCommand t reqs) w")
  have a1: "aside w w1" using aside_send [of w svc "BatchWriteCommand t reqs"] s by simp
  show ?case
  proof (cases r)
    case (Inl e)
    then show ?thesis using s a1 by simp
  next
    case (Inr resp)
    show ?thesis
      using s Inr a1 aside_trans [OF a1 aside_trans [OF aside_warn Suc.IH]] aside_trans [OF a1 aside_warn]
      by (simp add: Let_def)
  qed
qed

lemma aside_writeMappingBatch: "aside w (snd (writeMappingBatch fuel svc batch t w))"
  by (simp add: writeMappingBatch_def aside_refl aside_retryLoop)

lemma aside_writeBatches: "aside w (snd (writeBatches fuel svc batches t w))"
proof (induction batches arbitrary: w)
  case Nil
  then show ?case by (simp add: aside_refl)
next
  case (Cons b bs)
  obtain r w1 where s: "writeMappingBatch fuel svc b t w = (r, w1)"
    by (cases "writeMappingBatch fuel svc b t w")
  have a1: "aside w w1" using aside_writeMappingBatch [of w fuel svc b t] s by simp
  show ?case
    using s a1 aside_trans [OF a1 Cons.IH]
    by (auto split: option.splits sum.splits)
qed

lemma aside_sendAll: "aside w (snd (sendAll svc cmds w))"
proof (induction cmds arbitrary: w)
  case Nil
  then show ?case by (simp add: aside_refl)
next
  case (Cons c cs)
  obtain r w1 where s: "send svc c w = (r, w1)" by (cases "send svc c w")
  have a1: "aside w w1" using aside_send [of w svc c] s by simp
  show ?case
    using s a1 aside_trans [OF a1 Cons.IH] by (auto split: sum.splits)
qed

lemma tail_case:
  "(case (rb, w2) of (Some (Inr u), v) \<Rightarrow> f v | (r1, v) \<Rightarrow> (r1, v)) =
   (if rb = Some (Inr ()) then f w2 else (rb, w2))"
  by (auto split: option.splits sum.splits)

lemma savePhotoDecoupled_world:
  "\<exists>put batches updates.
     allowedCommand put \<and> list_all allowedCommand updates \<and>
     snd (savePhotoDecoupled fuel h tn svc key found w) \<in>
       {snd (send svc put w),
        snd (writeBatches fuel svc batches (PHOTO_LOGOS_TABLE tn) (snd (send svc put w))),
        snd (sendAll svc updates
               (snd (writeBatches fuel svc batches (PHOTO_LOGOS_TABLE tn) (snd (send svc put w)))))}"
proof -
  define now where "now = isoNow svc (length (sent w))"
  define put where "put = PutCommand (PHOTOS_TABLE tn)
                 [(''photoId'', JStr (keyToPhotoId h key)), (''s3Key'', JStr key),
                  (''publicUrl'', jsOptStr (buildPublicUrl h key)),
                  (''createdAt'', JStr now), (''updatedAt'', JStr now)]"
  define batches where "batches = chunk (map (mappingWrite_decoupled (keyToPhotoId h key) now) found) 25"
  define updates where "updates = map (summaryUpdate_decoupled (LOGO_SUMMARIES_TABLE tn) now) (summarise found [])"
  obtain r w1 where s: "send svc put w = (r, w1)" by (cases "send svc put w")
  obtain rb w2 where b: "writeBatches fuel svc batches (PHOTO_LOGOS_TABLE tn) w1 = (rb, w2)"
    by (cases "writeBatches fuel svc batches (PHOTO_LOGOS_TABLE tn) w1")
  obtain r2 w3 where u: "sendAll svc updates w2 = (r2, w3)" by (cases "sendAll svc updates w2")
  have def: "savePhotoDecoupled fuel h tn svc key found w =
     (case r of
        Inl e \<Rightarrow> (Some (Inl e), w1)
      | Inr resp \<Rightarrow>
          if length found = 0 then (Some (Inr ()), w1)
          else if rb = Some (Inr ()) then (Some r2, w3) else (rb, w2))"
    unfolding savePhotoDecoupled_def Let_def
      now_def [symmetric] put_def [symmetric] batches_def [symmetric] updates_def [symmetric]
    by (simp add: s b u split: sum.splits option.splits)
  have "snd (savePhotoDecoupled fuel h tn svc key found w) \<in> {w1, w2, w3}"
    unfolding def by (simp split: sum.splits)
  moreover have "allowedCommand put" by (simp add: put_def)
  moreover have "list_all allowedCommand updates"
    by (simp add: updates_def list_all_iff summaryUpdate_decoupled_def split: prod.splits)
  ultimately show ?thesis using s b u by (metis snd_conv)
qed

lemma savePhoto_world:
  "\<exists>put batches updates.
     allowedCommand put \<and> list_all allowedCommand updates \<and>
     snd (savePhoto fuel h tableName svc key found w) \<in>
       {snd (send svc put w),
        snd (writeBatches fuel svc batches tableName (snd (send svc put w))),
        snd (sendAll svc updates
               (snd (writeBatches fuel svc batches tableName (snd (send svc put w)))))}"
proof -
  define now where "now = isoNow svc (length (sent w))"
  define put where "put = PutCommand tableName
                 [(''PK'', JStr ''PHOTO''), (''SK'', JStr (keyToPhotoId h key)), (''_type'', JStr ''photo''),
                  (''s3Key'', JStr key), (''publicUrl'', jsOptStr (buildPublicUrl h key)),
                  (''detectedLogos'', JArr (map jsDetection found)),
                  (''createdAt'', JStr now)]"
  define batches where "batches = chunk (map (mappingWrite_single (keyToPhotoId h key) (buildPublicUrl h key)) found) 25"
  define updates where "updates = map (summaryUpdate_single tableName) (summarise found [])"
  obtain r w1 where s: "send svc put w = (r, w1)" by (cases "send svc put w")
  obtain rb w2 where b: "writeBatches fuel svc batches tableName w1 = (rb, w2)"
    by (cases "writeBatches fuel svc batches tableName w1")
  obtain r2 w3 where u: "sendAll svc updates w2 = (r2, w3)" by (cases "sendAll svc updates w2")
  have def: "savePhoto fuel h tableName svc key found w =
     (case r of
        Inl e \<Rightarrow> (Some (Inl e), w1)
      | Inr resp \<Rightarrow>
          if length found = 0 then (Some (Inr ()), w1)
          else if rb = Some (Inr ()) then (Some r2, w3) else (rb, w2))"
    unfolding savePhoto_def Let_def
      now_def [symmetric] put_def [symmetric] batches_def [symmetric] updates_def [symmetric]
    by (simp add: s b u split: sum.splits option.splits)
  have "snd (savePhoto fuel h tableName svc key found w) \<in> {w1, w2, w3}"
    unfolding def by (simp split: sum.splits)
  moreover have "allowedCommand put" by (simp add: put_def)
  moreover have "list_all allowedCommand updates"
    by (simp add: updates_def list_all_iff summaryUpdate_single_def split: prod.splits)
  ultimately show ?thesis using s b u by (metis snd_conv)
qed

lemma aside_savePhotoDecoupled: "aside w (snd (savePhotoDecoupled fuel h tn svc key found w))"
  using savePhotoDecoupled_world [of fuel h tn svc key found w]
    aside_send aside_trans [OF aside_send aside_writeBatches]
    aside_trans [OF aside_send aside_trans [OF aside_writeBatches aside_sendAll]]
  by (elim exE conjE) (simp, metis)

lemma aside_savePhoto: "aside w (snd (savePhoto fuel h tableName svc key found w))"
  using savePhoto_world [of fuel h tableName svc key found w]
    aside_send aside_trans [OF aside_send aside_writeBatches]
    aside_trans [OF aside_send aside_trans [OF aside_writeBatches aside_sendAll]]
  by (elim exE conjE) (simp, metis)

lemma console_foldl_log:
  "console (foldl (\<lambda>v d. writeConsole Log (g d) v) w ds) = console w @ map (\<lambda>d. (Log, g d)) ds"
  "fetched (foldl (\<lambda>v d. writeConsole Log (g d) v) w ds) = fetched w"
  "sent (foldl (\<lambda>v d. writeConsole Log (g d) v) w ds) = sent w"
  by (induction ds arbitrary: w) (simp_all add: writeConsole_def)

lemma detect_effects:
  "fetched (snd (detectLogosForKey svc key w)) = fetched w @ [key]"
  "sent (snd (detectLogosForKey svc key w)) = sent w"
  "\<exists>ls. console (snd (detectLogosForKey svc key w)) = console w @ ls \<and> quiet ls"
  unfolding detectLogosForKey_def Let_def
  by (auto simp: console_foldl_log writeConsole_simps quiet_def list_all_iff
           split: sum.splits option.splits)

lemma detect_outcomes:
  "outcomes (console (snd (detectLogosForKey svc key w))) = outcomes (console w)"
  using detect_effects(3) [of svc key w] by (auto simp: outcomes_quiet)

lemma outcomes_snoc: "outcomes (cs @ [l]) = outcomes cs @ outcomeKey l"
  by (simp add: outcomes_def)

lemma processKeys_processed:
  assumes save: "\<And>key found w. aside w (snd (save key found w))"
  shows "fst (processKeys save svc keys w) \<noteq> None \<Longrightarrow> processed keys w (processKeys save svc keys w)"
proof (induction keys arbitrary: w)
  case Nil
  then show ?case by (simp add: processed_def)
next
  case (Cons key keys)
  define w1 where "w1 = writeConsole Info [T ''Processing '', T key, T ''...''] w"
  obtain rd w2 where d: "detectLogosForKey svc key w1 = (rd, w2)"
    by (cases "detectLogosForKey svc key w1")
  have f2: "fetched w2 = fetched w @ [key]"
    using detect_effects(1) [of svc key w1] d by (simp add: w1_def writeConsole_simps)
  have o2: "outcomes (console w2) = outcomes (console w)"
    using detect_outcomes [of svc key w1] d
    by (simp add: w1_def writeConsole_simps outcomes_snoc)
  show ?case
  proof (cases rd)
    case (Inl e)
    define w3 where "w3 = writeConsole Err [T ''Failed to process '', T key, E e] w2"
    have run: "processKeys save svc (key # keys) w = processKeys save svc keys w3"
      using d Inl by (simp add: w1_def w3_def Let_def)
    have "processed keys w3 (processKeys save svc keys w3)"
      using Cons.prems Cons.IH [of w3] unfolding run by simp
    then show ?thesis
      unfolding run processed_def
      by (simp add: w3_def writeConsole_simps f2 o2 outcomes_snoc)
  next
    case (Inr found)
    obtain rs w3 where s: "save key found w2 = (rs, w3)" by (cases "save key found w2")
    have a: "aside w2 w3" using save [of w2 key found] s by simp
    have f3: "fetched w3 = fetched w @ [key]" using a f2 by (simp add: aside_def)
    have o3: "outcomes (console w3) = outcomes (console w)" using aside_outcomes [OF a] o2 by simp
    show ?thesis
    proof (cases rs)
      case None
      then have "fst (processKeys save svc (key # keys) w) = None"
        using d Inr s by (simp add: w1_def Let_def)
      then show ?thesis using Cons.prems by simp
    next
      case (Some r)
      define w4 where "w4 = (case r of
          Inl e \<Rightarrow> writeConsole Err [T ''Failed to process '', T key, E e] w3
        | Inr u \<Rightarrow> writeConsole Info [T ''Stored '', N (length found), T '' logos for '', T key] w3)"
      have run: "processKeys save svc (key # keys) w = processKeys save svc keys w4"
        using d Inr s Some by (cases r) (simp_all add: w1_def w4_def Let_def)
      have f4: "fetched w4 = fetched w @ [key]"
        using f3 by (cases r) (simp_all add: w4_def writeConsole_simps)
      have o4: "outcomes (console w4) = outcomes (console w) @ [key]"
        using o3 by (cases r) (simp_all add: w4_def writeConsole_simps outcomes_snoc)
      have "processed keys w4 (processKeys save svc keys w4)"
        using Cons.prems Cons.IH [of w4] unfolding run by simp
      then show ?thesis
        unfolding run processed_def by (simp add: f4 o4)
    qed
  qed
qed

lemma processKeys_returns:
  assumes save: "\<And>key found w. fst (save key found w) \<noteq> None"
  shows "fst (processKeys save svc keys w) \<noteq> None"
proof (induction keys arbitrary: w)
  case Nil
  then show ?case by simp
next
  case (Cons key keys)
  define w1 where "w1 = writeConsole Info [T ''Processing '', T key, T ''...''] w"
  obtain rd w2 where d: "detectLogosForKey svc key w1 = (rd, w2)"
    by (cases "detectLogosForKey svc key w1")
  show ?case
  proof (cases rd)
    case (Inl e)
    then show ?thesis using d Cons.IH by (simp add: w1_def [symmetric] Let_def)
  next
    case (Inr found)
    obtain rs w3 where s: "save key found w2 = (rs, w3)" by (cases "save key found w2")
    then have "rs \<noteq> None" using save [of key found w2] by simp
    then obtain r where "rs = Some r" by blast
    then show ?thesis
      using d Inr s Cons.IH by (cases r) (simp_all add: w1_def [symmetric] Let_def)
  qed
qed

lemma writeMappingBatch_returns:
  assumes "settles fuel svc t"
  shows "fst (writeMappingBatch fuel svc batch t w) \<noteq> None"
proof -
  from assms obtain k where k: "k < fuel"
    and r: "\<forall>reqs. \<exists>r. dynamo svc (length (sent w) + k) (BatchWriteCommand t reqs) = Inr r \<and>
                        unprocessedFor r t = []"
    unfolding settles_def by blast
  show ?thesis
    using retryLoop_terminates [OF r k] by (simp add: writeMappingBatch_def)
qed

lemma writeBatches_returns:
  assumes "settles fuel svc t"
  shows "fst (writeBatches fuel svc batches t w) \<noteq> None"
proof (induction batches arbitrary: w)
  case Nil
  then show ?case by simp
next
  case (Cons b bs)
  obtain r w1 where s: "writeMappingBatch fuel svc b t w = (r, w1)"
    by (cases "writeMappingBatch fuel svc b t w")
  then have "r \<noteq> None" using writeMappingBatch_returns [OF assms, of b w] by simp
  then show ?case using s Cons.IH by (auto split: option.splits sum.splits)
qed

lemma writeBatches_not_None:
  assumes "settles fuel svc t"
  shows "writeBatches fuel svc batches t w \<noteq> (None, w')"
  using writeBatches_returns [OF assms, of batches w] by auto

lemma savePhotoDecoupled_returns:
  assumes "settles fuel svc (PHOTO_LOGOS_TABLE tn)"
  shows "fst (savePhotoDecoupled fuel h tn svc key found w) \<noteq> None"
  unfolding savePhotoDecoupled_def Let_def
  by (auto simp: writeBatches_not_None [OF assms] split: prod.splits sum.splits option.splits)

lemma savePhoto_returns:
  assumes "settles fuel svc tableName"
  shows "fst (savePhoto fuel h tableName svc key found w) \<noteq> None"
  unfolding savePhoto_def Let_def
  by (auto simp: writeBatches_not_None [OF assms] split: prod.splits sum.splits option.splits)


lemma saved_mono:
  assumes "saved svc t put reqs updates i cmds"
  shows "saved svc t put reqs updates i (cmds @ rest)"
proof -
  have a: "\<forall>req\<in>set reqs. accepted svc t i (cmds @ rest) req"
    using assms accepted_mono [of svc t i cmds _ i rest] unfolding saved_def by blast
  have b: "\<forall>u\<in>set updates. \<exists>j\<in>{i..<length (cmds @ rest)}. (cmds @ rest) ! j = u \<and> answeredOK svc j u"
  proof
    fix u assume "u \<in> set updates"
    then obtain j where j: "j \<in> {i..<length cmds}" and c: "cmds ! j = u" and ok: "answeredOK svc j u"
      using assms unfolding saved_def by blast
    have "j \<in> {i..<length (cmds @ rest)}" using j by auto
    moreover have "(cmds @ rest) ! j = u" using j c by (simp add: nth_append)
    ultimately show "\<exists>j\<in>{i..<length (cmds @ rest)}. (cmds @ rest) ! j = u \<and> answeredOK svc j u"
      using ok by blast
  qed
  show ?thesis using assms a b unfolding saved_def by blast
qed

lemma segment_mono:
  assumes "segment svc t key det putOf reqsOf updatesOf cmds lines lo hi"
    and "set lines \<subseteq> set lines'"
  shows "segment svc t key det putOf reqsOf updatesOf (cmds @ rest) lines' lo hi"
proof (cases det)
  case (Inl e)
  then show ?thesis using assms by (auto simp: segment_def)
next
  case (Inr found)
  from assms(1) have lo: "lo < hi" and hi: "hi \<le> length cmds" and p: "cmds ! lo = putOf found lo"
    and d: "saved svc t (putOf found lo) (reqsOf found lo) (updatesOf found lo) lo (take hi cmds) \<and>
             (Info, [T ''Stored '', N (length found), T '' logos for '', T key]) \<in> set lines
           \<or> (case dynamo svc (hi - 1) (cmds ! (hi - 1)) of
                Inl e \<Rightarrow> (Err, [T ''Failed to process '', T key, E e]) \<in> set lines
              | Inr r \<Rightarrow> False)"
    unfolding segment_def Inr by simp_all
  have t: "take hi (cmds @ rest) = take hi cmds" using hi by simp
  have n1: "(cmds @ rest) ! lo = cmds ! lo" using lo hi by (simp add: nth_append)
  have "hi - 1 < length cmds" using lo hi by arith
  then have n2: "(cmds @ rest) ! (hi - 1) = cmds ! (hi - 1)" by (simp only: nth_append if_True)
  have d': "saved svc t (putOf found lo) (reqsOf found lo) (updatesOf found lo) lo (take hi (cmds @ rest)) \<and>
             (Info, [T ''Stored '', N (length found), T '' logos for '', T key]) \<in> set lines'
           \<or> (case dynamo svc (hi - 1) ((cmds @ rest) ! (hi - 1)) of
                Inl e \<Rightarrow> (Err, [T ''Failed to process '', T key, E e]) \<in> set lines'
              | Inr r \<Rightarrow> False)"
    unfolding t n2 using d assms(2) by (auto split: sum.splits)
  show ?thesis
    unfolding segment_def Inr using lo hi p n1 d' by simp
qed

lemma segmented_mono:
  assumes "\<And>key a b. seg key a b \<Longrightarrow> seg' key a b"
  shows "segmented seg keys lo hi \<Longrightarrow> segmented seg' keys lo hi"
proof (induction keys arbitrary: lo)
  case Nil
  then show ?case by simp
next
  case (Cons key keys)
  then obtain mid where "mid \<in> {lo..hi}" and "seg key lo mid" and "segmented seg keys mid hi"
    by auto
  then have "mid \<in> {lo..hi} \<and> seg' key lo mid \<and> segmented seg' keys mid hi"
    using assms Cons.IH by blast
  then show ?case by auto
qed

lemma chunk_covers: "0 < n \<Longrightarrow> (\<Union>b\<in>set (chunk xs n). set b) = set xs"
proof (induction xs n rule: chunk.induct)
  case (1 items n)
  show ?case
  proof (cases "items = []")
    case True
    then show ?thesis by (simp add: chunk.simps)
  next
    case False
    have c: "chunk items n = take n items # chunk (drop n items) n"
      using False 1(2) by (subst chunk.simps) simp
    have "(\<Union>b\<in>set (chunk (drop n items) n). set b) = set (drop n items)"
      using 1(1) False 1(2) by simp
    then have "(\<Union>b\<in>set (chunk items n). set b) = set (take n items) \<union> set (drop n items)"
      unfolding c by simp
    also have "\<dots> = set (take n items @ drop n items)" by (rule set_append [symmetric])
    also have "\<dots> = set items" by (simp only: append_take_drop_id)
    finally show ?thesis .
  qed
qed


lemma lastAnswer_rejected:
  assumes "lastAnswer svc w w' = Some (Inl e)" and "sent w' = sent w @ cs"
  shows "rejectedLast svc (sent w') e"
proof -
  have ne: "cs \<noteq> []" using assms by (auto simp: lastAnswer_def issued_def)
  then have s: "sent w' \<noteq> []" using assms(2) by simp
  then have l: "last (sent w') = sent w' ! (length (sent w') - 1)" by (rule last_conv_nth)
  have "issued w w' \<noteq> []" using ne assms(2) by (simp add: issued_def)
  then have "dynamo svc (length (sent w') - 1) (last (sent w')) = Inl e"
    using assms(1) by (simp add: lastAnswer_def)
  then have "dynamo svc (length (sent w') - 1) (sent w' ! (length (sent w') - 1)) = Inl e"
    unfolding l .
  then show ?thesis using s by (simp add: rejectedLast_def)
qed

lemma writeMappingBatch_result:
  assumes "writeMappingBatch fuel svc batch t w = (res, w')"
  shows "\<exists>cs. sent w' = sent w @ cs \<and>
     (res = Some (Inr ()) \<longrightarrow> (\<forall>req\<in>set batch. accepted svc t (length (sent w)) (sent w') req)) \<and>
     (\<forall>e. res = Some (Inl e) \<longrightarrow> rejectedLast svc (sent w') e)"
proof (cases "batch = []")
  case True
  then show ?thesis using assms by (auto simp: writeMappingBatch_def)
next
  case False
  then have rl: "retryLoop fuel svc t batch w = (res, w')"
    using assms by (simp add: writeMappingBatch_def)
  from retryLoop_result [OF rl] obtain cs where cs: "sent w' = sent w @ cs"
    and inl: "\<forall>e. res = Some (Inl e) \<longrightarrow> lastAnswer svc w w' = Some (Inl e)"
    and inr: "res = Some (Inr ()) \<longrightarrow>
        (\<forall>req\<in>set batch. accepted svc t (length (sent w)) (sent w') req)"
    by blast
  have "\<forall>e. res = Some (Inl e) \<longrightarrow> rejectedLast svc (sent w') e"
    using inl lastAnswer_rejected [OF _ cs] by blast
  then show ?thesis using cs inr by blast
qed

lemma writeBatches_result:
  "writeBatches fuel svc batches t w = (res, w') \<Longrightarrow>
   \<exists>cs. sent w' = sent w @ cs \<and>
     (res = Some (Inr ()) \<longrightarrow>
        (\<forall>b\<in>set batches. \<forall>req\<in>set b. accepted svc t (length (sent w)) (sent w') req)) \<and>
     (\<forall>e. res = Some (Inl e) \<longrightarrow> rejectedLast svc (sent w') e)"
proof (induction batches arbitrary: w)
  case Nil
  then show ?case by auto
next
  case (Cons b bs)
  obtain r1 w1 where s: "writeMappingBatch fuel svc b t w = (r1, w1)"
    by (cases "writeMappingBatch fuel svc b t w")
  from writeMappingBatch_result [OF s] obtain cs1 where cs1: "sent w1 = sent w @ cs1"
    and ok1: "r1 = Some (Inr ()) \<longrightarrow> (\<forall>req\<in>set b. accepted svc t (length (sent w)) (sent w1) req)"
    and no1: "\<forall>e. r1 = Some (Inl e) \<longrightarrow> rejectedLast svc (sent w1) e"
    by blast
  show ?case
  proof (cases "r1 = Some (Inr ())")
    case False
    then have "res = r1" and "w' = w1" using Cons.prems s by (auto split: option.splits sum.splits)
    then show ?thesis using cs1 no1 False by blast
  next
    case True
    then have rest: "writeBatches fuel svc bs t w1 = (res, w')" using Cons.prems s by simp
    from Cons.IH [OF rest] obtain cs2 where cs2: "sent w' = sent w1 @ cs2"
      and ok2: "res = Some (Inr ()) \<longrightarrow>
        (\<forall>b\<in>set bs. \<forall>req\<in>set b. accepted svc t (length (sent w1)) (sent w') req)"
      and no2: "\<forall>e. res = Some (Inl e) \<longrightarrow> rejectedLast svc (sent w') e"
      by blast
    have sw: "sent w' = sent w @ (cs1 @ cs2)" using cs1 cs2 by simp
    have le: "length (sent w) \<le> length (sent w1)" using cs1 by simp
    have a: "res = Some (Inr ()) \<longrightarrow>
        (\<forall>b'\<in>set (b # bs). \<forall>req\<in>set b'. accepted svc t (length (sent w)) (sent w') req)"
    proof (intro impI ballI)
      fix b' req assume r: "res = Some (Inr ())" and b': "b' \<in> set (b # bs)" and req: "req \<in> set b'"
      show "accepted svc t (length (sent w)) (sent w') req"
      proof (cases "b' = b")
        case True
        then have "accepted svc t (length (sent w)) (sent w1) req" using ok1 \<open>r1 = Some (Inr ())\<close> req by blast
        then show ?thesis unfolding cs2 by (rule accepted_mono) simp
      next
        case False
        then have "b' \<in> set bs" using b' by simp
        then have "accepted svc t (length (sent w1)) (sent w') req" using ok2 r req by blast
        then have "accepted svc t (length (sent w)) (sent w' @ []) req" by (rule accepted_mono) (rule le)
        then show ?thesis by simp
      qed
    qed
    show ?thesis using sw a no2 by blast
  qed
qed

lemma sendAll_result:
  "sendAll svc cmds w = (res, w') \<Longrightarrow>
   \<exists>cs. sent w' = sent w @ cs \<and>
     (res = Inr () \<longrightarrow>
        (\<forall>u\<in>set cmds. \<exists>j\<in>{length (sent w)..<length (sent w')}. sent w' ! j = u \<and> answeredOK svc j u)) \<and>
     (\<forall>e. res = Inl e \<longrightarrow> rejectedLast svc (sent w') e)"
proof (induction cmds arbitrary: w)
  case Nil
  then show ?case by auto
next
  case (Cons c cmds)
  let ?n = "length (sent w)"
  let ?w1 = "w\<lparr>sent := sent w @ [c]\<rparr>"
  show ?case
  proof (cases "dynamo svc ?n c")
    case (Inl e)
    then have r: "res = Inl e" and w': "w' = ?w1" using Cons.prems by (simp_all add: send_def)
    have "rejectedLast svc (sent w') e" using Inl by (simp add: w' rejectedLast_def)
    then show ?thesis using r w' by auto
  next
    case (Inr resp)
    then have rest: "sendAll svc cmds ?w1 = (res, w')" using Cons.prems by (simp add: send_def)
    from Cons.IH [OF rest] obtain cs where cs: "sent w' = sent ?w1 @ cs"
      and ok: "res = Inr () \<longrightarrow>
        (\<forall>u\<in>set cmds. \<exists>j\<in>{length (sent ?w1)..<length (sent w')}. sent w' ! j = u \<and> answeredOK svc j u)"
      and no: "\<forall>e. res = Inl e \<longrightarrow> rejectedLast svc (sent w') e"
      by blast
    have sw: "sent w' = sent w @ (c # cs)" using cs by simp
    have hd: "?n \<in> {?n..<length (sent w')} \<and> sent w' ! ?n = c \<and> answeredOK svc ?n c"
      using Inr by (simp add: sw answeredOK_def)
    have a: "res = Inr () \<longrightarrow>
        (\<forall>u\<in>set (c # cmds). \<exists>j\<in>{?n..<length (sent w')}. sent w' ! j = u \<and> answeredOK svc j u)"
    proof (intro impI ballI)
      fix u assume r: "res = Inr ()" and u: "u \<in> set (c # cmds)"
      show "\<exists>j\<in>{?n..<length (sent w')}. sent w' ! j = u \<and> answeredOK svc j u"
      proof (cases "u = c")
        case True
        then show ?thesis using hd by blast
      next
        case False
        then have "u \<in> set cmds" using u by simp
        then obtain j where "j \<in> {length (sent ?w1)..<length (sent w')}"
          and "sent w' ! j = u \<and> answeredOK svc j u" using ok r by blast
        moreover then have "j \<in> {?n..<length (sent w')}" by simp
        ultimately show ?thesis by blast
      qed
    qed
    show ?thesis using sw a no by blast
  qed
qed

lemma detect_fst:
  "fst (detectLogosForKey svc key w) = fst (detectLogosForKey svc key v)"
  unfolding detectLogosForKey_def Let_def
  by (simp split: sum.splits option.splits)


lemma save_result:
  assumes s: "send svc put w = (r, w1)"
    and b: "writeBatches fuel svc (chunk reqs 25) t w1 = (rb, w2)"
    and u: "sendAll svc updates w2 = (r2, w3)"
    and res: "(case r of
                 Inl e \<Rightarrow> (Some (Inl e), w1)
               | Inr resp \<Rightarrow>
                   if nofound then (Some (Inr ()), w1)
                   else if rb = Some (Inr ()) then (Some r2, w3) else (rb, w2)) = (Some out, w')"
    and e: "nofound \<Longrightarrow> reqs = [] \<and> updates = []"
  shows "\<exists>cs. sent w' = sent w @ put # cs \<and>
      (out = Inr () \<longrightarrow> saved svc t put reqs updates (length (sent w)) (sent w')) \<and>
      (\<forall>e. out = Inl e \<longrightarrow> rejectedLast svc (sent w') e)"
proof -
  let ?n = "length (sent w)"
  have r: "r = dynamo svc ?n put" and w1: "sent w1 = sent w @ [put]"
    using s by (auto simp: send_def)
  from writeBatches_result [OF b] obtain cs2 where cs2: "sent w2 = sent w1 @ cs2"
    and ok2: "rb = Some (Inr ()) \<longrightarrow>
        (\<forall>b\<in>set (chunk reqs 25). \<forall>req\<in>set b. accepted svc t (length (sent w1)) (sent w2) req)"
    and no2: "\<forall>e. rb = Some (Inl e) \<longrightarrow> rejectedLast svc (sent w2) e"
    by blast
  from sendAll_result [OF u] obtain cs3 where cs3: "sent w3 = sent w2 @ cs3"
    and ok3: "r2 = Inr () \<longrightarrow>
        (\<forall>u\<in>set updates. \<exists>j\<in>{length (sent w2)..<length (sent w3)}. sent w3 ! j = u \<and> answeredOK svc j u)"
    and no3: "\<forall>e. r2 = Inl e \<longrightarrow> rejectedLast svc (sent w3) e"
    by blast
  have l1: "length (sent w1) = Suc ?n" using w1 by simp
  have l2: "?n < length (sent w2)" "Suc ?n \<le> length (sent w2)" using w1 cs2 by simp_all
  show ?thesis
  proof (cases r)
    case (Inl e)
    then have o: "out = Inl e" and w': "w' = w1" using res by simp_all
    have "rejectedLast svc (sent w') e" using Inl r w' w1 by (simp add: rejectedLast_def)
    then show ?thesis using o w' w1 by auto
  next
    case (Inr resp)
    then have okp: "answeredOK svc ?n put" using r by (simp add: answeredOK_def)
    show ?thesis
    proof (cases nofound)
      case True
      then have o: "out = Inr ()" and w': "w' = w1" using res Inr by simp_all
      have "saved svc t put reqs updates ?n (sent w')"
        using e [OF True] okp by (simp add: saved_def)
      then show ?thesis using o w' w1 by auto
    next
      case False
      show ?thesis
      proof (cases "rb = Some (Inr ())")
        case False
        then have o: "rb = Some out" and w': "w' = w2" using res Inr \<open>\<not> nofound\<close> by simp_all
        then obtain e' where e': "out = Inl e'" using False by (cases out) auto
        have "rejectedLast svc (sent w') e'" using no2 o e' w' by blast
        then show ?thesis using e' w' w1 cs2 by auto
      next
        case True
        then have o: "out = r2" and w': "w' = w3" using res Inr \<open>\<not> nofound\<close> by simp_all
        have sw: "sent w' = sent w @ put # (cs2 @ cs3)" using w' w1 cs2 cs3 by simp
        have acc: "\<forall>req\<in>set reqs. accepted svc t ?n (sent w') req"
        proof
          fix req assume "req \<in> set reqs"
          then have "req \<in> (\<Union>b\<in>set (chunk reqs 25). set b)" by (simp add: chunk_covers)
          then have "accepted svc t (length (sent w1)) (sent w2) req" using ok2 True by blast
          then have "accepted svc t ?n (sent w2 @ cs3) req" by (rule accepted_mono) (simp add: l1)
          then show "accepted svc t ?n (sent w') req" using w' cs3 by simp
        qed
        have upd: "out = Inr () \<longrightarrow>
            (\<forall>u\<in>set updates. \<exists>j\<in>{?n..<length (sent w')}. sent w' ! j = u \<and> answeredOK svc j u)"
        proof (intro impI ballI)
          fix u assume "out = Inr ()" and "u \<in> set updates"
          then obtain j where j: "j \<in> {length (sent w2)..<length (sent w3)}"
            and c: "sent w3 ! j = u \<and> answeredOK svc j u" using ok3 o by blast
          have "j \<in> {?n..<length (sent w')}" using j l2 w' by simp
          then show "\<exists>j\<in>{?n..<length (sent w')}. sent w' ! j = u \<and> answeredOK svc j u"
            using c w' by blast
        qed
        have rej: "\<forall>e. out = Inl e \<longrightarrow> rejectedLast svc (sent w') e"
          using no3 o w' by blast
        have "out = Inr () \<longrightarrow> saved svc t put reqs updates ?n (sent w')"
          using okp acc upd by (simp add: saved_def)
        then show ?thesis using sw rej by blast
      qed
    qed
  qed
qed

lemma savePhotoDecoupled_result:
  assumes "savePhotoDecoupled fuel h tn svc key found w = (Some out, w')"
  shows "\<exists>cs. sent w' = sent w @ photoPut_decoupled h tn svc key found (length (sent w)) # cs \<and>
      (out = Inr () \<longrightarrow>
         saved svc (PHOTO_LOGOS_TABLE tn) (photoPut_decoupled h tn svc key found (length (sent w)))
           (mappingWrites_decoupled h svc key found (length (sent w)))
           (summaryUpdates_decoupled tn svc found (length (sent w))) (length (sent w)) (sent w')) \<and>
      (\<forall>e. out = Inl e \<longrightarrow> rejectedLast svc (sent w') e)"
proof -
  define put where "put = photoPut_decoupled h tn svc key found (length (sent w))"
  define reqs where "reqs = mappingWrites_decoupled h svc key found (length (sent w))"
  define updates where "updates = summaryUpdates_decoupled tn svc found (length (sent w))"
  obtain r w1 where s: "send svc put w = (r, w1)" by (cases "send svc put w")
  obtain rb w2 where b: "writeBatches fuel svc (chunk reqs 25) (PHOTO_LOGOS_TABLE tn) w1 = (rb, w2)"
    by (cases "writeBatches fuel svc (chunk reqs 25) (PHOTO_LOGOS_TABLE tn) w1")
  obtain r2 w3 where u: "sendAll svc updates w2 = (r2, w3)" by (cases "sendAll svc updates w2")
  have def: "savePhotoDecoupled fuel h tn svc key found w =
     (case r of
        Inl e \<Rightarrow> (Some (Inl e), w1)
      | Inr resp \<Rightarrow>
          if found = [] then (Some (Inr ()), w1)
          else if rb = Some (Inr ()) then (Some r2, w3) else (rb, w2))"
    using s b u
    unfolding savePhotoDecoupled_def Let_def put_def reqs_def updates_def
      photoPut_decoupled_def mappingWrites_decoupled_def summaryUpdates_decoupled_def
    by (simp split: sum.splits option.splits)
  have e: "found = [] \<Longrightarrow> reqs = [] \<and> updates = []"
    by (simp add: reqs_def updates_def mappingWrites_decoupled_def summaryUpdates_decoupled_def)
  show ?thesis
    using save_result [OF s b u assms [unfolded def] e]
    unfolding put_def reqs_def updates_def .
qed

lemma savePhoto_result:
  assumes "savePhoto fuel h tableName svc key found w = (Some out, w')"
  shows "\<exists>cs. sent w' = sent w @ photoPut_single h tableName svc key found (length (sent w)) # cs \<and>
      (out = Inr () \<longrightarrow>
         saved svc tableName (photoPut_single h tableName svc key found (length (sent w)))
           (mappingWrites_single h key found (length (sent w)))
           (summaryUpdates_single tableName found (length (sent w))) (length (sent w)) (sent w')) \<and>
      (\<forall>e. out = Inl e \<longrightarrow> rejectedLast svc (sent w') e)"
proof -
  define put where "put = photoPut_single h tableName svc key found (length (sent w))"
  define reqs where "reqs = mappingWrites_single h key found (length (sent w))"
  define updates where "updates = summaryUpdates_single tableName found (length (sent w))"
  obtain r w1 where s: "send svc put w = (r, w1)" by (cases "send svc put w")
  obtain rb w2 where b: "writeBatches fuel svc (chunk reqs 25) tableName w1 = (rb, w2)"
    by (cases "writeBatches fuel svc (chunk reqs 25) tableName w1")
  obtain r2 w3 where u: "sendAll svc updates w2 = (r2, w3)" by (cases "sendAll svc updates w2")
  have def: "savePhoto fuel h tableName svc key found w =
     (case r of
        Inl e \<Rightarrow> (Some (Inl e), w1)
      | Inr resp \<Rightarrow>
          if found = [] then (Some (Inr ()), w1)
          else if rb = Some (Inr ()) then (Some r2, w3) else (rb, w2))"
    using s b u
    unfolding savePhoto_def Let_def put_def reqs_def updates_def
      photoPut_single_def mappingWrites_single_def summaryUpdates_single_def
    by (simp split: sum.splits option.splits)
  have e: "found = [] \<Longrightarrow> reqs = [] \<and> updates = []"
    by (simp add: reqs_def updates_def mappingWrites_single_def summaryUpdates_single_def)
  show ?thesis
    using save_result [OF s b u assms [unfolded def] e]
    unfolding put_def reqs_def updates_def .
qed

lemma processKeys_append:
  "fst (processKeys save svc before w) \<noteq> None \<Longrightarrow>
   processKeys save svc (before @ after) w =
     processKeys save svc after (snd (processKeys save svc before w))"
proof (induction before arbitrary: w)
  case Nil
  then show ?case by simp
next
  case (Cons key keys)
  define w1 where "w1 = writeConsole Info [T ''Processing '', T key, T ''...''] w"
  obtain rd w2 where d: "detectLogosForKey svc key w1 = (rd, w2)"
    by (cases "detectLogosForKey svc key w1")
  show ?case
  proof (cases rd)
    case (Inl e)
    then show ?thesis using d Cons by (simp add: w1_def [symmetric] Let_def)
  next
    case (Inr found)
    obtain rs w3 where s: "save key found w2 = (rs, w3)" by (cases "save key found w2")
    show ?thesis
    proof (cases rs)
      case None
      then show ?thesis using d Inr s Cons.prems by (simp add: w1_def [symmetric] Let_def)
    next
      case (Some r)
      then show ?thesis using d Inr s Cons by (cases r) (simp_all add: w1_def [symmetric] Let_def)
    qed
  qed
qed


lemma processKeys_segmented:
  assumes save: "\<And>key found w out w'. save key found w = (Some out, w') \<Longrightarrow>
        \<exists>cs. sent w' = sent w @ putOf key found (length (sent w)) # cs \<and>
          (out = Inr () \<longrightarrow>
             saved svc t (putOf key found (length (sent w))) (reqsOf key found (length (sent w)))
               (updatesOf key found (length (sent w))) (length (sent w)) (sent w')) \<and>
          (\<forall>e. out = Inl e \<longrightarrow> rejectedLast svc (sent w') e)"
    and as: "\<And>key found w. aside w (snd (save key found w))"
  shows "processKeys save svc keys w = (Some res, w') \<Longrightarrow>
     \<exists>cs ls. sent w' = sent w @ cs \<and> console w' = console w @ ls \<and>
       segmented
         (\<lambda>key. segment svc t key (fst (detectLogosForKey svc key w))
                  (putOf key) (reqsOf key) (updatesOf key) (sent w') ls)
         keys (length (sent w)) (length (sent w'))"
proof (induction keys arbitrary: w)
  case Nil
  then show ?case by simp
next
  case (Cons key keys)
  let ?n = "length (sent w)"
  define w1 where "w1 = writeConsole Info [T ''Processing '', T key, T ''...''] w"
  obtain rd w2 where d: "detectLogosForKey svc key w1 = (rd, w2)"
    by (cases "detectLogosForKey svc key w1")
  have rd: "fst (detectLogosForKey svc key w) = rd" using detect_fst [of svc key w w1] d by simp
  have s2: "sent w2 = sent w"
    using detect_effects(2) [of svc key w1] d by (simp add: w1_def writeConsole_simps)
  obtain l2 where c2: "console w2 = console w @ l2"
    using detect_effects(3) [of svc key w1] d by (auto simp: w1_def writeConsole_simps)
  have step: "\<exists>w4 cs4 l4. processKeys save svc (key # keys) w = processKeys save svc keys w4 \<and>
      sent w4 = sent w @ cs4 \<and> console w4 = console w @ l4 \<and>
      segment svc t key rd (putOf key) (reqsOf key) (updatesOf key) (sent w4) l4 ?n (length (sent w4))"
  proof (cases rd)
    case (Inl e)
    define w3 where "w3 = writeConsole Err [T ''Failed to process '', T key, E e] w2"
    have run: "processKeys save svc (key # keys) w = processKeys save svc keys w3"
      using d Inl by (simp add: w1_def w3_def Let_def)
    have s3: "sent w3 = sent w @ []" by (simp add: w3_def writeConsole_simps s2)
    have c3: "console w3 = console w @ (l2 @ [(Err, [T ''Failed to process '', T key, E e])])"
      by (simp add: w3_def writeConsole_simps c2)
    have "segment svc t key rd (putOf key) (reqsOf key) (updatesOf key) (sent w3)
        (l2 @ [(Err, [T ''Failed to process '', T key, E e])]) ?n (length (sent w3))"
      using Inl s3 by (simp add: segment_def)
    then show ?thesis using run s3 c3 by blast
  next
    case (Inr found)
    obtain rs w3 where s: "save key found w2 = (rs, w3)" by (cases "save key found w2")
    have "rs \<noteq> None"
    proof
      assume "rs = None"
      then have "fst (processKeys save svc (key # keys) w) = None"
        using d Inr s by (simp add: w1_def Let_def)
      then show False using Cons.prems by simp
    qed
    then obtain out where out: "rs = Some out" by blast
    from save [OF s [unfolded out]] obtain cs where cs: "sent w3 = sent w @ putOf key found ?n # cs"
      and ok: "out = Inr () \<longrightarrow>
             saved svc t (putOf key found ?n) (reqsOf key found ?n) (updatesOf key found ?n) ?n (sent w3)"
      and no: "\<forall>e. out = Inl e \<longrightarrow> rejectedLast svc (sent w3) e"
      unfolding s2 by blast
    obtain l3 where c3: "console w3 = console w @ l3"
      using as [of w2 key found] s c2 by (auto simp: aside_def)
    define line where "line = (case out of
          Inl e \<Rightarrow> (Err, [T ''Failed to process '', T key, E e])
        | Inr u \<Rightarrow> (Info, [T ''Stored '', N (length found), T '' logos for '', T key]))"
    define w4 where "w4 = writeConsole (fst line) (snd line) w3"
    have run: "processKeys save svc (key # keys) w = processKeys save svc keys w4"
      using d Inr s out by (cases out) (simp_all add: w1_def w4_def line_def Let_def)
    have s4: "sent w4 = sent w @ putOf key found ?n # cs"
      by (simp add: w4_def writeConsole_simps cs)
    have s43: "sent w4 = sent w3" by (simp add: s4 cs)
    have c4: "console w4 = console w @ (l3 @ [line])"
      by (simp add: w4_def writeConsole_simps c3)
    have lo: "?n < length (sent w4)" by (simp add: s4)
    have p: "sent w4 ! ?n = putOf key found ?n" by (simp add: s4)
    have "saved svc t (putOf key found ?n) (reqsOf key found ?n) (updatesOf key found ?n) ?n
            (take (length (sent w4)) (sent w4)) \<and>
           (Info, [T ''Stored '', N (length found), T '' logos for '', T key]) \<in> set (l3 @ [line])
         \<or> (case dynamo svc (length (sent w4) - 1) (sent w4 ! (length (sent w4) - 1)) of
                Inl e \<Rightarrow> (Err, [T ''Failed to process '', T key, E e]) \<in> set (l3 @ [line])
              | Inr r \<Rightarrow> False)"
    proof (cases out)
      case (Inr u)
      then have "saved svc t (putOf key found ?n) (reqsOf key found ?n) (updatesOf key found ?n) ?n
            (take (length (sent w4)) (sent w4))"
        using ok by (simp add: s43)
      moreover have "(Info, [T ''Stored '', N (length found), T '' logos for '', T key]) \<in> set (l3 @ [line])"
        using Inr by (simp add: line_def)
      ultimately show ?thesis by blast
    next
      case (Inl e)
      then have "dynamo svc (length (sent w4) - 1) (sent w4 ! (length (sent w4) - 1)) = Inl e"
        using no by (simp add: rejectedLast_def s43)
      moreover have "(Err, [T ''Failed to process '', T key, E e]) \<in> set (l3 @ [line])"
        using Inl by (simp add: line_def)
      ultimately show ?thesis by simp
    qed
    then have "segment svc t key rd (putOf key) (reqsOf key) (updatesOf key) (sent w4) (l3 @ [line])
        ?n (length (sent w4))"
      unfolding segment_def using Inr lo p by simp
    then show ?thesis using run s4 c4 by blast
  qed
  then obtain w4 cs4 l4 where run: "processKeys save svc (key # keys) w = processKeys save svc keys w4"
    and s4: "sent w4 = sent w @ cs4" and c4: "console w4 = console w @ l4"
    and h4: "segment svc t key rd (putOf key) (reqsOf key) (updatesOf key) (sent w4) l4 ?n (length (sent w4))"
    by blast
  have rest: "processKeys save svc keys w4 = (Some res, w')" using Cons.prems run by simp
  from Cons.IH [OF rest] obtain cs ls where cs: "sent w' = sent w4 @ cs" and ls: "console w' = console w4 @ ls"
    and hs: "segmented
         (\<lambda>k. segment svc t k (fst (detectLogosForKey svc k w4))
                  (putOf k) (reqsOf k) (updatesOf k) (sent w') ls)
         keys (length (sent w4)) (length (sent w'))"
    by blast
  have a: "sent w' = sent w @ (cs4 @ cs)" using cs s4 by simp
  have b: "console w' = console w @ (l4 @ ls)" using ls c4 by simp
  have mid: "length (sent w4) \<in> {?n..length (sent w')}" using s4 cs by simp
  have hd: "segment svc t key (fst (detectLogosForKey svc key w))
              (putOf key) (reqsOf key) (updatesOf key) (sent w') (l4 @ ls) ?n (length (sent w4))"
    unfolding rd cs using h4 by (rule segment_mono) simp
  have tl: "segmented
         (\<lambda>k. segment svc t k (fst (detectLogosForKey svc k w))
                  (putOf k) (reqsOf k) (updatesOf k) (sent w') (l4 @ ls))
         keys (length (sent w4)) (length (sent w'))"
  proof (rule segmented_mono [OF _ hs])
    fix k a b
    assume "segment svc t k (fst (detectLogosForKey svc k w4))
              (putOf k) (reqsOf k) (updatesOf k) (sent w') ls a b"
    then have "segment svc t k (fst (detectLogosForKey svc k w4))
              (putOf k) (reqsOf k) (updatesOf k) (sent w' @ []) (l4 @ ls) a b"
      by (rule segment_mono) simp
    then show "segment svc t k (fst (detectLogosForKey svc k w))
              (putOf k) (reqsOf k) (updatesOf k) (sent w') (l4 @ ls) a b"
      using detect_fst [of svc k w4 w] by simp
  qed
  have "segmented
         (\<lambda>k. segment svc t k (fst (detectLogosForKey svc k w))
                  (putOf k) (reqsOf k) (updatesOf k) (sent w') (l4 @ ls))
         (key # keys) ?n (length (sent w'))"
    using mid hd tl by auto
  then show ?case using a b by blast
qed

lemma processKeys_handledDecoupled:
  assumes "fst (processKeys (savePhotoDecoupled fuel h tn svc) svc keys w) \<noteq> None"
  shows "handledDecoupled h tn svc keys w
           (snd (processKeys (savePhotoDecoupled fuel h tn svc) svc keys w))"
proof -
  obtain res w' where r: "processKeys (savePhotoDecoupled fuel h tn svc) svc keys w = (Some res, w')"
    using assms by (cases "processKeys (savePhotoDecoupled fuel h tn svc) svc keys w") auto
  have "\<exists>cs ls. sent w' = sent w @ cs \<and> console w' = console w @ ls \<and>
       segmented
         (\<lambda>key. segment svc (PHOTO_LOGOS_TABLE tn) key (fst (detectLogosForKey svc key w))
            (photoPut_decoupled h tn svc key) (mappingWrites_decoupled h svc key)
            (summaryUpdates_decoupled tn svc) (sent w') ls)
         keys (length (sent w)) (length (sent w'))"
    by (rule processKeys_segmented
         [where save = "savePhotoDecoupled fuel h tn svc" and svc = svc and t = "PHOTO_LOGOS_TABLE tn"
            and putOf = "photoPut_decoupled h tn svc" and reqsOf = "mappingWrites_decoupled h svc"
            and updatesOf = "\<lambda>key. summaryUpdates_decoupled tn svc",
          OF _ aside_savePhotoDecoupled r])
       (erule savePhotoDecoupled_result)
  then obtain cs ls where "sent w' = sent w @ cs" and c: "console w' = console w @ ls"
    and h: "segmented
         (\<lambda>key. segment svc (PHOTO_LOGOS_TABLE tn) key (fst (detectLogosForKey svc key w))
            (photoPut_decoupled h tn svc key) (mappingWrites_decoupled h svc key)
            (summaryUpdates_decoupled tn svc) (sent w') ls)
         keys (length (sent w)) (length (sent w'))"
    by blast
  have "drop (length (console w)) (console w') = ls" using c by simp
  then show ?thesis using h r by (simp add: handledDecoupled_def)
qed

lemma processKeys_handledSingle:
  assumes "fst (processKeys (savePhoto fuel h tableName svc) svc keys w) \<noteq> None"
  shows "handledSingle h tableName svc keys w
           (snd (processKeys (savePhoto fuel h tableName svc) svc keys w))"
proof -
  obtain res w' where r: "processKeys (savePhoto fuel h tableName svc) svc keys w = (Some res, w')"
    using assms by (cases "processKeys (savePhoto fuel h tableName svc) svc keys w") auto
  have "\<exists>cs ls. sent w' = sent w @ cs \<and> console w' = console w @ ls \<and>
       segmented
         (\<lambda>key. segment svc tableName key (fst (detectLogosForKey svc key w))
            (photoPut_single h tableName svc key) (mappingWrites_single h key)
            (summaryUpdates_single tableName) (sent w') ls)
         keys (length (sent w)) (length (sent w'))"
    by (rule processKeys_segmented
         [where save = "savePhoto fuel h tableName svc" and svc = svc and t = tableName
            and putOf = "photoPut_single h tableName svc" and reqsOf = "mappingWrites_single h"
            and updatesOf = "\<lambda>key. summaryUpdates_single tableName",
          OF _ aside_savePhoto r])
       (erule savePhoto_result)
  then obtain cs ls where "sent w' = sent w @ cs" and c: "console w' = console w @ ls"
    and h: "segmented
         (\<lambda>key. segment svc tableName key (fst (detectLogosForKey svc key w))
            (photoPut_single h tableName svc key) (mappingWrites_single h key)
            (summaryUpdates_single tableName) (sent w') ls)
         keys (length (sent w)) (length (sent w'))"
    by blast
  have "drop (length (console w)) (console w') = ls" using c by simp
  then show ?thesis using h r by (simp add: handledSingle_def)
qed

text \<open>
  Claim C4. Whenever the main loop of either script returns, it has not thrown, it has
  fetched every key of the list in order, whatever failed before, and it has logged for
  every key, in order, either that it was stored or that it failed. The commands of the
  run are those of the keys, one key after the other: a key whose detection threw sent
  nothing and has that error logged; a key whose detection returned sent first the put of
  its photo, and either the database accepted the put, every mapping request and every
  summary update of the photo and the key is logged as stored, or the database rejected
  the last command of the key and that rejection is logged for the key. The loop returns
  when the database settles every batch write within the fuel of the retry loop. The keys
  after any part of the list are processed as a run of their own from the world that the
  part left, whatever failed in it.
\<close>

theorem main_loop_continues:
  "(fst (processKeys (savePhotoDecoupled fuel h tn svc) svc keys w) \<noteq> None \<longrightarrow>
      processed keys w (processKeys (savePhotoDecoupled fuel h tn svc) svc keys w) \<and>
      handledDecoupled h tn svc keys w
        (snd (processKeys (savePhotoDecoupled fuel h tn svc) svc keys w))) \<and>
   (settles fuel svc (PHOTO_LOGOS_TABLE tn) \<longrightarrow>
      fst (processKeys (savePhotoDecoupled fuel h tn svc) svc keys w) \<noteq> None) \<and>
   (fst (processKeys (savePhoto fuel h tableName svc) svc keys w) \<noteq> None \<longrightarrow>
      processed keys w (processKeys (savePhoto fuel h tableName svc) svc keys w) \<and>
      handledSingle h tableName svc keys w
        (snd (processKeys (savePhoto fuel h tableName svc) svc keys w))) \<and>
   (settles fuel svc tableName \<longrightarrow>
      fst (processKeys (savePhoto fuel h tableName svc) svc keys w) \<noteq> None) \<and>
   (fst (processKeys save svc before w) \<noteq> None \<longrightarrow>
      processKeys save svc (before @ after) w =
        processKeys save svc after (snd (processKeys save svc before w)))"
  using processKeys_processed [of "savePhotoDecoupled fuel h tn svc", OF aside_savePhotoDecoupled]
    processKeys_processed [of "savePhoto fuel h tableName svc", OF aside_savePhoto]
    processKeys_returns [of "savePhotoDecoupled fuel h tn svc", OF savePhotoDecoupled_returns]
    processKeys_returns [of "savePhoto fuel h tableName svc", OF savePhoto_returns]
    processKeys_handledDecoupled [of fuel h tn svc keys w]
    processKeys_handledSingle [of fuel h tableName svc keys w]
    processKeys_append [of save svc before w after]
  by blast

lemma example_run_broken:
  "processKeys (savePhotoDecoupled 1 exampleHost exampleTableNames (exampleServices (tableServer exampleTables)))
     (exampleServices (tableServer exampleTables)) exampleKeys world0 =
   (Some (Inr ()),
    \<lparr>sent =
       [PutCommand ''photos''
          [(''photoId'', JStr ''p1''), (''s3Key'', JStr ''photos/p1.jpg''),
           (''publicUrl'', JUndefined),
           (''createdAt'', JStr ''2021-01-01T00:00:00.000Z''),
           (''updatedAt'', JStr ''2021-01-01T00:00:00.000Z'')],
        BatchWriteCommand ''photo-logos''
          [PutRequest
             [(''logoSlug'', JStr ''nike''), (''sortKey'', JStr ''p1#0000''),
              (''photoId'', JStr ''p1''), (''logoName'', JStr ''Nike''),
              (''confidence'', JNum (Fin (9 / 10))),
              (''detectionIndex'', JNum (Fin 0)),
              (''createdAt'', JStr ''2021-01-01T00:00:00.000Z'')]],
        summaryUpdate_decoupled ''logo-summaries'' ''2021-01-01T00:00:00.000Z''
          (''nike'', Fin (9 / 10), ''Nike'')],
     fetched = [''photos/broken.jpg'', ''photos/p1.jpg''],
     console =
       [(Info, [T ''Processing '', T ''photos/broken.jpg'', T ''...'']),
        (Err, [T ''Failed to process '', T ''photos/broken.jpg'', E (ServiceError ''NoSuchKey'')]),
        (Info, [T ''Processing '', T ''photos/p1.jpg'', T ''...'']),
        (Log, [T ''table'']),
        (Log, [T ''Detected '', N 1, T '' logos for '', T ''photos/p1.jpg'']),
        (Log, [N 0, T '' detected logo: '', T ''Nike'']),
        (Info, [T ''Stored '', N 1, T '' logos for '', T ''photos/p1.jpg''])]\<rparr>)"
  by code_simp

lemma example_run_throttled:
  "processKeys (savePhotoDecoupled 1 exampleHost exampleTableNames (exampleServices rejectFirstPut))
     (exampleServices rejectFirstPut) laterKeys world0 =
   (Some (Inr ()),
    \<lparr>sent =
       [PutCommand ''photos''
          [(''photoId'', JStr ''p1''), (''s3Key'', JStr ''photos/p1.jpg''),
           (''publicUrl'', JUndefined),
           (''createdAt'', JStr ''2021-01-01T00:00:00.000Z''),
           (''updatedAt'', JStr ''2021-01-01T00:00:00.000Z'')],
        PutCommand ''photos''
          [(''photoId'', JStr ''p2''), (''s3Key'', JStr ''photos/p2.jpg''),
           (''publicUrl'', JUndefined),
           (''createdAt'', JStr ''2021-01-01T00:00:00.000Z''),
           (''updatedAt'', JStr ''2021-01-01T00:00:00.000Z'')],
        BatchWriteCommand ''photo-logos''
          [PutRequest
             [(''logoSlug'', JStr ''nike''), (''sortKey'', JStr ''p2#0000''),
              (''photoId'', JStr ''p2''), (''logoName'', JStr ''Nike''),
              (''confidence'', JNum (Fin (9 / 10))),
              (''detectionIndex'', JNum (Fin 0)),
              (''createdAt'', JStr ''2021-01-01T00:00:00.000Z'')]],
        summaryUpdate_decoupled ''logo-summaries'' ''2021-01-01T00:00:00.000Z''
          (''nike'', Fin (9 / 10), ''Nike'')],
     fetched = [''photos/p1.jpg'', ''photos/p2.jpg''],
     console =
       [(Info, [T ''Processing '', T ''photos/p1.jpg'', T ''...'']),
        (Log, [T ''table'']),
        (Log, [T ''Detected '', N 1, T '' logos for '', T ''photos/p1.jpg'']),
        (Log, [N 0, T '' detected logo: '', T ''Nike'']),
        (Err, [T ''Failed to process '', T ''photos/p1.jpg'', E (ServiceError ''Throttled'')]),
        (Info, [T ''Processing '', T ''photos/p2.jpg'', T ''...'']),
        (Log, [T ''table'']),
        (Log, [T ''Detected '', N 1, T '' logos for '', T ''photos/p2.jpg'']),
        (Log, [N 0, T '' detected logo: '', T ''Nike'']),
        (Info, [T ''Stored '', N 1, T '' logos for '', T ''photos/p2.jpg''])]\<rparr>)"
  by code_simp


theorem main_loop_continues_witness:
  "settles 1 (exampleServices (tableServer exampleTables)) ''photo-logos'' \<and>
   processed exampleKeys world0
     (processKeys (savePhotoDecoupled 1 exampleHost exampleTableNames (exampleServices (tableServer exampleTables)))
        (exampleServices (tableServer exampleTables)) exampleKeys world0) \<and>
   fst (detectLogosForKey (exampleServices (tableServer exampleTables)) ''photos/broken.jpg'' world0) =
     Inl (ServiceError ''NoSuchKey'') \<and>
   fst (detectLogosForKey (exampleServices (tableServer exampleTables)) ''photos/p1.jpg'' world0) =
     Inr [nikeDetection (Fin (9 / 10))] \<and>
   handledDecoupled exampleHost exampleTableNames (exampleServices (tableServer exampleTables))
     exampleKeys world0
     (snd (processKeys (savePhotoDecoupled 1 exampleHost exampleTableNames (exampleServices (tableServer exampleTables)))
        (exampleServices (tableServer exampleTables)) exampleKeys world0)) \<and>
   map commandKind (sent (snd
     (processKeys (savePhotoDecoupled 1 exampleHost exampleTableNames (exampleServices (tableServer exampleTables)))
        (exampleServices (tableServer exampleTables)) exampleKeys world0))) =
     [''put'', ''batch put'', ''update''] \<and>
   settles 1 (exampleServices (tableServer exampleTables)) ''index'' \<and>
   processed exampleKeys world0
     (processKeys (savePhoto 1 exampleHost ''index'' (exampleServices (tableServer exampleTables)))
        (exampleServices (tableServer exampleTables)) exampleKeys world0) \<and>
   handledSingle exampleHost ''index'' (exampleServices (tableServer exampleTables))
     exampleKeys world0
     (snd (processKeys (savePhoto 1 exampleHost ''index'' (exampleServices (tableServer exampleTables)))
        (exampleServices (tableServer exampleTables)) exampleKeys world0)) \<and>
   settles 1 (exampleServices rejectFirstPut) ''photo-logos'' \<and>
   processed laterKeys world0
     (processKeys (savePhotoDecoupled 1 exampleHost exampleTableNames (exampleServices rejectFirstPut))
        (exampleServices rejectFirstPut) laterKeys world0) \<and>
   handledDecoupled exampleHost exampleTableNames (exampleServices rejectFirstPut) laterKeys world0
     (snd (processKeys (savePhotoDecoupled 1 exampleHost exampleTableNames (exampleServices rejectFirstPut))
        (exampleServices rejectFirstPut) laterKeys world0)) \<and>
   map commandKind (sent (snd
     (processKeys (savePhotoDecoupled 1 exampleHost exampleTableNames (exampleServices rejectFirstPut))
        (exampleServices rejectFirstPut) laterKeys world0))) =
     [''put'', ''put'', ''batch put'', ''update''] \<and>
   filter (\<lambda>line. fst line = Err \<or> fst line = Info) (console (snd
     (processKeys (savePhotoDecoupled 1 exampleHost exampleTableNames (exampleServices rejectFirstPut))
        (exampleServices rejectFirstPut) laterKeys world0))) =
     [(Info, [T ''Processing '', T ''photos/p1.jpg'', T ''...'']),
      (Err, [T ''Failed to process '', T ''photos/p1.jpg'', E (ServiceError ''Throttled'')]),
      (Info, [T ''Processing '', T ''photos/p2.jpg'', T ''...'']),
      (Info, [T ''Stored '', N 1, T '' logos for '', T ''photos/p2.jpg''])] \<and>
   processKeys (savePhotoDecoupled 1 exampleHost exampleTableNames (exampleServices rejectFirstPut))
     (exampleServices rejectFirstPut) ([''photos/p1.jpg''] @ [''photos/p2.jpg'']) world0 =
   processKeys (savePhotoDecoupled 1 exampleHost exampleTableNames (exampleServices rejectFirstPut))
     (exampleServices rejectFirstPut) [''photos/p2.jpg'']
     (snd (processKeys (savePhotoDecoupled 1 exampleHost exampleTableNames (exampleServices rejectFirstPut))
        (exampleServices rejectFirstPut) [''photos/p1.jpg''] world0))"
proof -
  have s: "settles 1 (exampleServices (tableServer exampleTables)) t" for t
    by (simp add: settles_def exampleServices_def tableServer_def unprocessedFor_def emptyResponse_def)
  have s': "settles 1 (exampleServices rejectFirstPut) t" for t
    by (simp add: settles_def exampleServices_def rejectFirstPut_def unprocessedFor_def emptyResponse_def)
  have t: "PHOTO_LOGOS_TABLE exampleTableNames = ''photo-logos''" by (simp add: exampleTableNames_def)
  have d1: "fst (detectLogosForKey (exampleServices (tableServer exampleTables)) ''photos/broken.jpg'' world0) =
     Inl (ServiceError ''NoSuchKey'')" by code_simp
  have d2: "fst (detectLogosForKey (exampleServices (tableServer exampleTables)) ''photos/p1.jpg'' world0) =
     Inr [nikeDetection (Fin (9 / 10))]" by code_simp
  have k1: "map commandKind (sent (snd
     (processKeys (savePhotoDecoupled 1 exampleHost exampleTableNames (exampleServices (tableServer exampleTables)))
        (exampleServices (tableServer exampleTables)) exampleKeys world0))) =
     [''put'', ''batch put'', ''update'']"
    unfolding example_run_broken by (simp add: commandKind_def summaryUpdate_decoupled_def)
  have k2: "map commandKind (sent (snd
     (processKeys (savePhotoDecoupled 1 exampleHost exampleTableNames (exampleServices rejectFirstPut))
        (exampleServices rejectFirstPut) laterKeys world0))) =
     [''put'', ''put'', ''batch put'', ''update'']"
    unfolding example_run_throttled by (simp add: commandKind_def summaryUpdate_decoupled_def)
  have f2: "filter (\<lambda>line. fst line = Err \<or> fst line = Info) (console (snd
     (processKeys (savePhotoDecoupled 1 exampleHost exampleTableNames (exampleServices rejectFirstPut))
        (exampleServices rejectFirstPut) laterKeys world0))) =
     [(Info, [T ''Processing '', T ''photos/p1.jpg'', T ''...'']),
      (Err, [T ''Failed to process '', T ''photos/p1.jpg'', E (ServiceError ''Throttled'')]),
      (Info, [T ''Processing '', T ''photos/p2.jpg'', T ''...'']),
      (Info, [T ''Stored '', N 1, T '' logos for '', T ''photos/p2.jpg''])]"
    unfolding example_run_throttled by simp
  note m = main_loop_continues
            [where fuel = 1 and h = exampleHost and tn = exampleTableNames
               and svc = "exampleServices (tableServer exampleTables)"
               and keys = exampleKeys and w = world0 and tableName = "''index''"
               and save = "savePhotoDecoupled 1 exampleHost exampleTableNames (exampleServices (tableServer exampleTables))"
               and before = "[]" and after = "[]", unfolded t]
  note n = main_loop_continues
            [where fuel = 1 and h = exampleHost and tn = exampleTableNames
               and svc = "exampleServices rejectFirstPut"
               and keys = laterKeys and w = world0 and tableName = "''index''"
               and save = "savePhotoDecoupled 1 exampleHost exampleTableNames (exampleServices rejectFirstPut)"
               and before = "[''photos/p1.jpg'']" and after = "[''photos/p2.jpg'']", unfolded t]
  have p1: "processed exampleKeys world0
     (processKeys (savePhotoDecoupled 1 exampleHost exampleTableNames (exampleServices (tableServer exampleTables)))
        (exampleServices (tableServer exampleTables)) exampleKeys world0)"
    using m s by blast
  have h1: "handledDecoupled exampleHost exampleTableNames (exampleServices (tableServer exampleTables))
     exampleKeys world0
     (snd (processKeys (savePhotoDecoupled 1 exampleHost exampleTableNames (exampleServices (tableServer exampleTables)))
        (exampleServices (tableServer exampleTables)) exampleKeys world0))"
    using m s by blast
  have p2: "processed exampleKeys world0
     (processKeys (savePhoto 1 exampleHost ''index'' (exampleServices (tableServer exampleTables)))
        (exampleServices (tableServer exampleTables)) exampleKeys world0)"
    using m s by blast
  have h2: "handledSingle exampleHost ''index'' (exampleServices (tableServer exampleTables))
     exampleKeys world0
     (snd (processKeys (savePhoto 1 exampleHost ''index'' (exampleServices (tableServer exampleTables)))
        (exampleServices (tableServer exampleTables)) exampleKeys world0))"
    using m s by blast
  have p3: "processed laterKeys world0
     (processKeys (savePhotoDecoupled 1 exampleHost exampleTableNames (exampleServices rejectFirstPut))
        (exampleServices rejectFirstPut) laterKeys world0)"
    using n s' by blast
  have h3: "handledDecoupled exampleHost exampleTableNames (exampleServices rejectFirstPut) laterKeys world0
     (snd (processKeys (savePhotoDecoupled 1 exampleHost exampleTableNames (exampleServices rejectFirstPut))
        (exampleServices rejectFirstPut) laterKeys world0))"
    using n s' by blast
  have b: "fst (processKeys (savePhotoDecoupled 1 exampleHost exampleTableNames (exampleServices rejectFirstPut))
        (exampleServices rejectFirstPut) [''photos/p1.jpg''] world0) \<noteq> None"
    using main_loop_continues
            [where fuel = 1 and tn = exampleTableNames and svc = "exampleServices rejectFirstPut"
               and h = exampleHost and keys = "[''photos/p1.jpg'']" and w = world0, unfolded t] s'
    by blast
  have a: "processKeys (savePhotoDecoupled 1 exampleHost exampleTableNames (exampleServices rejectFirstPut))
     (exampleServices rejectFirstPut) ([''photos/p1.jpg''] @ [''photos/p2.jpg'']) world0 =
   processKeys (savePhotoDecoupled 1 exampleHost exampleTableNames (exampleServices rejectFirstPut))
     (exampleServices rejectFirstPut) [''photos/p2.jpg'']
     (snd (processKeys (savePhotoDecoupled 1 exampleHost exampleTableNames (exampleServices rejectFirstPut))
        (exampleServices rejectFirstPut) [''photos/p1.jpg''] world0))"
    using n b by blast
  show ?thesis
    using s s' d1 d2 k1 k2 f2 p1 p2 p3 a h1 h2 h3
    by blast
qed

section \<open>No deletes\<close>

lemma allowed_send: "onlyAllowed w \<Longrightarrow> allowedCommand c \<Longrightarrow> onlyAllowed (snd (send svc c w))"
  by (simp add: onlyAllowed_def send_def)

lemma allowed_writeConsole: "onlyAllowed (writeConsole l m w) = onlyAllowed w"
  by (simp add: onlyAllowed_def writeConsole_def)

lemma allowed_retryLoop: "onlyAllowed w \<Longrightarrow> onlyAllowed (snd (retryLoop fuel svc t reqs w))"
proof (induction fuel arbitrary: reqs w)
  case 0
  then show ?case by simp
next
  case (Suc fuel)
  obtain r w1 where s: "send svc (BatchWriteCommand t reqs) w = (r, w1)"
    by (cases "send svc (BatchWriteCommand t reqs) w")
  have a1: "onlyAllowed w1"
    using allowed_send [OF Suc.prems, of "BatchWriteCommand t reqs" svc] s by simp
  show ?case
    using s a1 Suc.IH by (cases r) (simp_all add: Let_def allowed_writeConsole)
qed

lemma allowed_writeBatches:
  "onlyAllowed w \<Longrightarrow> onlyAllowed (snd (writeBatches fuel svc batches t w))"
proof (induction batches arbitrary: w)
  case Nil
  then show ?case by simp
next
  case (Cons b bs)
  obtain r w1 where s: "writeMappingBatch fuel svc b t w = (r, w1)"
    by (cases "writeMappingBatch fuel svc b t w")
  have a1: "onlyAllowed w1"
    using Cons.prems allowed_retryLoop [of w fuel svc t b] s
    by (auto simp: writeMappingBatch_def split: if_splits)
  show ?case using s a1 Cons.IH by (auto split: option.splits sum.splits)
qed

lemma allowed_sendAll:
  "onlyAllowed w \<Longrightarrow> list_all allowedCommand cmds \<Longrightarrow> onlyAllowed (snd (sendAll svc cmds w))"
proof (induction cmds arbitrary: w)
  case Nil
  then show ?case by simp
next
  case (Cons c cs)
  obtain r w1 where s: "send svc c w = (r, w1)" by (cases "send svc c w")
  have a1: "onlyAllowed w1" using allowed_send [of w c svc] Cons.prems s by simp
  show ?case using s a1 Cons by (auto split: sum.splits)
qed

lemma allowed_savePhotoDecoupled:
  assumes "onlyAllowed w"
  shows "onlyAllowed (snd (savePhotoDecoupled fuel h tn svc key found w))"
proof -
  from savePhotoDecoupled_world [of fuel h tn svc key found w]
  obtain put batches updates where p: "allowedCommand put" and u: "list_all allowedCommand updates"
    and m: "snd (savePhotoDecoupled fuel h tn svc key found w) \<in>
       {snd (send svc put w),
        snd (writeBatches fuel svc batches (PHOTO_LOGOS_TABLE tn) (snd (send svc put w))),
        snd (sendAll svc updates
               (snd (writeBatches fuel svc batches (PHOTO_LOGOS_TABLE tn) (snd (send svc put w)))))}"
    by blast
  have 1: "onlyAllowed (snd (send svc put w))" using assms p by (rule allowed_send)
  have 2: "onlyAllowed (snd (writeBatches fuel svc batches (PHOTO_LOGOS_TABLE tn) (snd (send svc put w))))"
    using 1 by (rule allowed_writeBatches)
  have 3: "onlyAllowed (snd (sendAll svc updates
               (snd (writeBatches fuel svc batches (PHOTO_LOGOS_TABLE tn) (snd (send svc put w))))))"
    using 2 u by (rule allowed_sendAll)
  show ?thesis using m 1 2 3 by auto
qed

lemma allowed_savePhoto:
  assumes "onlyAllowed w"
  shows "onlyAllowed (snd (savePhoto fuel h tableName svc key found w))"
proof -
  from savePhoto_world [of fuel h tableName svc key found w]
  obtain put batches updates where p: "allowedCommand put" and u: "list_all allowedCommand updates"
    and m: "snd (savePhoto fuel h tableName svc key found w) \<in>
       {snd (send svc put w),
        snd (writeBatches fuel svc batches tableName (snd (send svc put w))),
        snd (sendAll svc updates
               (snd (writeBatches fuel svc batches tableName (snd (send svc put w)))))}"
    by blast
  have 1: "onlyAllowed (snd (send svc put w))" using assms p by (rule allowed_send)
  have 2: "onlyAllowed (snd (writeBatches fuel svc batches tableName (snd (send svc put w))))"
    using 1 by (rule allowed_writeBatches)
  have 3: "onlyAllowed (snd (sendAll svc updates
               (snd (writeBatches fuel svc batches tableName (snd (send svc put w))))))"
    using 2 u by (rule allowed_sendAll)
  show ?thesis using m 1 2 3 by auto
qed

lemma allowed_detect: "onlyAllowed (snd (detectLogosForKey svc key w)) = onlyAllowed w"
  by (simp add: onlyAllowed_def detect_effects)

lemma allowed_processKeys:
  assumes save: "\<And>key found w. onlyAllowed w \<Longrightarrow> onlyAllowed (snd (save key found w))"
  shows "onlyAllowed w \<Longrightarrow> onlyAllowed (snd (processKeys save svc keys w))"
proof (induction keys arbitrary: w)
  case Nil
  then show ?case by simp
next
  case (Cons key keys)
  define w1 where "w1 = writeConsole Info [T ''Processing '', T key, T ''...''] w"
  obtain rd w2 where d: "detectLogosForKey svc key w1 = (rd, w2)"
    by (cases "detectLogosForKey svc key w1")
  have a2: "onlyAllowed w2"
    using allowed_detect [of svc key w1] d Cons.prems by (simp add: w1_def allowed_writeConsole)
  show ?case
  proof (cases rd)
    case (Inl e)
    then show ?thesis
      using d a2 Cons.IH by (simp add: w1_def [symmetric] Let_def allowed_writeConsole)
  next
    case (Inr found)
    obtain rs w3 where s: "save key found w2 = (rs, w3)" by (cases "save key found w2")
    have a3: "onlyAllowed w3" using save [OF a2, of key found] s by simp
    show ?thesis
    proof (cases rs)
      case None
      then show ?thesis using d Inr s a3 by (simp add: w1_def [symmetric] Let_def)
    next
      case (Some r)
      then show ?thesis
        using d Inr s a3 Cons.IH
        by (cases r) (simp_all add: w1_def [symmetric] Let_def allowed_writeConsole)
    qed
  qed
qed

lemma allowed_main:
  assumes save: "\<And>key found w. onlyAllowed w \<Longrightarrow> onlyAllowed (snd (save key found w))"
  shows "onlyAllowed w \<Longrightarrow> onlyAllowed (snd (main save svc listed w))"
proof (cases listed)
  case (Inl e)
  assume "onlyAllowed w"
  then show ?thesis using Inl by (simp add: main_def Let_def allowed_writeConsole)
next
  case (Inr keys)
  assume w: "onlyAllowed w"
  define w1 where "w1 = writeConsole Info [T ''Found '', N (length keys), T '' objects to process.'']
                          (writeConsole Info [T ''Listing photos from S3...''] w)"
  have a1: "onlyAllowed w1" using w by (simp add: w1_def allowed_writeConsole)
  have "onlyAllowed (snd (processKeys save svc keys w1))"
    by (rule allowed_processKeys [of save, OF save a1])
  then show ?thesis
    using Inr
    by (cases "processKeys save svc keys w1")
       (auto simp: main_def Let_def w1_def [symmetric] allowed_writeConsole split: option.splits)
qed

lemma allowed_fetchAllPhotos_decoupled:
  "onlyAllowed w \<Longrightarrow> onlyAllowed (snd (fetchAllPhotos_decoupled h svc w))"
  unfolding fetchAllPhotos_decoupled_def Let_def
  by (auto simp: onlyAllowed_def send_def split: sum.splits)

lemma allowed_fetchAllPhotos_single:
  "onlyAllowed w \<Longrightarrow> onlyAllowed (snd (fetchAllPhotos_single h svc w))"
  unfolding fetchAllPhotos_single_def Let_def
  by (auto simp: onlyAllowed_def send_def split: sum.splits)

lemma allowed_fetchAllLogos_decoupled:
  "onlyAllowed w \<Longrightarrow> onlyAllowed (snd (fetchAllLogos_decoupled h svc w))"
  unfolding fetchAllLogos_decoupled_def Let_def
  by (auto simp: onlyAllowed_def send_def split: sum.splits)

lemma allowed_fetchAllLogos_single:
  "onlyAllowed w \<Longrightarrow> onlyAllowed (snd (fetchAllLogos_single h svc w))"
  unfolding fetchAllLogos_single_def Let_def
  by (auto simp: onlyAllowed_def send_def split: sum.splits)

lemma allowed_fetchPhotosByLogo_decoupled:
  "onlyAllowed w \<Longrightarrow> onlyAllowed (snd (fetchPhotosByLogo_decoupled h svc q w))"
  unfolding fetchPhotosByLogo_decoupled_def Let_def
  by (auto simp: onlyAllowed_def send_def split: sum.splits prod.splits)

lemma allowed_fetchPhotosByLogo_single:
  "onlyAllowed w \<Longrightarrow> onlyAllowed (snd (fetchPhotosByLogo_single h svc q w))"
  unfolding fetchPhotosByLogo_single_def Let_def
  by (auto simp: onlyAllowed_def send_def split: sum.splits prod.splits)

text \<open>
  Claim C7. When no command sent so far is a delete, none is after \<open>main\<close> of either
  ingestion script or after any repository function: every command they send is a put, a
  batch put, an update, a scan, a query or a batch get.
\<close>

theorem no_command_deletes:
  assumes "onlyAllowed w"
  shows "onlyAllowed (snd (main_decoupled fuel h tn svc listed w)) \<and>
         onlyAllowed (snd (main_single fuel h tableName svc listed w)) \<and>
         onlyAllowed (snd (fetchAllPhotos_decoupled h svc w)) \<and>
         onlyAllowed (snd (fetchAllLogos_decoupled h svc w)) \<and>
         onlyAllowed (snd (fetchPhotosByLogo_decoupled h svc q w)) \<and>
         onlyAllowed (snd (fetchAllPhotos_single h svc w)) \<and>
         onlyAllowed (snd (fetchAllLogos_single h svc w)) \<and>
         onlyAllowed (snd (fetchPhotosByLogo_single h svc q w))"
  using assms
  by (simp add: main_decoupled_def main_single_def
        allowed_main [of "savePhotoDecoupled fuel h tn svc", OF allowed_savePhotoDecoupled]
        allowed_main [of "savePhoto fuel h tableName svc", OF allowed_savePhoto]
        allowed_fetchAllPhotos_decoupled allowed_fetchAllLogos_decoupled
        allowed_fetchPhotosByLogo_decoupled allowed_fetchAllPhotos_single
        allowed_fetchAllLogos_single allowed_fetchPhotosByLogo_single)

theorem no_command_deletes_witness:
  "onlyAllowed world0 \<and>
   onlyAllowed (snd (main_decoupled 1 exampleHost exampleTableNames
      (exampleServices (tableServer exampleTables)) (Inr exampleKeys) world0)) \<and>
   map (\<lambda>c. case c of PutCommand t i \<Rightarrow> ''put'' | BatchWriteCommand t r \<Rightarrow> ''batch put''
                     | UpdateCommand t k e v n \<Rightarrow> ''update'' | _ \<Rightarrow> ''other'')
     (sent (snd (main_decoupled 1 exampleHost exampleTableNames
      (exampleServices (tableServer exampleTables)) (Inr exampleKeys) world0))) =
     [''put'', ''batch put'', ''update''] \<and>
   onlyAllowed (snd (fetchPhotosByLogo_decoupled exampleHost
      (exampleServices (tableServer exampleTables)) ''Nike'' world0)) \<and>
   sent (snd (fetchPhotosByLogo_decoupled exampleHost
      (exampleServices (tableServer exampleTables)) ''Nike'' world0)) =
     [QueryCommand ''photo-logos'' ''logoSlug'' (JStr ''nike''),
      BatchGetCommand ''photos'' [[(''photoId'', JStr ''p2'')], [(''photoId'', JStr ''p1'')],
                                  [(''photoId'', JStr ''gone'')]]]"
proof -
  have w: "onlyAllowed world0" by (simp add: onlyAllowed_def world0_def)
  have m: "map (\<lambda>c. case c of PutCommand t i \<Rightarrow> ''put'' | BatchWriteCommand t r \<Rightarrow> ''batch put''
                     | UpdateCommand t k e v n \<Rightarrow> ''update'' | _ \<Rightarrow> ''other'')
     (sent (snd (main_decoupled 1 exampleHost exampleTableNames
      (exampleServices (tableServer exampleTables)) (Inr exampleKeys) world0))) =
     [''put'', ''batch put'', ''update'']"
    by code_simp
  have q: "sent (snd (fetchPhotosByLogo_decoupled exampleHost
      (exampleServices (tableServer exampleTables)) ''Nike'' world0)) =
     [QueryCommand ''photo-logos'' ''logoSlug'' (JStr ''nike''),
      BatchGetCommand ''photos'' [[(''photoId'', JStr ''p2'')], [(''photoId'', JStr ''p1'')],
                                  [(''photoId'', JStr ''gone'')]]]"
    by code_simp
  note n = no_command_deletes
            [OF w, where fuel = 1 and h = exampleHost and tn = exampleTableNames
               and svc = "exampleServices (tableServer exampleTables)"
               and listed = "Inr exampleKeys" and q = "''Nike''" and tableName = "''index''"]
  show ?thesis using n w m q by blast
qed

section \<open>Routes\<close>

text \<open>
  Claim C3. When the repository function that a route awaits throws (or, for the photos
  of a logo, awaiting the parameters does), the route answers with status 500 and its
  generic error message and logs one error line; it returns a response in every case, and
  a response with status 200 only carries what the repository function returned.
\<close>

theorem routes_catch_errors:
  "(fst (f w) = Inl e \<longrightarrow>
      GET_photos f w =
        (internalError ''Unable to load photos'',
         writeConsole Err [T ''Failed to load photos'', E e] (snd (f w)))) \<and>
   (status (fst (GET_photos f w)) = 200 \<longrightarrow>
      (\<exists>photos. fst (f w) = Inr photos \<and> payload (fst (GET_photos f w)) = Data photos)) \<and>
   (fst (g w) = Inl e \<longrightarrow>
      GET_logos g w =
        (internalError ''Unable to load logos'',
         writeConsole Err [T ''Failed to load logos'', E e] (snd (g w)))) \<and>
   (status (fst (GET_logos g w)) = 200 \<longrightarrow>
      (\<exists>ls. fst (g w) = Inr ls \<and> payload (fst (GET_logos g w)) = Data ls)) \<and>
   (params = Inl e \<longrightarrow>
      GET_photosByLogo k params w =
        (internalError ''Unable to load photos for logo'',
         writeConsole Err [T ''Failed to load photos by logo'', E e] w)) \<and>
   (params = Inr logoParam \<and> truthy logoParam \<and>
    fst (k (normalizeLogoName (the logoParam)) w) = Inl e \<longrightarrow>
      GET_photosByLogo k params w =
        (internalError ''Unable to load photos for logo'',
         writeConsole Err [T ''Failed to load photos by logo'', E e]
           (snd (k (normalizeLogoName (the logoParam)) w)))) \<and>
   (status (fst (GET_photosByLogo k params w)) = 200 \<longrightarrow>
      (\<exists>logoParam photos. params = Inr logoParam \<and>
         fst (k (normalizeLogoName (the logoParam)) w) = Inr photos \<and>
         payload (fst (GET_photosByLogo k params w)) = LogoData (normalizeLogoName (the logoParam)) photos))"
proof (intro conjI impI)
  assume "fst (f w) = Inl e"
  then show "GET_photos f w =
        (internalError ''Unable to load photos'',
         writeConsole Err [T ''Failed to load photos'', E e] (snd (f w)))"
    by (cases "f w") (simp add: GET_photos_def internalError_def)
next
  assume "status (fst (GET_photos f w)) = 200"
  then show "\<exists>photos. fst (f w) = Inr photos \<and> payload (fst (GET_photos f w)) = Data photos"
    by (cases "f w"; cases "fst (f w)") (auto simp: GET_photos_def)
next
  assume "fst (g w) = Inl e"
  then show "GET_logos g w =
        (internalError ''Unable to load logos'',
         writeConsole Err [T ''Failed to load logos'', E e] (snd (g w)))"
    by (cases "g w") (simp add: GET_logos_def internalError_def)
next
  assume "status (fst (GET_logos g w)) = 200"
  then show "\<exists>ls. fst (g w) = Inr ls \<and> payload (fst (GET_logos g w)) = Data ls"
    by (cases "g w"; cases "fst (g w)") (auto simp: GET_logos_def)
next
  assume "params = Inl e"
  then show "GET_photosByLogo k params w =
        (internalError ''Unable to load photos for logo'',
         writeConsole Err [T ''Failed to load photos by logo'', E e] w)"
    by (simp add: GET_photosByLogo_def internalError_def)
next
  assume "params = Inr logoParam \<and> truthy logoParam \<and>
    fst (k (normalizeLogoName (the logoParam)) w) = Inl e"
  then show "GET_photosByLogo k params w =
        (internalError ''Unable to load photos for logo'',
         writeConsole Err [T ''Failed to load photos by logo'', E e]
           (snd (k (normalizeLogoName (the logoParam)) w)))"
    by (cases "k (normalizeLogoName (the logoParam)) w")
       (simp add: GET_photosByLogo_def internalError_def Let_def)
next
  assume a: "status (fst (GET_photosByLogo k params w)) = 200"
  show "\<exists>logoParam photos. params = Inr logoParam \<and>
         fst (k (normalizeLogoName (the logoParam)) w) = Inr photos \<and>
         payload (fst (GET_photosByLogo k params w)) = LogoData (normalizeLogoName (the logoParam)) photos"
  proof (cases params)
    case (Inl e')
    then show ?thesis using a by (simp add: GET_photosByLogo_def)
  next
    case (Inr lp)
    show ?thesis
    proof (cases "truthy lp")
      case False
      then show ?thesis using a Inr by (simp add: GET_photosByLogo_def)
    next
      case True
      then show ?thesis
        using a Inr
        by (cases "k (normalizeLogoName (the lp)) w"; cases "fst (k (normalizeLogoName (the lp)) w)")
           (auto simp: GET_photosByLogo_def Let_def)
    qed
  qed
qed

theorem routes_catch_errors_witness:
  "GET_photos (fetchAllPhotos_single exampleHost (exampleServices downServer)) world0 =
     (internalError ''Unable to load photos'',
      \<lparr>sent = [ScanCommand ''index''], fetched = [],
       console = [(Err, [T ''Failed to load photos'', E (ServiceError ''unreachable'')])]\<rparr>) \<and>
   GET_logos (fetchAllLogos_single exampleHost (exampleServices downServer)) world0 =
     (internalError ''Unable to load logos'',
      \<lparr>sent = [ScanCommand ''index''], fetched = [],
       console = [(Err, [T ''Failed to load logos'', E (ServiceError ''unreachable'')])]\<rparr>) \<and>
   GET_photosByLogo (fetchPhotosByLogo_single exampleHost (exampleServices downServer))
       (Inl (ServiceError ''unreachable'')) world0 =
     (internalError ''Unable to load photos for logo'',
      \<lparr>sent = [], fetched = [],
       console = [(Err, [T ''Failed to load photos by logo'', E (ServiceError ''unreachable'')])]\<rparr>) \<and>
   GET_photosByLogo (fetchPhotosByLogo_single exampleHost (exampleServices downServer))
       (Inr (Some ''Nike'')) world0 =
     (internalError ''Unable to load photos for logo'',
      \<lparr>sent = [QueryCommand ''index'' ''PK'' (JStr ''LOGO#nike'')], fetched = [],
       console = [(Err, [T ''Failed to load photos by logo'', E (ServiceError ''unreachable'')])]\<rparr>) \<and>
   fst (GET_photos (fetchAllPhotos_single exampleHost (exampleServices (tableServer undatedTables))) world0) =
     \<lparr>status = 200, payload = Data
        [examplePhoto ''a'' ''2020-01-01T00:00:00.000Z'' [] None, undatedPhoto ''b'',
         examplePhoto ''c'' ''2021-01-01T00:00:00.000Z'' [] None]\<rparr> \<and>
   (\<exists>photos. fst (fetchAllPhotos_single exampleHost (exampleServices (tableServer undatedTables)) world0) = Inr photos \<and>
      payload (fst (GET_photos (fetchAllPhotos_single exampleHost (exampleServices (tableServer undatedTables))) world0)) =
        Data photos)"
proof -
  let ?down = "exampleServices downServer"
  let ?up = "exampleServices (tableServer undatedTables)"
  let ?e = "ServiceError ''unreachable''"
  have f1: "fetchAllPhotos_single exampleHost ?down world0 =
            (Inl ?e, \<lparr>sent = [ScanCommand ''index''], fetched = [], console = []\<rparr>)"
    by code_simp
  have f2: "fetchAllLogos_single exampleHost ?down world0 =
            (Inl ?e, \<lparr>sent = [ScanCommand ''index''], fetched = [], console = []\<rparr>)"
    by code_simp
  have f3: "fetchPhotosByLogo_single exampleHost ?down (normalizeLogoName (the (Some ''Nike''))) world0 =
            (Inl ?e, \<lparr>sent = [QueryCommand ''index'' ''PK'' (JStr ''LOGO#nike'')], fetched = [], console = []\<rparr>)"
    by code_simp
  have f4: "fst (GET_photos (fetchAllPhotos_single exampleHost ?up) world0) =
     \<lparr>status = 200, payload = Data
        [examplePhoto ''a'' ''2020-01-01T00:00:00.000Z'' [] None, undatedPhoto ''b'',
         examplePhoto ''c'' ''2021-01-01T00:00:00.000Z'' [] None]\<rparr>"
    by code_simp
  have tr: "truthy (Some ''Nike'')" by (simp add: truthy_def)
  have w0: "writeConsole l m world0 = \<lparr>sent = [], fetched = [], console = [(l, m)]\<rparr>" for l m
    by (simp add: writeConsole_def world0_def)
  have w1: "writeConsole l m \<lparr>sent = cs, fetched = [], console = []\<rparr> =
            \<lparr>sent = cs, fetched = [], console = [(l, m)]\<rparr>" for l m cs
    by (simp add: writeConsole_def)
  note a = routes_catch_errors
      [where f = "fetchAllPhotos_single exampleHost ?down"
         and g = "fetchAllLogos_single exampleHost ?down"
         and k = "fetchPhotosByLogo_single exampleHost ?down"
         and w = world0 and e = ?e and params = "Inr (Some ''Nike'')" and logoParam = "Some ''Nike''"]
  note b = routes_catch_errors
      [where f = "fetchAllPhotos_single exampleHost ?up"
         and g = "fetchAllLogos_single exampleHost ?down"
         and k = "fetchPhotosByLogo_single exampleHost ?down"
         and w = world0 and e = ?e and params = "Inl ?e" and logoParam = "Some ''Nike''"]
  have c1: "GET_photos (fetchAllPhotos_single exampleHost ?down) world0 =
     (internalError ''Unable to load photos'',
      \<lparr>sent = [ScanCommand ''index''], fetched = [],
       console = [(Err, [T ''Failed to load photos'', E ?e])]\<rparr>)"
    using a f1 by (simp add: w1)
  have c2: "GET_logos (fetchAllLogos_single exampleHost ?down) world0 =
     (internalError ''Unable to load logos'',
      \<lparr>sent = [ScanCommand ''index''], fetched = [],
       console = [(Err, [T ''Failed to load logos'', E ?e])]\<rparr>)"
    using a f2 by (simp add: w1)
  have c3: "GET_photosByLogo (fetchPhotosByLogo_single exampleHost ?down) (Inl ?e) world0 =
     (internalError ''Unable to load photos for logo'',
      \<lparr>sent = [], fetched = [],
       console = [(Err, [T ''Failed to load photos by logo'', E ?e])]\<rparr>)"
    using b by (simp add: w0)
  have c4: "GET_photosByLogo (fetchPhotosByLogo_single exampleHost ?down) (Inr (Some ''Nike'')) world0 =
     (internalError ''Unable to load photos for logo'',
      \<lparr>sent = [QueryCommand ''index'' ''PK'' (JStr ''LOGO#nike'')], fetched = [],
       console = [(Err, [T ''Failed to load photos by logo'', E ?e])]\<rparr>)"
    using a f3 tr by (simp add: w1)
  have c5: "\<exists>photos. fst (fetchAllPhotos_single exampleHost ?up world0) = Inr photos \<and>
      payload (fst (GET_photos (fetchAllPhotos_single exampleHost ?up) world0)) = Data photos"
    using b f4 by simp
  show ?thesis using c1 c2 c3 c4 c5 f4 by blast
qed

end
